(* ===== verification/Neptune_Prelude.thy ===== *)
theory Neptune_Prelude
  imports Main "HOL-Library.Word"
begin

text \<open>
  Shared vocabulary of the development: the machine integer types, the result type of kernel
  code that may panic or never return, the alignment helpers every memory component of the
  kernel carries a copy of, byte-addressed physical memory with little-endian 64-bit accesses,
  and linked lists as chains of next pointers with the walks the kernel performs on them.
\<close>

unbundle bit_operations_syntax

section \<open>Machine types and collections of facts\<close>

type_synonym u8 = "8 word"
type_synonym u16 = "16 word"
type_synonym u32 = "32 word"
type_synonym u64 = "64 word"

named_theorems word_nat \<open>reading word arithmetic on natural numbers\<close>
named_theorems chain_simps \<open>rewriting of pointer chains\<close>
named_theorems run_simps \<open>case analysis of kernel results\<close>

declare word_less_nat_alt [word_nat] word_le_nat_alt [word_nat]

section \<open>Kernel code that may not return\<close>

text \<open>
  \<open>panic\<close> is declared noreturn: it prints its message and code and reboots. A pointer loop over
  a corrupted list never ends. Both are outcomes of their own.
\<close>

datatype 'a run = Ret 'a | Panic string u64 | Hang

primrec bind_run :: "'a run \<Rightarrow> ('a \<Rightarrow> 'b run) \<Rightarrow> 'b run" where
  "bind_run (Ret x) f = f x"
| "bind_run (Panic m c) f = Panic m c"
| "bind_run Hang f = Hang"

primrec loop_run :: "'a option \<Rightarrow> 'a run" where
  "loop_run None = Hang"
| "loop_run (Some x) = Ret x"

lemma bind_run_Ret_iff [run_simps]:
  "bind_run m f = Ret y \<longleftrightarrow> (\<exists>x. m = Ret x \<and> f x = Ret y)"
  by (cases m) auto

lemma bind_run_Ret_right [simp]: "bind_run m Ret = m"
  by (cases m) auto

lemma bind_run_assoc: "bind_run (bind_run m f) g = bind_run m (\<lambda>x. bind_run (f x) g)"
  by (cases m) auto

lemma loop_run_Ret_iff [run_simps]: "loop_run m = Ret y \<longleftrightarrow> m = Some y"
  by (cases m) auto

text \<open>The value a run returns, if it returns: what the concrete examples evaluate.\<close>

primrec ret_val :: "'a run \<Rightarrow> 'a option" where
  "ret_val (Ret x) = Some x"
| "ret_val (Panic m c) = None"
| "ret_val Hang = None"

lemma ret_val_Some_iff [run_simps]: "ret_val m = Some x \<longleftrightarrow> m = Ret x"
  by (cases m) auto

section \<open>Search loops\<close>

text \<open>
  A loop over the elements of a list that leaves at the first element for which its body
  returns something.
\<close>

fun first_some :: "('a \<Rightarrow> 'b option) \<Rightarrow> 'a list \<Rightarrow> 'b option" where
  "first_some f [] = None"
| "first_some f (x # xs) = (case f x of Some y \<Rightarrow> Some y | None \<Rightarrow> first_some f xs)"

lemma first_some_None: "first_some f xs = None \<longleftrightarrow> (\<forall>x\<in>set xs. f x = None)"
  by (induction xs) (auto split: option.splits)

lemma first_some_SomeD: "first_some f xs = Some y \<Longrightarrow> \<exists>x\<in>set xs. f x = Some y"
  by (induction xs) (auto split: option.splits)

lemma find_SomeD: "List.find P xs = Some x \<Longrightarrow> x \<in> set xs \<and> P x"
  by (induction xs) (auto split: if_splits)

lemma find_None: "List.find P xs = None \<longleftrightarrow> (\<forall>x\<in>set xs. \<not> P x)"
  by (induction xs) auto

section \<open>Word arithmetic read on naturals\<close>

lemma unat_add_no_wrap [word_nat]:
  fixes a b :: "'a::len word"
  shows "unat a + unat b < 2 ^ LENGTH('a) \<Longrightarrow> unat (a + b) = unat a + unat b"
  by (simp add: unat_word_ariths)

lemma unat_sub_no_wrap [word_nat]:
  fixes a b :: "'a::len word"
  shows "b \<le> a \<Longrightarrow> unat (a - b) = unat a - unat b"
  by (rule unat_sub)

lemma unat_mult_no_wrap [word_nat]:
  fixes a b :: "'a::len word"
  shows "unat a * unat b < 2 ^ LENGTH('a) \<Longrightarrow> unat (a * b) = unat a * unat b"
  by (simp add: unat_word_ariths)

lemma unat_of_nat_small [word_nat]:
  "n < 2 ^ LENGTH('a) \<Longrightarrow> unat (of_nat n :: 'a::len word) = n"
  by (simp add: unat_of_nat)

lemma unat_ucast_mod: "unat (ucast (w :: 'a::len word) :: 'b::len word) = unat w mod 2 ^ LENGTH('b)"
  by (simp add: unsigned_ucast_eq unsigned_take_bit_eq take_bit_eq_mod)

lemma unat_of_nat_mod: "unat (of_nat n :: 'b::len word) = n mod 2 ^ LENGTH('b)"
  by (simp add: unsigned_of_nat take_bit_eq_mod)

lemma word_eq_unat: "(a :: 'a::len word) = b \<longleftrightarrow> unat a = unat b"
  by (rule word_unat_eq_iff)

lemma unat_lt_64: "unat (x :: u64) < 18446744073709551616"
  using unsigned_less [of x] by simp

section \<open>Alignment\<close>

text \<open>
  \<open>align_up\<close> and \<open>align_down\<close> occur with this text in mem.c, heap.c (as align_up_uint), elf.c,
  hal.c and mmu.c.
\<close>

definition align_up :: "u64 \<Rightarrow> u64 \<Rightarrow> u64" where
  "align_up v a = (v + a - 1) AND NOT (a - 1)"

definition align_down :: "u64 \<Rightarrow> u64 \<Rightarrow> u64" where
  "align_down v a = v AND NOT (a - 1)"

lemma and_not_mask_drop:
  fixes w :: "'a::len word"
  shows "w AND NOT (mask n) = push_bit n (drop_bit n w)"
  by (rule bit_word_eqI) (auto simp: bit_simps)

lemma unat_and_not_mask:
  fixes w :: u64
  shows "unat (w AND NOT (mask n)) = unat w div 2 ^ n * 2 ^ n"
proof -
  have b: "unat w div 2 ^ n * 2 ^ n < 2 ^ 64"
    by (rule le_less_trans [OF div_times_less_eq_dividend]) (simp add: unat_lt_64)
  have "unat (w AND NOT (mask n)) = unat (push_bit n (drop_bit n w))"
    by (simp add: and_not_mask_drop)
  also have "\<dots> = take_bit 64 (push_bit n (drop_bit n (unat w)))"
    by (simp add: unsigned_push_bit_eq unsigned_drop_bit_eq take_bit_nat_eq_self unat_lt_64)
  also have "\<dots> = unat w div 2 ^ n * 2 ^ n"
    using b by (simp add: push_bit_eq_mult drop_bit_eq_div take_bit_eq_mod)
  finally show ?thesis .
qed

lemma exp_minus_1_mask: "(2 ^ n - 1 :: 'a::len word) = mask n"
  by (simp add: mask_eq_decr_exp)

lemma unat_mask: "n \<le> LENGTH('a) \<Longrightarrow> unat (mask n :: 'a::len word) = 2 ^ n - 1"
proof -
  assume n: "n \<le> LENGTH('a)"
  then have "uint (mask n :: 'a word) = mask n"
    by (simp add: uint_mask_eq min_def)
  also have "\<dots> = int (2 ^ n - 1)"
    by (simp add: mask_eq_exp_minus_1 of_nat_diff)
  finally have "int (unat (mask n :: 'a word)) = int (2 ^ n - 1)"
    by simp
  then show ?thesis by (simp only: of_nat_eq_iff)
qed

lemma unat_exp: "n < LENGTH('a) \<Longrightarrow> unat (2 ^ n :: 'a::len word) = 2 ^ n"
proof -
  assume n: "n < LENGTH('a)"
  have "unat (of_nat (2 ^ n) :: 'a word) = 2 ^ n"
    by (rule unat_of_nat_small) (simp add: n)
  then show ?thesis by simp
qed

lemma unat_align_down:
  "unat (align_down v (2 ^ n)) = unat v div 2 ^ n * 2 ^ n"
  by (simp add: align_down_def exp_minus_1_mask unat_and_not_mask)

lemma unat_align_up:
  assumes n: "n < 64" and nw: "unat v + 2 ^ n - 1 < 2 ^ 64"
  shows "unat (align_up v (2 ^ n)) = (unat v + 2 ^ n - 1) div 2 ^ n * 2 ^ n"
proof -
  have e: "v + 2 ^ n - 1 = v + mask n"
    by (simp add: exp_minus_1_mask [symmetric])
  have m: "unat (mask n :: u64) = 2 ^ n - 1"
    using n by (simp add: unat_mask)
  have "unat (v + mask n) = unat v + (2 ^ n - 1)"
    using nw by (subst unat_add_no_wrap) (simp_all add: m)
  then have u: "unat (v + mask n) = unat v + 2 ^ n - 1"
    by simp
  show ?thesis
    by (simp only: align_up_def e exp_minus_1_mask unat_and_not_mask u)
qed

lemma align_up_facts:
  assumes n: "n < 64" and nw: "unat v + 2 ^ n - 1 < 2 ^ 64"
  shows "unat v \<le> unat (align_up v (2 ^ n))"
    and "unat (align_up v (2 ^ n)) < unat v + 2 ^ n"
    and "unat (align_up v (2 ^ n)) mod 2 ^ n = 0"
proof -
  let ?a = "2 ^ n :: nat"
  have p: "0 < ?a" by simp
  have d: "(unat v + ?a - 1) div ?a * ?a + (unat v + ?a - 1) mod ?a = unat v + ?a - 1"
    by (rule div_mult_mod_eq)
  have m: "(unat v + ?a - 1) mod ?a < ?a" by simp
  show "unat v \<le> unat (align_up v (2 ^ n))"
    unfolding unat_align_up [OF n nw] using d m p by linarith
  show "unat (align_up v (2 ^ n)) < unat v + 2 ^ n"
    unfolding unat_align_up [OF n nw] using d p by linarith
  show "unat (align_up v (2 ^ n)) mod 2 ^ n = 0"
    unfolding unat_align_up [OF n nw] by simp
qed

lemma align_down_facts:
  shows "unat (align_down v (2 ^ n)) \<le> unat v"
    and "unat v < unat (align_down v (2 ^ n)) + 2 ^ n"
    and "unat (align_down v (2 ^ n)) mod 2 ^ n = 0"
proof -
  have d: "unat v div 2 ^ n * 2 ^ n + unat v mod 2 ^ n = unat v"
    by (rule div_mult_mod_eq)
  have m: "unat v mod 2 ^ n < 2 ^ n" by simp
  show "unat (align_down v (2 ^ n)) \<le> unat v"
    unfolding unat_align_down using d by linarith
  show "unat v < unat (align_down v (2 ^ n)) + 2 ^ n"
    unfolding unat_align_down using d m by linarith
  show "unat (align_down v (2 ^ n)) mod 2 ^ n = 0"
    unfolding unat_align_down by simp
qed

section \<open>Linked lists\<close>

text \<open>
  \<open>chain nx p xs\<close>: following next pointers from \<open>p\<close> visits exactly \<open>xs\<close> and then reaches
  NULL (\<open>None\<close>). \<open>seg nx p xs q\<close>: it visits \<open>xs\<close> and then stands at \<open>q\<close>.
\<close>

fun chain :: "('p \<Rightarrow> 'p option) \<Rightarrow> 'p option \<Rightarrow> 'p list \<Rightarrow> bool" where
  "chain nx p [] \<longleftrightarrow> p = None"
| "chain nx p (x # xs) \<longleftrightarrow> p = Some x \<and> chain nx (nx x) xs"

fun seg :: "('p \<Rightarrow> 'p option) \<Rightarrow> 'p option \<Rightarrow> 'p list \<Rightarrow> 'p option \<Rightarrow> bool" where
  "seg nx p [] q \<longleftrightarrow> p = q"
| "seg nx p (x # xs) q \<longleftrightarrow> p = Some x \<and> seg nx (nx x) xs q"

lemma chain_None [simp, chain_simps]: "chain nx None xs \<longleftrightarrow> xs = []"
  by (cases xs) auto

lemma chain_Some [chain_simps]:
  "chain nx (Some x) xs \<longleftrightarrow> (\<exists>ys. xs = x # ys \<and> chain nx (nx x) ys)"
  by (cases xs) auto

lemma chain_seg: "chain nx p xs \<longleftrightarrow> seg nx p xs None"
  by (induction xs arbitrary: p) auto

lemma seg_append [chain_simps]:
  "seg nx p (xs @ ys) q \<longleftrightarrow> (\<exists>r. seg nx p xs r \<and> seg nx r ys q)"
  by (induction xs arbitrary: p) auto

lemma chain_append [chain_simps]:
  "chain nx p (xs @ ys) \<longleftrightarrow> (\<exists>r. seg nx p xs r \<and> chain nx r ys)"
  by (induction xs arbitrary: p) auto

lemma seg_cong: "(\<And>x. x \<in> set xs \<Longrightarrow> nx x = nx' x) \<Longrightarrow> seg nx p xs q \<longleftrightarrow> seg nx' p xs q"
  by (induction xs arbitrary: p) auto

lemma chain_cong: "(\<And>x. x \<in> set xs \<Longrightarrow> nx x = nx' x) \<Longrightarrow> chain nx p xs \<longleftrightarrow> chain nx' p xs"
  by (induction xs arbitrary: p) auto

lemma chain_unique: "chain nx p xs \<Longrightarrow> chain nx p ys \<Longrightarrow> xs = ys"
proof (induction xs arbitrary: p ys)
  case Nil
  then show ?case by simp
next
  case (Cons x xs)
  then show ?case by (auto simp: chain_Some)
qed

lemma chain_tail_notin: "chain nx (nx x) xs \<Longrightarrow> x \<notin> set xs"
proof
  assume c: "chain nx (nx x) xs" and "x \<in> set xs"
  then obtain as bs where xs: "xs = as @ x # bs"
    by (meson split_list)
  from c have "chain nx (nx x) bs"
    by (auto simp: xs chain_append chain_Some)
  with c have "bs = xs" by (rule chain_unique [symmetric])
  with xs show False by simp
qed

lemma chain_distinct: "chain nx p xs \<Longrightarrow> distinct xs"
  by (induction xs arbitrary: p) (auto dest: chain_tail_notin)

text \<open>
  The walk \<open>while (p && !P(p)) p = p->next\<close>. On a cyclic list it does not return, so its value
  is an option; on a chain it returns what a search of the list returns.
\<close>

partial_function (option) walk_find ::
    "('p \<Rightarrow> 'p option) \<Rightarrow> ('p \<Rightarrow> bool) \<Rightarrow> 'p option \<Rightarrow> 'p option option" where
  "walk_find nx P p =
     (case p of
        None \<Rightarrow> Some None
      | Some x \<Rightarrow> if P x then Some (Some x) else walk_find nx P (nx x))"

declare walk_find.simps [code]

lemma walk_find_None [simp]: "walk_find nx P None = Some None"
  by (simp add: walk_find.simps)

lemma walk_find_Some:
  "walk_find nx P (Some x) = (if P x then Some (Some x) else walk_find nx P (nx x))"
  by (subst walk_find.simps) simp

lemma walk_find_chain: "chain nx p xs \<Longrightarrow> walk_find nx P p = Some (List.find P xs)"
  by (induction xs arbitrary: p) (auto simp: walk_find_Some)

text \<open>
  The same walk keeping the node before the current one, \<open>prev = p; p = p->next\<close>: it ends at the
  first node satisfying \<open>P\<close> with its predecessor.
\<close>

partial_function (option) walk_prev ::
    "('p \<Rightarrow> 'p option) \<Rightarrow> ('p \<Rightarrow> bool) \<Rightarrow> 'p option \<Rightarrow> 'p option \<Rightarrow> ('p option \<times> 'p option) option" where
  "walk_prev nx P prev p =
     (case p of
        None \<Rightarrow> Some (prev, None)
      | Some x \<Rightarrow> if P x then Some (prev, Some x) else walk_prev nx P (Some x) (nx x))"

declare walk_prev.simps [code]

lemma walk_prev_None [simp]: "walk_prev nx P prev None = Some (prev, None)"
  by (simp add: walk_prev.simps)

lemma walk_prev_Some:
  "walk_prev nx P prev (Some x) = (if P x then Some (prev, Some x) else walk_prev nx P (Some x) (nx x))"
  by (subst walk_prev.simps) simp

definition last_opt :: "'p option \<Rightarrow> 'p list \<Rightarrow> 'p option" where
  "last_opt d xs = (if xs = [] then d else Some (last xs))"

definition hd_opt :: "'p list \<Rightarrow> 'p option" where
  "hd_opt xs = (case xs of [] \<Rightarrow> None | x # _ \<Rightarrow> Some x)"

lemma walk_prev_chain:
  "chain nx p xs \<Longrightarrow> walk_prev nx P prev p =
     Some (last_opt prev (takeWhile (\<lambda>x. \<not> P x) xs), hd_opt (dropWhile (\<lambda>x. \<not> P x) xs))"
proof (induction xs arbitrary: p prev)
  case (Cons x xs)
  then show ?case
    by (cases "takeWhile (\<lambda>x. \<not> P x) xs") (auto simp: walk_prev_Some last_opt_def hd_opt_def)
qed (simp add: last_opt_def hd_opt_def)

section \<open>Surgery on chains\<close>

lemma chain_head: "chain nx p xs \<Longrightarrow> p = hd_opt xs"
  by (cases xs) (simp_all add: hd_opt_def)

lemma seg_relink:
  assumes s: "seg nx p A r" and d: "distinct A" and ne: "A \<noteq> []"
    and l: "nx' (last A) = r'" and o: "\<forall>y\<in>set A. y \<noteq> last A \<longrightarrow> nx' y = nx y"
  shows "seg nx' p A r'"
proof -
  obtain A' q where A: "A = A' @ [q]" using ne by (metis append_butlast_last_id)
  have "q \<notin> set A'" using d by (simp add: A)
  then have "seg nx' p A' t \<longleftrightarrow> seg nx p A' t" for t
    using o by (intro seg_cong) (auto simp: A)
  then show ?thesis using s l by (auto simp: A seg_append)
qed

lemma chain_insert:
  assumes c: "chain nx p (A @ B)" and x: "x \<notin> set (A @ B)" "nx' x = hd_opt B"
    and l: "A \<noteq> [] \<Longrightarrow> nx' (last A) = Some x"
    and o: "\<forall>y\<in>set (A @ B). A = [] \<or> y \<noteq> last A \<longrightarrow> nx' y = nx y"
  shows "chain nx' (if A = [] then Some x else p) (A @ x # B)"
proof -
  from c obtain r where r: "seg nx p A r" "chain nx r B" by (auto simp: chain_append)
  have d: "distinct (A @ B)" by (rule chain_distinct [OF c])
  have lB: "A = [] \<or> y \<noteq> last A" if "y \<in> set B" for y
    using d that by (cases A rule: rev_cases) auto
  have "chain nx' r B \<longleftrightarrow> chain nx r B"
    by (rule chain_cong) (use o lB in auto)
  then have B: "chain nx' (hd_opt B) B" using r(2) chain_head by metis
  show ?thesis
  proof (cases "A = []")
    case False
    have "seg nx' p A (Some x)"
      by (rule seg_relink [OF r(1)]) (use d False l o in auto)
    then show ?thesis using False B x(2) by (auto simp: chain_append)
  qed (use B x(2) in simp)
qed

lemma chain_delete:
  assumes c: "chain nx p (A @ x # B)" and l: "A \<noteq> [] \<Longrightarrow> nx' (last A) = hd_opt B"
    and o: "\<forall>y\<in>set (A @ B). A = [] \<or> y \<noteq> last A \<longrightarrow> nx' y = nx y"
  shows "chain nx' (if A = [] then hd_opt B else p) (A @ B)"
proof -
  from c obtain r where r: "seg nx p A (Some x)" "chain nx (nx x) B" by (auto simp: chain_append)
  have d: "distinct (A @ x # B)" by (rule chain_distinct [OF c])
  have lB: "A = [] \<or> y \<noteq> last A" if "y \<in> set B" for y
    using d that by (cases A rule: rev_cases) auto
  have "chain nx' (nx x) B \<longleftrightarrow> chain nx (nx x) B"
    by (rule chain_cong) (use o lB in auto)
  then have B: "chain nx' (hd_opt B) B" using r(2) chain_head by metis
  show ?thesis
  proof (cases "A = []")
    case False
    have "seg nx' p A (hd_opt B)"
      by (rule seg_relink [OF r(1)]) (use d False l o in auto)
    then show ?thesis using False B by (auto simp: chain_append)
  qed (use B in simp)
qed

section \<open>Byte memory and little-endian words\<close>

text \<open>A multi-byte load or store of the code is a little-endian access to consecutive bytes of a
  byte-addressed memory; addresses wrap at the word size.\<close>

fun rd_bytes :: "(u64 \<Rightarrow> u8) \<Rightarrow> u64 \<Rightarrow> nat \<Rightarrow> u8 list" where
  "rd_bytes m a 0 = []"
| "rd_bytes m a (Suc k) = m a # rd_bytes m (a + 1) k"

fun wr_bytes :: "(u64 \<Rightarrow> u8) \<Rightarrow> u64 \<Rightarrow> u8 list \<Rightarrow> (u64 \<Rightarrow> u8)" where
  "wr_bytes m a [] = m"
| "wr_bytes m a (b # bs) = wr_bytes (m(a := b)) (a + 1) bs"

fun le_word :: "u8 list \<Rightarrow> u64" where
  "le_word [] = 0"
| "le_word (b # bs) = ucast b OR push_bit 8 (le_word bs)"

fun le_bytes :: "nat \<Rightarrow> u64 \<Rightarrow> u8 list" where
  "le_bytes 0 v = []"
| "le_bytes (Suc k) v = ucast v # le_bytes k (drop_bit 8 v)"

definition rd64 :: "(u64 \<Rightarrow> u8) \<Rightarrow> u64 \<Rightarrow> u64" where
  "rd64 m a = le_word (rd_bytes m a 8)"

definition wr64 :: "(u64 \<Rightarrow> u8) \<Rightarrow> u64 \<Rightarrow> u64 \<Rightarrow> (u64 \<Rightarrow> u8)" where
  "wr64 m a v = wr_bytes m a (le_bytes 8 v)"

definition rd32 :: "(u64 \<Rightarrow> u8) \<Rightarrow> u64 \<Rightarrow> u32" where
  "rd32 m a = ucast (le_word (rd_bytes m a 4))"

definition rd16 :: "(u64 \<Rightarrow> u8) \<Rightarrow> u64 \<Rightarrow> u16" where
  "rd16 m a = ucast (le_word (rd_bytes m a 2))"

lemma length_rd_bytes [simp]: "length (rd_bytes m a k) = k"
  by (induction k arbitrary: a) simp_all

lemma length_le_bytes [simp]: "length (le_bytes k v) = k"
  by (induction k arbitrary: v) simp_all

lemma le_word_bytes: "le_word (le_bytes k v) = take_bit (8 * k) v"
proof (induction k arbitrary: v)
  case (Suc k)
  show ?case
    by (rule bit_word_eqI) (auto simp: Suc bit_simps)
qed simp

lemma wr_bytes_other:
  assumes "\<forall>i<length bs. x \<noteq> a + of_nat i"
  shows "wr_bytes m a bs x = m x"
  using assms
proof (induction bs arbitrary: m a)
  case (Cons b bs)
  have "x \<noteq> a" using Cons.prems by (auto dest!: spec [of _ 0])
  moreover have "x \<noteq> a + 1 + of_nat i" if "i < length bs" for i
    using Cons.prems [rule_format, of "Suc i"] that by (simp add: algebra_simps)
  ultimately show ?case using Cons.IH by simp
qed simp

lemma wr_bytes_outside:
  assumes "unat a + length bs \<le> 2 ^ 64" "unat x < unat a \<or> unat a + length bs \<le> unat x"
  shows "wr_bytes m a bs x = m x"
proof (rule wr_bytes_other, intro allI impI)
  fix i assume i: "i < length bs"
  then have "unat (of_nat i :: u64) = i" using assms(1) by (intro unat_of_nat_small) simp
  then have "unat (a + of_nat i) = unat a + i"
    using assms(1) i by (subst unat_add_no_wrap) simp_all
  then show "x \<noteq> a + of_nat i" using assms(2) i by auto
qed

lemma rd_wr_bytes:
  assumes "length bs < 2 ^ 64"
  shows "rd_bytes (wr_bytes m a bs) a (length bs) = bs"
  using assms
proof (induction bs arbitrary: m a)
  case (Cons b bs)
  have "wr_bytes (m(a := b)) (a + 1) bs a = (m(a := b)) a"
  proof (rule wr_bytes_other, intro allI impI)
    fix i assume i: "i < length bs"
    have "unat (of_nat (Suc i) :: u64) = Suc i" using i Cons.prems by (intro unat_of_nat_small) simp
    then have "(of_nat (Suc i) :: u64) \<noteq> 0" by (metis nat.distinct(1) unat_0)
    then show "a \<noteq> a + 1 + of_nat i" by (simp add: add.assoc)
  qed
  with Cons show ?case by simp
qed simp

lemma rd_bytes_cong:
  assumes "\<forall>i<k. m (a + of_nat i) = m' (a + of_nat i)"
  shows "rd_bytes m a k = rd_bytes m' a k"
  using assms
proof (induction k arbitrary: a)
  case (Suc k)
  have "m a = m' a" using Suc.prems by (auto dest!: spec [of _ 0])
  moreover have "m (a + 1 + of_nat i) = m' (a + 1 + of_nat i)" if "i < k" for i
    using Suc.prems [rule_format, of "Suc i"] that by (simp add: algebra_simps)
  ultimately show ?case using Suc.IH by simp
qed simp

lemma rd_bytes_outside:
  assumes "unat a + length bs \<le> 2 ^ 64" "unat c + k \<le> 2 ^ 64"
    and "unat c + k \<le> unat a \<or> unat a + length bs \<le> unat c"
  shows "rd_bytes (wr_bytes m a bs) c k = rd_bytes m c k"
proof (rule rd_bytes_cong, intro allI impI)
  fix i assume i: "i < k"
  have "unat (of_nat i :: u64) = i" using assms(2) i by (intro unat_of_nat_small) simp
  then have "unat (c + of_nat i) = unat c + i"
    using assms(2) i by (subst unat_add_no_wrap) simp_all
  then show "wr_bytes m a bs (c + of_nat i) = m (c + of_nat i)"
    using assms i by (intro wr_bytes_outside) auto
qed

lemma wr_bytes_eval:
  assumes "unat a + length bs \<le> 2 ^ 64"
  shows "wr_bytes m a bs x = (if unat a \<le> unat x \<and> unat x < unat a + length bs then bs ! (unat x - unat a) else m x)"
proof (cases "unat a \<le> unat x \<and> unat x < unat a + length bs")
  case False
  then show ?thesis using wr_bytes_outside [OF assms] by auto
next
  case True
  have "wr_bytes m a bs x = bs ! (unat x - unat a)"
    using assms True
  proof (induction bs arbitrary: m a)
    case (Cons b bs)
    show ?case
    proof (cases "unat x = unat a")
      case True
      then have "x = a" by (simp add: word_eq_unat)
      moreover have "wr_bytes (m(a := b)) (a + 1) bs a = (m(a := b)) a"
      proof (cases "unat a + 1 < 2 ^ 64")
        case True
        then have "unat (a + 1) = unat a + 1" by (subst unat_add_no_wrap) simp_all
        then show ?thesis using Cons.prems(1) by (intro wr_bytes_outside) simp_all
      next
        case False
        moreover have "unat a + 1 + length bs \<le> 2 ^ 64" using Cons.prems(1) by simp
        ultimately have "length bs = 0" by linarith
        then show ?thesis by simp
      qed
      ultimately show ?thesis by simp
    next
      case False
      then have "unat a + 1 < 2 ^ 64" using Cons.prems unat_lt_64 [of x] by simp
      then have u: "unat (a + 1) = unat a + 1" by (subst unat_add_no_wrap) simp_all
      have "wr_bytes (m(a := b)) (a + 1) bs x = bs ! (unat x - unat (a + 1))"
        using Cons.prems False u by (intro Cons.IH) simp_all
      moreover have "unat x - unat a = Suc (unat x - unat (a + 1))" using u Cons.prems(2) False by linarith
      ultimately show ?thesis by simp
    qed
  qed auto
  with True show ?thesis by simp
qed

lemma rd64_wr64 [simp]: "rd64 (wr64 m a v) a = v"
proof -
  have "rd_bytes (wr_bytes m a (le_bytes 8 v)) a 8 = le_bytes 8 v"
    using rd_wr_bytes [of "le_bytes 8 v" m a] by simp
  then show ?thesis
    by (simp add: rd64_def wr64_def le_word_bytes take_bit_word_eq_self)
qed

lemma rd64_wr64_other:
  assumes "unat a + 8 \<le> 2 ^ 64" "unat b + 8 \<le> 2 ^ 64" "unat a + 8 \<le> unat b \<or> unat b + 8 \<le> unat a"
  shows "rd64 (wr64 m a v) b = rd64 m b"
  using rd_bytes_outside [of a "le_bytes 8 v" b 8 m] assms by (auto simp: rd64_def wr64_def)

end
