(* ===== verification/Pmm.thy ===== *)
theory Pmm
  imports Neptune_Prelude
begin

text \<open>
  The physical memory manager, kernel/mem.c: memory regions, each with a bitmap of its pages
  kept in physical memory, page allocation with a roving cursor, runs of contiguous pages, and
  freeing with the checks that panic. Every operation holds \<open>pmm_lock\<close> from its first to its
  last access, so each is one step on the state. Physical memory is a function from addresses
  to bytes; the bitmap of a region is the bytes from \<open>bitmap_phys\<close> on. The code reaches them
  through the linear window (\<open>phys_to_virt\<close>), which adds a constant to the physical address, so
  the model addresses them directly; that the window is mapped is part of the boot code.
\<close>

section \<open>State\<close>

record pmm_region =
  phys_start :: u64
  phys_end :: u64
  bitmap_phys :: u64
  bitmap_bytes :: u64
  total_pages :: u64
  reserved_pages :: u64

record pmm =
  regions :: "pmm_region list"
  managed_pages :: u64
  pmm_reserved_pages :: u64
  used_pages :: u64
  max_phys_end :: u64
  pmm_cursor_region :: u32
  pmm_cursor_page_idx :: u64
  pmem :: "u64 \<Rightarrow> u8"

definition META_REGION_LIMIT :: u64 where "META_REGION_LIMIT = 1073741824"

definition MAX_PMM_REGIONS :: nat where "MAX_PMM_REGIONS = 32"

section \<open>The bitmap\<close>

definition set_bit_bm :: "(u64 \<Rightarrow> u8) \<Rightarrow> pmm_region \<Rightarrow> u64 \<Rightarrow> (u64 \<Rightarrow> u8)" where
  "set_bit_bm m region idx =
     (let a = bitmap_phys region + idx div 8
      in m(a := m a OR push_bit (unat (idx mod 8)) 1))"

definition clear_bit_bm :: "(u64 \<Rightarrow> u8) \<Rightarrow> pmm_region \<Rightarrow> u64 \<Rightarrow> (u64 \<Rightarrow> u8)" where
  "clear_bit_bm m region idx =
     (let a = bitmap_phys region + idx div 8
      in m(a := m a AND NOT (push_bit (unat (idx mod 8)) 1)))"

definition test_bit_bm :: "(u64 \<Rightarrow> u8) \<Rightarrow> pmm_region \<Rightarrow> u64 \<Rightarrow> bool" where
  "test_bit_bm m region idx =
     (drop_bit (unat (idx mod 8)) (m (bitmap_phys region + idx div 8)) AND 1 \<noteq> 0)"

section \<open>Regions and metadata\<close>

definition pmm_add_region :: "u64 \<Rightarrow> u64 \<Rightarrow> pmm \<Rightarrow> pmm run" where
  "pmm_add_region start endp s =
     (if length (regions s) \<ge> MAX_PMM_REGIONS
      then Panic ''Too many memory regions'' (of_nat (length (regions s)))
      else if start \<ge> endp then Ret s
      else Ret (s\<lparr>regions := regions s @
             [\<lparr>phys_start = start, phys_end = endp, bitmap_phys = 0, bitmap_bytes = 0,
               total_pages = (endp - start) div 4096, reserved_pages = 0\<rparr>]\<rparr>))"

text \<open>The four passes of \<open>setup_bitmaps\<close> over the region table.\<close>

definition region_bitmap_bytes :: "pmm_region \<Rightarrow> u64" where
  "region_bitmap_bytes region = align_up (total_pages region) 8 div 8"

fun total_bitmap_bytes :: "pmm_region list \<Rightarrow> u64 \<Rightarrow> u64" where
  "total_bitmap_bytes [] acc = acc"
| "total_bitmap_bytes (region # rs) acc =
     (if total_pages region = 0 then total_bitmap_bytes rs acc
      else total_bitmap_bytes rs (acc + region_bitmap_bytes region))"

fun select_meta :: "u64 \<Rightarrow> pmm_region list \<Rightarrow> nat \<Rightarrow> (nat \<times> pmm_region) option \<Rightarrow>
    (nat \<times> pmm_region) option" where
  "select_meta need [] i meta = meta"
| "select_meta need (region # rs) i meta =
     (if total_pages region = 0 then select_meta need rs (Suc i) meta
      else if phys_start region \<ge> META_REGION_LIMIT then select_meta need rs (Suc i) meta
      else if phys_end region - align_up (phys_start region) 4096 < need
      then select_meta need rs (Suc i) meta
      else select_meta need rs (Suc i)
        (case meta of
           None \<Rightarrow> Some (i, region)
         | Some (j, m) \<Rightarrow> if phys_start region < phys_start m then Some (i, region) else meta))"

definition zero_bytes :: "(u64 \<Rightarrow> u8) \<Rightarrow> u64 \<Rightarrow> u64 \<Rightarrow> (u64 \<Rightarrow> u8)" where
  "zero_bytes m a n = foldl (\<lambda>m b. m(a + of_nat b := 0)) m [0..<unat n]"

fun place_bitmaps :: "pmm_region list \<Rightarrow> u64 \<Rightarrow> (u64 \<Rightarrow> u8) \<Rightarrow>
    pmm_region list \<times> u64 \<times> (u64 \<Rightarrow> u8)" where
  "place_bitmaps [] cursor m = ([], cursor, m)"
| "place_bitmaps (region # rs) cursor m =
     (if total_pages region = 0
      then (case place_bitmaps rs cursor m of (rs', c', m') \<Rightarrow> (region # rs', c', m'))
      else
        (let bytes = region_bitmap_bytes region;
             region' = region\<lparr>bitmap_phys := cursor, bitmap_bytes := bytes, reserved_pages := 0\<rparr>
         in case place_bitmaps rs (cursor + bytes) (zero_bytes m cursor bytes) of
              (rs', c', m') \<Rightarrow> (region' # rs', c', m')))"

definition mark_reserved :: "pmm_region \<Rightarrow> (u64 \<Rightarrow> u8) \<Rightarrow> (u64 \<Rightarrow> u8)" where
  "mark_reserved region m =
     foldl (\<lambda>m page. set_bit_bm m region (of_nat page)) m [0..<unat (reserved_pages region)]"

fun account_regions :: "pmm_region list \<Rightarrow> pmm \<Rightarrow> pmm" where
  "account_regions [] s = s"
| "account_regions (region # rs) s =
     (if total_pages region = 0 then account_regions rs s
      else account_regions rs
        (s\<lparr>pmem := mark_reserved region (pmem s),
           pmm_reserved_pages := pmm_reserved_pages s + reserved_pages region,
           used_pages := used_pages s + reserved_pages region,
           managed_pages := managed_pages s + (total_pages region - reserved_pages region)\<rparr>))"

definition setup_bitmaps :: "pmm \<Rightarrow> pmm run" where
  "setup_bitmaps s =
     (let need = total_bitmap_bytes (regions s) 0
      in case select_meta need (regions s) 0 None of
           None \<Rightarrow> Panic ''No low memory for allocator metadata'' need
         | Some (mi, meta) \<Rightarrow>
             (let cursor = align_up (phys_start meta) 4096
              in if cursor + need > phys_end meta
                 then Panic ''Insufficient low memory for allocator metadata'' need
                 else
                   (case place_bitmaps (regions s) cursor (pmem s) of (rs, c, m) \<Rightarrow>
                     (let bytes = align_up (c - phys_start meta) 4096;
                          rs' = rs[mi := (rs ! mi)\<lparr>reserved_pages := bytes div 4096\<rparr>];
                          s' = account_regions rs'
                                 (s\<lparr>regions := rs', pmem := m, managed_pages := 0,
                                    pmm_reserved_pages := 0, used_pages := 0\<rparr>)
                      in if managed_pages s' = 0
                         then Panic ''No allocatable memory after metadata reservation'' 0
                         else Ret s'))))"

definition find_region :: "pmm \<Rightarrow> u64 \<Rightarrow> nat option" where
  "find_region s addr =
     List.find (\<lambda>i. let region = regions s ! i
                in total_pages region \<noteq> 0 \<and> addr \<ge> phys_start region \<and> addr < phys_end region)
       [0..<length (regions s)]"

section \<open>Allocation\<close>

definition page_addr :: "pmm_region \<Rightarrow> nat \<Rightarrow> u64" where
  "page_addr region page = phys_start region + of_nat page * 4096"

definition page_free :: "pmm \<Rightarrow> nat \<Rightarrow> nat \<Rightarrow> bool" where
  "page_free s r page = (\<not> test_bit_bm (pmem s) (regions s ! r) (of_nat page))"

definition take_page :: "pmm \<Rightarrow> nat \<Rightarrow> nat \<Rightarrow> u64 \<times> pmm" where
  "take_page s r page =
     (page_addr (regions s ! r) page,
      s\<lparr>pmem := set_bit_bm (pmem s) (regions s ! r) (of_nat page),
        used_pages := used_pages s + 1,
        pmm_cursor_region := of_nat r,
        pmm_cursor_page_idx := of_nat page + 1\<rparr>)"

text \<open>The body of the region loop of \<open>pmm_alloc_page\<close> for region \<open>r\<close>.\<close>

definition alloc_in_region :: "pmm \<Rightarrow> nat \<Rightarrow> (u64 \<times> pmm) option" where
  "alloc_in_region s r =
     (let region = regions s ! r;
          start_r = unat (pmm_cursor_region s);
          start_p = pmm_cursor_page_idx s
      in if total_pages region \<le> reserved_pages region then None
         else
           (let p0 = (if r = start_r then start_p else reserved_pages region);
                p_current = (if p0 \<ge> total_pages region \<or> p0 < reserved_pages region
                             then reserved_pages region else p0)
            in case List.find (page_free s r) [unat p_current ..< unat (total_pages region)] of
                 Some page \<Rightarrow> Some (take_page s r page)
               | None \<Rightarrow>
                   if r = start_r \<and> p_current > reserved_pages region
                   then map_option (take_page s r)
                          (List.find (page_free s r)
                             [unat (reserved_pages region) ..< unat p_current])
                   else None))"

definition pmm_alloc_page :: "pmm \<Rightarrow> (u64 \<times> pmm) run" where
  "pmm_alloc_page s =
     (let n = length (regions s);
          start_r = pmm_cursor_region s
      in case first_some (\<lambda>i. alloc_in_region s (unat (start_r + of_nat i) mod n)) [0..<n] of
           Some res \<Rightarrow> Ret res
         | None \<Rightarrow> Panic ''Out of physical memory'' 0)"

text \<open>The scan for \<open>n\<close> consecutive clear bits, with the variables \<open>consecutive\<close> and
  \<open>start_run\<close> of the code.\<close>

fun scan_run :: "(nat \<Rightarrow> bool) \<Rightarrow> nat \<Rightarrow> nat list \<Rightarrow> nat \<Rightarrow> nat \<Rightarrow> nat option" where
  "scan_run free n [] consecutive start_run = None"
| "scan_run free n (page # ps) consecutive start_run =
     (if free page
      then (let start' = (if consecutive = 0 then page else start_run);
                cons' = consecutive + 1
            in if cons' = n then Some start' else scan_run free n ps cons' start')
      else scan_run free n ps 0 start_run)"

definition take_run :: "pmm \<Rightarrow> nat \<Rightarrow> u64 \<Rightarrow> nat \<Rightarrow> u64 \<times> pmm" where
  "take_run s r n start_run =
     (page_addr (regions s ! r) start_run,
      s\<lparr>pmem := foldl (\<lambda>m k. set_bit_bm m (regions s ! r) (of_nat (start_run + k)))
                 (pmem s) [0..<unat n],
        used_pages := used_pages s + n\<rparr>)"

definition alloc_run_in_region :: "pmm \<Rightarrow> u64 \<Rightarrow> nat \<Rightarrow> (u64 \<times> pmm) option" where
  "alloc_run_in_region s n r =
     (let region = regions s ! r
      in if total_pages region \<le> reserved_pages region + n then None
         else map_option (take_run s r n)
                (scan_run (page_free s r) (unat n)
                   [unat (reserved_pages region) ..< unat (total_pages region)] 0 0))"

definition pmm_alloc_pages :: "u64 \<Rightarrow> pmm \<Rightarrow> (u64 \<times> pmm) run" where
  "pmm_alloc_pages n s =
     (if n = 0 then Ret (0, s)
      else if n = 1 then pmm_alloc_page s
      else case first_some (alloc_run_in_region s n) [0..<length (regions s)] of
             Some res \<Rightarrow> Ret res
           | None \<Rightarrow> Panic ''Out of contiguous physical memory'' n)"

definition pmm_free_page :: "u64 \<Rightarrow> pmm \<Rightarrow> pmm run" where
  "pmm_free_page addr s =
     (case find_region s addr of
        None \<Rightarrow> Panic ''Attempt to free non-managed page'' addr
      | Some r \<Rightarrow>
          (let region = regions s ! r;
               idx = (addr - phys_start region) div 4096
           in if idx \<ge> total_pages region
              then Panic ''Attempt to free outside region bounds'' addr
              else if idx < reserved_pages region
              then Panic ''Attempt to free allocator metadata page'' addr
              else if \<not> test_bit_bm (pmem s) region idx
              then Panic ''Double free detected'' addr
              else Ret (s\<lparr>pmem := clear_bit_bm (pmem s) region idx,
                          used_pages := used_pages s - 1\<rparr>)))"

definition pmm_total_bytes :: "pmm \<Rightarrow> u64" where
  "pmm_total_bytes s = managed_pages s * 4096"

definition pmm_used_bytes :: "pmm \<Rightarrow> u64" where
  "pmm_used_bytes s = used_pages s * 4096"

definition pmm_max_phys_addr :: "pmm \<Rightarrow> u64" where
  "pmm_max_phys_addr s = max_phys_end s"

section \<open>Invariant and abstraction\<close>

text \<open>The bytes a region's bitmap occupies, the bytes of one of its pages, and its extent.\<close>

definition bm_range :: "pmm_region \<Rightarrow> nat set" where
  "bm_range region =
     (if total_pages region = 0 then {}
      else {unat (bitmap_phys region) ..< unat (bitmap_phys region) + unat (bitmap_bytes region)})"

definition page_range :: "pmm_region \<Rightarrow> nat \<Rightarrow> nat set" where
  "page_range region page =
     {unat (phys_start region) + 4096 * page ..< unat (phys_start region) + 4096 * Suc page}"

definition region_range :: "pmm_region \<Rightarrow> nat set" where
  "region_range region = {unat (phys_start region) ..< unat (phys_end region)}"

definition region_ok :: "pmm_region \<Rightarrow> bool" where
  "region_ok region \<longleftrightarrow>
     phys_start region < phys_end region \<and>
     4096 dvd unat (phys_start region) \<and>
     total_pages region = (phys_end region - phys_start region) div 4096 \<and>
     reserved_pages region \<le> total_pages region \<and>
     (total_pages region \<noteq> 0 \<longrightarrow>
        unat (bitmap_phys region) + unat (bitmap_bytes region) \<le> 2 ^ 64 \<and>
        unat (total_pages region) \<le> 8 * unat (bitmap_bytes region))"

definition pages_used :: "(u64 \<Rightarrow> u8) \<Rightarrow> pmm_region \<Rightarrow> nat set" where
  "pages_used m region = {p. p < unat (total_pages region) \<and> test_bit_bm m region (of_nat p)}"

definition pmm_inv :: "pmm \<Rightarrow> bool" where
  "pmm_inv s \<longleftrightarrow>
     length (regions s) \<le> MAX_PMM_REGIONS \<and>
     unat (pmm_cursor_region s) < MAX_PMM_REGIONS \<and>
     (\<forall>r\<in>set (regions s). region_ok r) \<and>
     (\<forall>i<length (regions s). \<forall>j<length (regions s). i \<noteq> j \<longrightarrow>
        region_range (regions s ! i) \<inter> region_range (regions s ! j) = {} \<and>
        bm_range (regions s ! i) \<inter> bm_range (regions s ! j) = {}) \<and>
     (\<forall>r\<in>set (regions s). \<forall>r'\<in>set (regions s). \<forall>p.
        unat (reserved_pages r) \<le> p \<and> p < unat (total_pages r) \<longrightarrow>
        page_range r p \<inter> bm_range r' = {}) \<and>
     unat (used_pages s) =
       (\<Sum>i<length (regions s). card (pages_used (pmem s) (regions s ! i)))"

text \<open>
  The abstract allocator is a set of page addresses: all pages that may be handed out, and
  those of them that are available now.
\<close>

definition usable :: "pmm \<Rightarrow> (nat \<times> nat) set" where
  "usable s = {(r, p). r < length (regions s) \<and> unat (reserved_pages (regions s ! r)) \<le> p \<and>
                 p < unat (total_pages (regions s ! r))}"

definition pmm_pages :: "pmm \<Rightarrow> u64 set" where
  "pmm_pages s = (\<lambda>(r, p). page_addr (regions s ! r) p) ` usable s"

definition pmm_avail :: "pmm \<Rightarrow> u64 set" where
  "pmm_avail s =
     (\<lambda>(r, p). page_addr (regions s ! r) p) ` {(r, p) \<in> usable s. page_free s r p}"

section \<open>Bit-level lemmas\<close>

lemma test_bit_bm_iff:
  "test_bit_bm m region idx \<longleftrightarrow> bit (m (bitmap_phys region + idx div 8)) (unat (idx mod 8))"
  by (simp add: test_bit_bm_def and_one_eq odd_iff_mod_2_eq_one [symmetric] bit_iff_odd_drop_bit)

lemma region_total_bound:
  assumes "region_ok region"
  shows "unat (total_pages region) < 2 ^ 52"
proof -
  have "unat (total_pages region) = unat (phys_end region - phys_start region) div 4096"
    using assms by (simp add: region_ok_def unat_div)
  then show ?thesis
    using unat_lt_64 [of "phys_end region - phys_start region"]
    by (simp add: less_mult_imp_div_less)
qed

lemma page_word:
  assumes "region_ok region" "p < unat (total_pages region)"
  shows "unat (of_nat p :: u64) = p"
  using region_total_bound [OF assms(1)] assms(2) by (intro unat_of_nat_small) simp

lemma bm_addr:
  assumes ok: "region_ok region" and p: "p < unat (total_pages region)"
  shows "unat (bitmap_phys region + of_nat p div 8) = unat (bitmap_phys region) + p div 8"
    and "unat (bitmap_phys region + of_nat p div 8) \<in> bm_range region"
proof -
  have nz: "total_pages region \<noteq> 0" using p by auto
  have u: "unat (of_nat p div 8 :: u64) = p div 8"
    by (simp add: unat_div page_word [OF ok p])
  have lim: "unat (bitmap_phys region) + unat (bitmap_bytes region) \<le> 2 ^ 64"
    and cov: "unat (total_pages region) \<le> 8 * unat (bitmap_bytes region)"
    using ok nz unfolding region_ok_def by blast+
  have lt: "p div 8 < unat (bitmap_bytes region)"
    using cov p by linarith
  show e: "unat (bitmap_phys region + of_nat p div 8) = unat (bitmap_phys region) + p div 8"
    using lim lt by (subst unat_add_no_wrap) (simp_all add: u)
  show "unat (bitmap_phys region + of_nat p div 8) \<in> bm_range region"
    using nz lt by (simp add: bm_range_def e)
qed

lemma bm_bit_index:
  assumes "region_ok region" "p < unat (total_pages region)"
  shows "unat ((of_nat p :: u64) mod 8) = p mod 8"
  by (simp add: unat_mod page_word [OF assms])

text \<open>Updating a bit changes that page's bit and no other, in its region or any other.\<close>

lemma bm_update_same_region:
  assumes ok: "region_ok region" and p: "p < unat (total_pages region)"
    and q: "q < unat (total_pages region)"
  shows "test_bit_bm (set_bit_bm m region (of_nat p)) region (of_nat q) \<longleftrightarrow>
           q = p \<or> test_bit_bm m region (of_nat q)"
    and "test_bit_bm (clear_bit_bm m region (of_nat p)) region (of_nat q) \<longleftrightarrow>
           q \<noteq> p \<and> test_bit_bm m region (of_nat q)"
proof -
  have a: "(of_nat q div 8 :: u64) = of_nat p div 8 \<longleftrightarrow> q div 8 = p div 8"
    by (simp add: word_eq_unat unat_div page_word [OF ok p] page_word [OF ok q])
  have qp: "q = p \<longleftrightarrow> q div 8 = p div 8 \<and> q mod 8 = p mod 8"
    by (metis div_mult_mod_eq)
  note b = bm_bit_index [OF ok p] bm_bit_index [OF ok q]
  have l: "p mod 8 < 8" "q mod 8 < 8" by simp_all
  show "test_bit_bm (set_bit_bm m region (of_nat p)) region (of_nat q) \<longleftrightarrow>
           q = p \<or> test_bit_bm m region (of_nat q)"
    using l a by (cases "q div 8 = p div 8")
      (auto simp: test_bit_bm_iff set_bit_bm_def Let_def b qp bit_simps)
  show "test_bit_bm (clear_bit_bm m region (of_nat p)) region (of_nat q) \<longleftrightarrow>
           q \<noteq> p \<and> test_bit_bm m region (of_nat q)"
    using l a by (cases "q div 8 = p div 8")
      (auto simp: test_bit_bm_iff clear_bit_bm_def Let_def b qp bit_simps)
qed

lemma bm_update_other_region:
  assumes ok: "region_ok r" "region_ok r'"
    and p: "p < unat (total_pages r)" and q: "q < unat (total_pages r')"
    and d: "bm_range r \<inter> bm_range r' = {}"
  shows "test_bit_bm (set_bit_bm m r (of_nat p)) r' (of_nat q) = test_bit_bm m r' (of_nat q)"
    and "test_bit_bm (clear_bit_bm m r (of_nat p)) r' (of_nat q) = test_bit_bm m r' (of_nat q)"
proof -
  have "unat (bitmap_phys r' + of_nat q div 8) \<noteq> unat (bitmap_phys r + of_nat p div 8)"
    using bm_addr(2) [OF ok(1) p] bm_addr(2) [OF ok(2) q] d by auto
  then have a: "bitmap_phys r' + of_nat q div 8 \<noteq> bitmap_phys r + of_nat p div 8"
    by auto
  then show "test_bit_bm (set_bit_bm m r (of_nat p)) r' (of_nat q) = test_bit_bm m r' (of_nat q)"
    and "test_bit_bm (clear_bit_bm m r (of_nat p)) r' (of_nat q) = test_bit_bm m r' (of_nat q)"
    by (simp_all add: test_bit_bm_def set_bit_bm_def clear_bit_bm_def Let_def)
qed

lemma bm_update_frame:
  assumes ok: "region_ok r" and p: "p < unat (total_pages r)" and a: "unat a \<notin> bm_range r"
  shows "set_bit_bm m r (of_nat p) a = m a" and "clear_bit_bm m r (of_nat p) a = m a"
proof -
  have "a \<noteq> bitmap_phys r + of_nat p div 8"
    using bm_addr(2) [OF ok p] a by auto
  then show "set_bit_bm m r (of_nat p) a = m a" and "clear_bit_bm m r (of_nat p) a = m a"
    by (simp_all add: set_bit_bm_def clear_bit_bm_def Let_def)
qed

section \<open>Consequences of the invariant\<close>

lemma pmm_inv_region: "pmm_inv s \<Longrightarrow> r < length (regions s) \<Longrightarrow> region_ok (regions s ! r)"
  by (simp add: pmm_inv_def)

lemma usable_region:
  "pmm_inv s \<Longrightarrow> (r, p) \<in> usable s \<Longrightarrow>
     r < length (regions s) \<and> region_ok (regions s ! r) \<and> p < unat (total_pages (regions s ! r))"
  by (simp add: usable_def pmm_inv_region)

lemma usable_facts:
  assumes "pmm_inv s" "(r, p) \<in> usable s"
  shows "region_ok (regions s ! r)" "r < length (regions s)" "p < unat (total_pages (regions s ! r))"
  using usable_region [OF assms] by simp_all

lemma region_extent:
  assumes "region_ok region"
  shows "unat (phys_start region) + 4096 * unat (total_pages region) \<le> unat (phys_end region)"
    and "unat (phys_end region) < unat (phys_start region) + 4096 * Suc (unat (total_pages region))"
proof -
  have lt: "phys_start region < phys_end region"
    and t: "total_pages region = (phys_end region - phys_start region) div 4096"
    using assms by (simp_all add: region_ok_def)
  have d: "unat (phys_end region - phys_start region) =
      unat (phys_end region) - unat (phys_start region)"
    using lt by (intro unat_sub_no_wrap) simp
  have tu: "unat (total_pages region) = (unat (phys_end region) - unat (phys_start region)) div 4096"
    by (simp add: t unat_div d)
  have l: "unat (phys_start region) < unat (phys_end region)"
    using lt by (simp add: word_less_nat_alt)
  show "unat (phys_start region) + 4096 * unat (total_pages region) \<le> unat (phys_end region)"
    unfolding tu using l by linarith
  show "unat (phys_end region) < unat (phys_start region) + 4096 * Suc (unat (total_pages region))"
    unfolding tu
    using l dividend_less_div_times [of 4096 "unat (phys_end region) - unat (phys_start region)"]
    by simp
qed

lemma unat_page_addr:
  assumes ok: "region_ok region" and p: "p < unat (total_pages region)"
  shows "unat (page_addr region p) = unat (phys_start region) + 4096 * p"
proof -
  have e: "unat (phys_start region) + 4096 * p < unat (phys_end region)"
    using region_extent(1) [OF ok] p by linarith
  then have l: "unat (phys_start region) + 4096 * p < 2 ^ 64"
    using unat_lt_64 [of "phys_end region"] by simp
  have "unat (of_nat p * 4096 :: u64) = p * 4096"
    using l by (subst unat_mult_no_wrap) (simp_all add: page_word [OF ok p])
  with l show ?thesis
    unfolding page_addr_def by (subst unat_add_no_wrap) simp_all
qed

lemma page_range_in_region:
  assumes ok: "region_ok region" and p: "p < unat (total_pages region)"
  shows "page_range region p \<subseteq> region_range region"
  using region_extent(1) [OF ok] p by (auto simp: page_range_def region_range_def)

lemma page_addr_inj:
  assumes inv: "pmm_inv s" and 1: "(r, p) \<in> usable s" and 2: "(r', p') \<in> usable s"
    and eq: "page_addr (regions s ! r) p = page_addr (regions s ! r') p'"
  shows "r = r' \<and> p = p'"
proof -
  note a = usable_region [OF inv 1]
  note b = usable_region [OF inv 2]
  have u: "unat (phys_start (regions s ! r)) + 4096 * p = unat (phys_start (regions s ! r')) + 4096 * p'"
    using arg_cong [OF eq, of unat] unat_page_addr a b by simp
  have "unat (phys_start (regions s ! r)) + 4096 * p \<in> region_range (regions s ! r)"
    using page_range_in_region [of "regions s ! r" p] a by (auto simp: page_range_def)
  moreover have "unat (phys_start (regions s ! r)) + 4096 * p \<in> region_range (regions s ! r')"
    using page_range_in_region [of "regions s ! r'" p'] b by (auto simp: page_range_def u)
  ultimately have "r = r'"
    using inv a b by (auto simp: pmm_inv_def)
  with u show ?thesis by simp
qed

lemma pages_used_finite [simp]: "finite (pages_used m region)"
  by (simp add: pages_used_def)

lemma pages_used_bound: "card (pages_used m region) \<le> unat (total_pages region)"
proof -
  have "card (pages_used m region) \<le> card {..<unat (total_pages region)}"
    by (rule card_mono) (auto simp: pages_used_def)
  then show ?thesis by simp
qed

lemma used_total_bound:
  assumes "pmm_inv s"
  shows "(\<Sum>i<length (regions s). unat (total_pages (regions s ! i))) \<le> 32 * 2 ^ 52"
proof -
  have "(\<Sum>i<length (regions s). unat (total_pages (regions s ! i)))
      \<le> (\<Sum>i<length (regions s). 2 ^ 52)"
    using assms by (intro sum_mono less_imp_le region_total_bound) (simp add: pmm_inv_region)
  also have "\<dots> \<le> 32 * 2 ^ 52"
    using assms by (simp add: pmm_inv_def MAX_PMM_REGIONS_def)
  finally show ?thesis .
qed

lemma pages_used_set_other:
  assumes inv: "pmm_inv s" and r: "r < length (regions s)" and p: "p < unat (total_pages (regions s ! r))"
    and j: "j < length (regions s)" "j \<noteq> r"
  shows "pages_used (set_bit_bm m (regions s ! r) (of_nat p)) (regions s ! j) =
           pages_used m (regions s ! j)"
    and "pages_used (clear_bit_bm m (regions s ! r) (of_nat p)) (regions s ! j) =
           pages_used m (regions s ! j)"
proof -
  have d: "bm_range (regions s ! r) \<inter> bm_range (regions s ! j) = {}"
    using inv r j unfolding pmm_inv_def by metis
  note u = bm_update_other_region [OF pmm_inv_region [OF inv r] pmm_inv_region [OF inv j(1)] p _ d]
  show "pages_used (set_bit_bm m (regions s ! r) (of_nat p)) (regions s ! j) =
           pages_used m (regions s ! j)"
    and "pages_used (clear_bit_bm m (regions s ! r) (of_nat p)) (regions s ! j) =
           pages_used m (regions s ! j)"
    by (auto simp: pages_used_def u)
qed

lemma pages_used_set_same:
  assumes "region_ok region" "p < unat (total_pages region)"
  shows "pages_used (set_bit_bm m region (of_nat p)) region = insert p (pages_used m region)"
    and "pages_used (clear_bit_bm m region (of_nat p)) region = pages_used m region - {p}"
  using assms by (auto simp: pages_used_def bm_update_same_region)

text \<open>The number of set bits over all regions after one bit is set or cleared.\<close>

lemma used_count_set:
  assumes inv: "pmm_inv s" and r: "r < length (regions s)" and p: "p < unat (total_pages (regions s ! r))"
    and clear: "\<not> test_bit_bm m (regions s ! r) (of_nat p)"
  shows "(\<Sum>i<length (regions s).
            card (pages_used (set_bit_bm m (regions s ! r) (of_nat p)) (regions s ! i))) =
         Suc (\<Sum>i<length (regions s). card (pages_used m (regions s ! i)))" (is "?l = Suc ?r")
proof -
  let ?I = "{..<length (regions s)}"
  have i: "r \<in> ?I" using r by simp
  have "?l = card (pages_used (set_bit_bm m (regions s ! r) (of_nat p)) (regions s ! r)) +
      (\<Sum>i\<in>?I - {r}. card (pages_used (set_bit_bm m (regions s ! r) (of_nat p)) (regions s ! i)))"
    using i by (intro sum.remove) auto
  also have "(\<Sum>i\<in>?I - {r}. card (pages_used (set_bit_bm m (regions s ! r) (of_nat p)) (regions s ! i)))
      = (\<Sum>i\<in>?I - {r}. card (pages_used m (regions s ! i)))"
    by (intro sum.cong refl) (simp add: pages_used_set_other(1) [OF inv r p])
  also have "card (pages_used (set_bit_bm m (regions s ! r) (of_nat p)) (regions s ! r)) =
      Suc (card (pages_used m (regions s ! r)))"
    using clear by (simp add: pages_used_set_same(1) [OF pmm_inv_region [OF inv r] p])
      (simp add: pages_used_def)
  also have "Suc (card (pages_used m (regions s ! r))) +
      (\<Sum>i\<in>?I - {r}. card (pages_used m (regions s ! i))) = Suc ?r"
    using sum.remove [OF _ i, of "\<lambda>i. card (pages_used m (regions s ! i))"] by simp
  finally show ?thesis .
qed

lemma used_count_clear:
  assumes inv: "pmm_inv s" and r: "r < length (regions s)" and p: "p < unat (total_pages (regions s ! r))"
    and set: "test_bit_bm m (regions s ! r) (of_nat p)"
  shows "Suc (\<Sum>i<length (regions s).
            card (pages_used (clear_bit_bm m (regions s ! r) (of_nat p)) (regions s ! i))) =
         (\<Sum>i<length (regions s). card (pages_used m (regions s ! i)))"
proof -
  let ?m = "clear_bit_bm m (regions s ! r) (of_nat p)"
  note ok = pmm_inv_region [OF inv r]
  have c: "\<not> test_bit_bm ?m (regions s ! r) (of_nat p)"
    by (simp add: bm_update_same_region(2) [OF ok p p])
  have "pages_used (set_bit_bm ?m (regions s ! r) (of_nat p)) (regions s ! i) =
      pages_used m (regions s ! i)" if "i < length (regions s)" for i
  proof (cases "i = r")
    case True
    with set p show ?thesis
      by (simp add: pages_used_set_same [OF ok p] insert_absorb) (simp add: pages_used_def insert_absorb)
  next
    case False
    then show ?thesis
      by (simp add: pages_used_set_other [OF inv r p that])
  qed
  then show ?thesis
    using used_count_set [OF inv r p c] by simp
qed

section \<open>Setting and clearing one page\<close>

lemma used_pages_bound:
  assumes "pmm_inv s" shows "unat (used_pages s) \<le> 32 * 2 ^ 52"
proof -
  have "unat (used_pages s) \<le> (\<Sum>i<length (regions s). unat (total_pages (regions s ! i)))"
    using assms by (simp add: pmm_inv_def sum_mono pages_used_bound)
  also have "\<dots> \<le> 32 * 2 ^ 52"
    by (rule used_total_bound [OF assms])
  finally show ?thesis .
qed

lemma set_page_inv:
  assumes inv: "pmm_inv s" and r: "r < length (regions s)"
    and p: "p < unat (total_pages (regions s ! r))"
    and clear: "\<not> test_bit_bm (pmem s) (regions s ! r) (of_nat p)"
    and s': "regions s' = regions s" "pmem s' = set_bit_bm (pmem s) (regions s ! r) (of_nat p)"
      "used_pages s' = used_pages s + 1" "unat (pmm_cursor_region s') < MAX_PMM_REGIONS"
  shows "pmm_inv s'" and "unat (used_pages s') = unat (used_pages s) + 1"
proof -
  have w: "unat (used_pages s + 1) = unat (used_pages s) + 1"
    using used_pages_bound [OF inv] by (subst unat_add_no_wrap) simp_all
  then show "unat (used_pages s') = unat (used_pages s) + 1"
    by (simp add: s')
  show "pmm_inv s'"
    using inv w used_count_set [OF inv r p clear] s'(4) unfolding pmm_inv_def s'(1-3) by simp
qed

lemma clear_page_inv:
  assumes inv: "pmm_inv s" and r: "r < length (regions s)"
    and p: "p < unat (total_pages (regions s ! r))"
    and set: "test_bit_bm (pmem s) (regions s ! r) (of_nat p)"
    and s': "regions s' = regions s" "pmem s' = clear_bit_bm (pmem s) (regions s ! r) (of_nat p)"
      "used_pages s' = used_pages s - 1" "pmm_cursor_region s' = pmm_cursor_region s"
  shows "pmm_inv s'" and "unat (used_pages s) = unat (used_pages s') + 1"
proof -
  have c: "unat (used_pages s) = (\<Sum>i<length (regions s). card (pages_used (pmem s) (regions s ! i)))"
    using inv by (simp add: pmm_inv_def)
  have w: "unat (used_pages s - 1) = unat (used_pages s) - 1"
    using used_count_clear [OF inv r p set]
    by (intro trans [OF unat_sub_no_wrap]) (simp_all add: word_le_nat_alt c)
  then show "unat (used_pages s) = unat (used_pages s') + 1"
    using used_count_clear [OF inv r p set] by (simp add: s' c)
  show "pmm_inv s'"
    using inv w used_count_clear [OF inv r p set] unfolding pmm_inv_def s' by simp
qed

lemma usable_cong: "regions s' = regions s \<Longrightarrow> usable s' = usable s"
  by (simp add: usable_def)

lemma page_free_set:
  assumes inv: "pmm_inv s" and rp: "(r, p) \<in> usable s" and rp': "(r', p') \<in> usable s"
    and s': "regions s' = regions s" "pmem s' = set_bit_bm (pmem s) (regions s ! r) (of_nat p)"
  shows "page_free s' r' p' \<longleftrightarrow> (r', p') \<noteq> (r, p) \<and> page_free s r' p'"
proof (cases "r' = r")
  case True
  with usable_region [OF inv rp] usable_region [OF inv rp'] show ?thesis
    by (auto simp: page_free_def s' bm_update_same_region)
next
  case False
  with inv usable_region [OF inv rp] usable_region [OF inv rp']
  have d: "bm_range (regions s ! r) \<inter> bm_range (regions s ! r') = {}"
    unfolding pmm_inv_def by metis
  with False usable_region [OF inv rp] usable_region [OF inv rp'] show ?thesis
    by (simp add: page_free_def s' bm_update_other_region)
qed

lemma page_free_clear:
  assumes inv: "pmm_inv s" and rp: "(r, p) \<in> usable s" and rp': "(r', p') \<in> usable s"
    and s': "regions s' = regions s" "pmem s' = clear_bit_bm (pmem s) (regions s ! r) (of_nat p)"
  shows "page_free s' r' p' \<longleftrightarrow> (r', p') = (r, p) \<or> page_free s r' p'"
proof (cases "r' = r")
  case True
  with usable_region [OF inv rp] usable_region [OF inv rp'] show ?thesis
    by (auto simp: page_free_def s' bm_update_same_region)
next
  case False
  with inv usable_region [OF inv rp] usable_region [OF inv rp']
  have d: "bm_range (regions s ! r) \<inter> bm_range (regions s ! r') = {}"
    unfolding pmm_inv_def by metis
  with False usable_region [OF inv rp] usable_region [OF inv rp'] show ?thesis
    by (simp add: page_free_def s' bm_update_other_region)
qed

lemma avail_set:
  assumes inv: "pmm_inv s" and rp: "(r, p) \<in> usable s"
    and s': "regions s' = regions s" "pmem s' = set_bit_bm (pmem s) (regions s ! r) (of_nat p)"
  shows "pmm_avail s' = pmm_avail s - {page_addr (regions s ! r) p}"
proof -
  have "{(r', p') \<in> usable s'. page_free s' r' p'} = {(r', p') \<in> usable s. page_free s r' p'} - {(r, p)}"
    by (auto simp: usable_cong [OF s'(1)] page_free_set [OF inv rp _ s'])
  then show ?thesis
    using page_addr_inj [OF inv _ rp] by (auto simp: pmm_avail_def s'(1) image_iff)
qed

lemma avail_clear:
  assumes inv: "pmm_inv s" and rp: "(r, p) \<in> usable s"
    and s': "regions s' = regions s" "pmem s' = clear_bit_bm (pmem s) (regions s ! r) (of_nat p)"
  shows "pmm_avail s' = insert (page_addr (regions s ! r) p) (pmm_avail s)"
proof -
  have "{(r', p') \<in> usable s'. page_free s' r' p'} = insert (r, p) {(r', p') \<in> usable s. page_free s r' p'}"
    using rp by (auto simp: usable_cong [OF s'(1)] page_free_clear [OF inv rp _ s'])
  then show ?thesis
    by (simp add: pmm_avail_def s'(1))
qed

lemma page_addr_avail:
  assumes inv: "pmm_inv s" and rp: "(r, p) \<in> usable s"
  shows "page_addr (regions s ! r) p \<in> pmm_avail s \<longleftrightarrow> page_free s r p"
  using page_addr_inj [OF inv rp] rp by (fastforce simp: pmm_avail_def)

lemma pages_cong: "regions s' = regions s \<Longrightarrow> pmm_pages s' = pmm_pages s"
  by (simp add: pmm_pages_def usable_def)

section \<open>Page allocation\<close>

lemma alloc_in_region_unfold:
  assumes t: "\<not> total_pages (regions s ! r) \<le> reserved_pages (regions s ! r)"
  obtains pc where "reserved_pages (regions s ! r) \<le> pc" "pc < total_pages (regions s ! r)"
    and "r \<noteq> unat (pmm_cursor_region s) \<longrightarrow> pc = reserved_pages (regions s ! r)"
    and "alloc_in_region s r =
      (case List.find (page_free s r) [unat pc ..< unat (total_pages (regions s ! r))] of
         Some page \<Rightarrow> Some (take_page s r page)
       | None \<Rightarrow> if r = unat (pmm_cursor_region s) \<and> pc > reserved_pages (regions s ! r)
           then map_option (take_page s r)
                  (List.find (page_free s r) [unat (reserved_pages (regions s ! r)) ..< unat pc])
           else None)"
proof -
  let ?g = "regions s ! r"
  define p0 where "p0 = (if r = unat (pmm_cursor_region s) then pmm_cursor_page_idx s
                         else reserved_pages ?g)"
  define pc where "pc = (if p0 \<ge> total_pages ?g \<or> p0 < reserved_pages ?g
                         then reserved_pages ?g else p0)"
  show thesis
  proof (rule that [of pc])
    show "reserved_pages ?g \<le> pc" "pc < total_pages ?g"
      using t by (simp_all add: pc_def not_le not_less)
    show "r \<noteq> unat (pmm_cursor_region s) \<longrightarrow> pc = reserved_pages ?g"
      by (simp add: pc_def p0_def)
  qed (simp only: alloc_in_region_def Let_def p0_def [symmetric] pc_def [symmetric] t if_False)
qed

lemma alloc_in_region_Some:
  assumes some: "alloc_in_region s r = Some res" and r: "r < length (regions s)"
  shows "\<exists>p. (r, p) \<in> usable s \<and> page_free s r p \<and> res = take_page s r p"
proof -
  let ?g = "regions s ! r"
  have t: "\<not> total_pages ?g \<le> reserved_pages ?g"
    using some by (auto simp: alloc_in_region_def Let_def)
  then obtain pc where pc: "reserved_pages ?g \<le> pc" "pc < total_pages ?g"
    and "r \<noteq> unat (pmm_cursor_region s) \<longrightarrow> pc = reserved_pages ?g"
    and e: "alloc_in_region s r =
      (case List.find (page_free s r) [unat pc ..< unat (total_pages ?g)] of
         Some page \<Rightarrow> Some (take_page s r page)
       | None \<Rightarrow> if r = unat (pmm_cursor_region s) \<and> pc > reserved_pages ?g
           then map_option (take_page s r)
                  (List.find (page_free s r) [unat (reserved_pages ?g) ..< unat pc])
           else None)"
    by (rule alloc_in_region_unfold)
  from some [unfolded e] obtain p lo hi where f: "List.find (page_free s r) [lo..<hi] = Some p"
    and res: "res = take_page s r p"
    and b: "unat (reserved_pages ?g) \<le> lo" "hi \<le> unat (total_pages ?g)"
    using pc by (auto simp: word_le_nat_alt word_less_nat_alt split: option.splits if_splits)
  from find_SomeD [OF f] b r have "(r, p) \<in> usable s" "page_free s r p"
    by (auto simp: usable_def)
  with res show ?thesis by blast
qed

lemma alloc_in_region_None:
  assumes none: "alloc_in_region s r = None" and rp: "(r, p) \<in> usable s"
  shows "\<not> page_free s r p"
proof
  assume free: "page_free s r p"
  let ?g = "regions s ! r"
  have lo: "unat (reserved_pages ?g) \<le> p" and hi: "p < unat (total_pages ?g)"
    using rp by (simp_all add: usable_def)
  then have "\<not> total_pages ?g \<le> reserved_pages ?g"
    by (simp add: word_le_nat_alt)
  then obtain pc where "reserved_pages ?g \<le> pc" "pc < total_pages ?g"
    and pc: "r \<noteq> unat (pmm_cursor_region s) \<longrightarrow> pc = reserved_pages ?g"
    and e: "alloc_in_region s r =
      (case List.find (page_free s r) [unat pc ..< unat (total_pages ?g)] of
         Some page \<Rightarrow> Some (take_page s r page)
       | None \<Rightarrow> if r = unat (pmm_cursor_region s) \<and> pc > reserved_pages ?g
           then map_option (take_page s r)
                  (List.find (page_free s r) [unat (reserved_pages ?g) ..< unat pc])
           else None)"
    by (rule alloc_in_region_unfold)
  have f1: "List.find (page_free s r) [unat pc ..< unat (total_pages ?g)] = None"
    using none [unfolded e] by (simp split: option.splits)
  then have lt: "p < unat pc"
    using free hi by (auto simp: find_None)
  with lo have gt: "pc > reserved_pages ?g"
    by (simp add: word_less_nat_alt)
  with pc have c: "(r = unat (pmm_cursor_region s) \<and> pc > reserved_pages ?g) = True"
    by auto
  have "List.find (page_free s r) [unat (reserved_pages ?g) ..< unat pc] = None"
    using none [unfolded e f1 c] by simp
  with lo lt free show False
    by (auto simp: find_None)
qed

lemma rotate_cover:
  assumes "j < (n::nat)" shows "\<exists>i<n. (k + i) mod n = j"
proof -
  let ?i = "(j + n - k mod n) mod n"
  have "(k + ?i) mod n = (k mod n + (j + n - k mod n)) mod n"
    by (simp add: mod_simps)
  also have "k mod n + (j + n - k mod n) = j + n"
    using assms by (simp add: less_imp_le trans_le_add2)
  finally have "(k + ?i) mod n = j"
    using assms by simp
  moreover have "?i < n" using assms by simp
  ultimately show ?thesis by blast
qed

lemma cursor_index:
  assumes inv: "pmm_inv s" and i: "i < length (regions s)"
  shows "unat (pmm_cursor_region s + of_nat i) mod length (regions s) =
           (unat (pmm_cursor_region s) + i) mod length (regions s)"
proof -
  have "unat (pmm_cursor_region s) < 32" "i < 32"
    using inv i by (simp_all add: pmm_inv_def MAX_PMM_REGIONS_def)
  then have "unat (pmm_cursor_region s + of_nat i) = unat (pmm_cursor_region s) + i"
    by (simp add: unat_word_ariths unat_of_nat take_bit_nat_eq_self)
  then show ?thesis by simp
qed

lemma pmm_alloc_page_cases:
  assumes inv: "pmm_inv s"
  shows "(\<exists>r p. pmm_alloc_page s = Ret (take_page s r p) \<and> (r, p) \<in> usable s \<and> page_free s r p) \<or>
         pmm_alloc_page s = Panic ''Out of physical memory'' 0 \<and>
         (\<forall>(r, p) \<in> usable s. \<not> page_free s r p)"
proof -
  let ?n = "length (regions s)"
  let ?f = "\<lambda>i. alloc_in_region s (unat (pmm_cursor_region s + of_nat i) mod ?n)"
  show ?thesis
  proof (cases "first_some ?f [0..<?n]")
    case None
    have "\<not> page_free s r p" if rp: "(r, p) \<in> usable s" for r p
    proof -
      have "r < ?n" using rp by (simp add: usable_def)
      then obtain i where i: "i < ?n" "(unat (pmm_cursor_region s) + i) mod ?n = r"
        using rotate_cover by blast
      then have "?f i = None"
        using None by (simp only: first_some_None) simp
      then have "alloc_in_region s r = None"
        by (simp only: cursor_index [OF inv i(1)] i(2))
      then show ?thesis using rp by (rule alloc_in_region_None)
    qed
    then have "\<forall>(r, p) \<in> usable s. \<not> page_free s r p"
      by blast
    then show ?thesis
      unfolding pmm_alloc_page_def Let_def None by auto
  next
    case (Some res)
    from first_some_SomeD [OF this] obtain i where i: "i < ?n" "?f i = Some res"
      by auto
    have "unat (pmm_cursor_region s + of_nat i) mod ?n < ?n"
      using i(1) by (intro mod_less_divisor) (rule le_less_trans [OF le0])
    with i(2) obtain r p where "(r, p) \<in> usable s" "page_free s r p" "res = take_page s r p"
      using alloc_in_region_Some by blast
    then show ?thesis
      unfolding pmm_alloc_page_def Let_def Some by auto
  qed
qed

lemma usable_page_frame:
  assumes inv: "pmm_inv s" and b: "b \<in> pmm_pages s" and k: "k < 4096" and r': "r' < length (regions s)"
  shows "unat (b + k) \<notin> bm_range (regions s ! r')"
proof -
  from b obtain r p where rp: "(r, p) \<in> usable s" and b': "b = page_addr (regions s ! r) p"
    by (auto simp: pmm_pages_def)
  note ur = usable_facts [OF inv rp]
  have r: "r < length (regions s)" and lo: "unat (reserved_pages (regions s ! r)) \<le> p"
    using rp by (simp_all add: usable_def)
  have k': "unat k < 4096" using k by (simp add: word_less_nat_alt)
  have "unat b + 4096 \<le> unat (phys_end (regions s ! r))"
    using unat_page_addr [OF ur(1,3)] region_extent [OF ur(1)] ur(3) by (simp add: b')
  then have "unat (b + k) = unat b + unat k"
    using k' unat_lt_64 [of "phys_end (regions s ! r)"] by (intro unat_add_no_wrap) simp
  then have in_page: "unat (b + k) \<in> page_range (regions s ! r) p"
    using k' unat_page_addr [OF ur(1,3)] by (simp add: b' page_range_def)
  have "page_range (regions s ! r) p \<inter> bm_range (regions s ! r') = {}"
    using inv r r' lo ur(3) unfolding pmm_inv_def by (meson nth_mem)
  with in_page show ?thesis by blast
qed

lemma take_page_spec:
  assumes inv: "pmm_inv s" and rp: "(r, p) \<in> usable s" and free: "page_free s r p"
    and t: "take_page s r p = (a, s')"
  shows "a \<in> pmm_avail s" "pmm_avail s' = pmm_avail s - {a}" "pmm_pages s' = pmm_pages s"
    "pmm_inv s'" "unat (used_pages s') = unat (used_pages s) + 1"
    "b \<in> pmm_pages s \<Longrightarrow> k < 4096 \<Longrightarrow> pmem s' (b + k) = pmem s (b + k)"
proof -
  note ur = usable_facts [OF inv rp]
  have a: "a = page_addr (regions s ! r) p" and s': "regions s' = regions s"
      "pmem s' = set_bit_bm (pmem s) (regions s ! r) (of_nat p)"
      "used_pages s' = used_pages s + 1" "pmm_cursor_region s' = of_nat r"
    using t by (auto simp: take_page_def)
  have r: "r < length (regions s)" using rp by (simp add: usable_def)
  have clear: "\<not> test_bit_bm (pmem s) (regions s ! r) (of_nat p)"
    using free by (simp add: page_free_def)
  have "r < 32" using r inv by (simp add: pmm_inv_def MAX_PMM_REGIONS_def)
  then have cur: "unat (of_nat r :: u32) < MAX_PMM_REGIONS"
    by (simp add: MAX_PMM_REGIONS_def unat_of_nat take_bit_nat_eq_self)
  show "a \<in> pmm_avail s" using page_addr_avail [OF inv rp] free by (simp add: a)
  show "pmm_avail s' = pmm_avail s - {a}" using avail_set [OF inv rp s'(1,2)] by (simp add: a)
  show "pmm_pages s' = pmm_pages s" by (rule pages_cong [OF s'(1)])
  show "pmm_inv s'" "unat (used_pages s') = unat (used_pages s) + 1"
    using set_page_inv [OF inv r ur(3) clear s'(1-3)] cur by (simp_all add: s'(4))
  show "pmem s' (b + k) = pmem s (b + k)" if "b \<in> pmm_pages s" "k < 4096"
    using bm_update_frame(1) [OF ur(1,3) usable_page_frame [OF inv that r]] by (simp add: s'(2))
qed

section \<open>Freeing\<close>

lemma find_region_SomeD:
  assumes "find_region s addr = Some r"
  shows "r < length (regions s)" "total_pages (regions s ! r) \<noteq> 0"
    "phys_start (regions s ! r) \<le> addr" "addr < phys_end (regions s ! r)"
  using find_SomeD [OF assms [unfolded find_region_def]] by (simp_all add: Let_def)

lemma find_region_eq:
  assumes inv: "pmm_inv s" and r: "r < length (regions s)" "total_pages (regions s ! r) \<noteq> 0"
    and b: "phys_start (regions s ! r) \<le> addr" "addr < phys_end (regions s ! r)"
  shows "find_region s addr = Some r"
proof (cases "find_region s addr")
  case None
  with r b show ?thesis
    by (auto simp: find_region_def find_None Let_def)
next
  case (Some r')
  note f = find_region_SomeD [OF Some]
  have "unat addr \<in> region_range (regions s ! r) \<inter> region_range (regions s ! r')"
    using b f by (simp add: region_range_def word_le_nat_alt word_less_nat_alt)
  with inv r(1) f(1) have "r = r'"
    unfolding pmm_inv_def by (metis emptyE)
  with Some show ?thesis by simp
qed

lemma page_index:
  assumes ok: "region_ok g" and b: "phys_start g \<le> addr" and p: "p < unat (total_pages g)"
  shows "(addr - phys_start g) div 4096 = of_nat p \<longleftrightarrow> addr - page_addr g p < 4096"
proof -
  let ?d = "unat (addr - phys_start g)"
  have d: "?d = unat addr - unat (phys_start g)"
    using b by (rule unat_sub_no_wrap)
  have b': "unat (phys_start g) \<le> unat addr" using b by (simp add: word_le_nat_alt)
  have pa: "unat (page_addr g p) = unat (phys_start g) + 4096 * p"
    by (rule unat_page_addr [OF ok p])
  have pw: "unat (of_nat p :: u64) = p" by (rule page_word [OF ok p])
  have ext: "unat (page_addr g p) + 4096 \<le> unat (phys_end g)"
    using region_extent [OF ok] p pa by simp
  have "(addr - phys_start g) div 4096 = of_nat p \<longleftrightarrow> ?d div 4096 = p"
    by (simp add: word_eq_unat unat_div pw)
  also have "\<dots> \<longleftrightarrow> 4096 * p \<le> ?d \<and> ?d < 4096 * p + 4096"
    by (auto simp: div_nat_eqI)
  also have "\<dots> \<longleftrightarrow> addr - page_addr g p < 4096"
  proof (cases "page_addr g p \<le> addr")
    case True
    then have "unat (addr - page_addr g p) = unat addr - unat (page_addr g p)"
      by (rule unat_sub_no_wrap)
    with True show ?thesis
      using b' pa by (auto simp: d word_less_nat_alt word_le_nat_alt)
  next
    case False
    then have lt: "unat addr < unat (page_addr g p)" by (simp add: word_le_nat_alt)
    have "unat (addr - page_addr g p) = unat addr + 2 ^ 64 - unat (page_addr g p)"
      using lt by (simp add: unat_sub_if_size word_size)
    with lt ext unat_lt_64 [of "phys_end g"] have "\<not> addr - page_addr g p < 4096"
      by (simp add: word_less_nat_alt)
    with lt pa b' show ?thesis by (simp add: d)
  qed
  finally show ?thesis .
qed

lemma pmm_free_page_eq:
  assumes inv: "pmm_inv s" and rp: "(r, p) \<in> usable s"
    and addr: "addr - page_addr (regions s ! r) p < 4096"
  shows "pmm_free_page addr s =
    (if page_free s r p then Panic ''Double free detected'' addr
     else Ret (s\<lparr>pmem := clear_bit_bm (pmem s) (regions s ! r) (of_nat p),
                 used_pages := used_pages s - 1\<rparr>))"
proof -
  let ?g = "regions s ! r"
  note ur = usable_facts [OF inv rp]
  have pa: "unat (page_addr ?g p) = unat (phys_start ?g) + 4096 * p"
    by (rule unat_page_addr [OF ur(1,3)])
  have ext: "unat (page_addr ?g p) + 4096 \<le> unat (phys_end ?g)"
    using region_extent [OF ur(1)] ur(3) pa by simp
  have k: "unat (addr - page_addr ?g p) < 4096" using addr by (simp add: word_less_nat_alt)
  have "unat (page_addr ?g p + (addr - page_addr ?g p)) =
        unat (page_addr ?g p) + unat (addr - page_addr ?g p)"
    using k ext unat_lt_64 [of "phys_end ?g"] by (intro unat_add_no_wrap) simp
  then have a: "unat addr = unat (page_addr ?g p) + unat (addr - page_addr ?g p)" by simp
  have lo: "phys_start ?g \<le> addr" and hi: "addr < phys_end ?g"
    using a k pa ext by (simp_all add: word_le_nat_alt word_less_nat_alt)
  have t: "total_pages ?g \<noteq> 0" using ur(3) by auto
  have fr: "find_region s addr = Some r"
    by (rule find_region_eq [OF inv ur(2) t lo hi])
  have idx: "(addr - phys_start ?g) div 4096 = of_nat p"
    using page_index [OF ur(1) lo ur(3)] addr by simp
  have b: "\<not> of_nat p \<ge> total_pages ?g" "\<not> of_nat p < reserved_pages ?g"
    using rp page_word [OF ur(1,3)] by (auto simp: usable_def word_le_nat_alt word_less_nat_alt)
  show ?thesis
    by (simp add: pmm_free_page_def fr Let_def idx b page_free_def)
qed

lemma pmm_free_page_outside:
  assumes inv: "pmm_inv s" and out: "\<forall>a\<in>pmm_pages s. \<not> addr - a < 4096"
  shows "\<exists>msg. pmm_free_page addr s = Panic msg addr"
proof (cases "find_region s addr")
  case None
  then show ?thesis by (simp add: pmm_free_page_def)
next
  case (Some r)
  let ?g = "regions s ! r"
  let ?p = "unat ((addr - phys_start ?g) div 4096)"
  note f = find_region_SomeD [OF Some]
  have ok: "region_ok ?g" by (rule pmm_inv_region [OF inv f(1)])
  have "\<not> (reserved_pages ?g \<le> of_nat ?p \<and> ?p < unat (total_pages ?g))"
  proof
    assume c: "reserved_pages ?g \<le> of_nat ?p \<and> ?p < unat (total_pages ?g)"
    then have "(r, ?p) \<in> usable s" using f(1) by (simp add: usable_def word_le_nat_alt)
    then have "page_addr ?g ?p \<in> pmm_pages s" by (force simp: pmm_pages_def)
    moreover have "addr - page_addr ?g ?p < 4096"
      using page_index [OF ok f(3), of ?p] c by simp
    ultimately show False using out by blast
  qed
  then show ?thesis
    by (auto simp: pmm_free_page_def Some Let_def word_le_nat_alt word_less_nat_alt not_le)
qed

lemma pmm_free_page_ret:
  assumes inv: "pmm_inv s" and ret: "pmm_free_page addr s = Ret s'"
  obtains a where "a \<in> pmm_pages s" "a \<notin> pmm_avail s" "addr - a < 4096"
    "pmm_avail s' = insert a (pmm_avail s)" "pmm_pages s' = pmm_pages s" "pmm_inv s'"
    "unat (used_pages s) = unat (used_pages s') + 1"
    "\<forall>b\<in>pmm_pages s. \<forall>k<4096. pmem s' (b + k) = pmem s (b + k)"
proof -
  from pmm_free_page_outside [OF inv, of addr] ret
  obtain a where "a \<in> pmm_pages s" and k: "addr - a < 4096" by auto
  then obtain r p where rp: "(r, p) \<in> usable s" and a: "a = page_addr (regions s ! r) p"
    by (auto simp: pmm_pages_def)
  note ur = usable_facts [OF inv rp]
  from pmm_free_page_eq [OF inv rp k [unfolded a]] ret
  have nf: "\<not> page_free s r p" and s': "regions s' = regions s"
      "pmem s' = clear_bit_bm (pmem s) (regions s ! r) (of_nat p)"
      "used_pages s' = used_pages s - 1" "pmm_cursor_region s' = pmm_cursor_region s"
    by (auto split: if_splits)
  have set: "test_bit_bm (pmem s) (regions s ! r) (of_nat p)" using nf by (simp add: page_free_def)
  show thesis
  proof (rule that [of a])
    show "a \<in> pmm_pages s" by fact
    show "a \<notin> pmm_avail s" using page_addr_avail [OF inv rp] nf by (simp add: a)
    show "addr - a < 4096" by (rule k)
    show "pmm_avail s' = insert a (pmm_avail s)" using avail_clear [OF inv rp s'(1,2)] by (simp add: a)
    show "pmm_pages s' = pmm_pages s" by (rule pages_cong [OF s'(1)])
    show "pmm_inv s'" "unat (used_pages s) = unat (used_pages s') + 1"
      using clear_page_inv [OF inv ur(2,3) set s'] by simp_all
    show "\<forall>b\<in>pmm_pages s. \<forall>k<4096. pmem s' (b + k) = pmem s (b + k)"
      using bm_update_frame(2) [OF ur(1,3) usable_page_frame [OF inv _ _ ur(2)]] by (simp add: s'(2))
  qed
qed

lemma pmm_free_page_total:
  assumes inv: "pmm_inv s" and a: "a \<in> pmm_pages s" "a \<notin> pmm_avail s" "addr - a < 4096"
  shows "\<exists>s'. pmm_free_page addr s = Ret s'"
proof -
  from a(1) obtain r p where rp: "(r, p) \<in> usable s" and a': "a = page_addr (regions s ! r) p"
    by (auto simp: pmm_pages_def)
  have "\<not> page_free s r p" using page_addr_avail [OF inv rp] a(2) by (simp add: a')
  with pmm_free_page_eq [OF inv rp a(3) [unfolded a']] show ?thesis by simp
qed

section \<open>Runs of contiguous pages\<close>

lemma scan_run_Some:
  assumes "scan_run free n [i..<hi] c st = Some st'" "i \<le> hi" "c < n" "c \<le> i - lo" "lo \<le> i"
    "c > 0 \<Longrightarrow> st = i - c" "\<forall>j. i - c \<le> j \<and> j < i \<longrightarrow> free j"
  shows "lo \<le> st' \<and> st' + n \<le> hi \<and> (\<forall>k<n. free (st' + k))"
  using assms
proof (induction "[i..<hi]" arbitrary: i c st)
  case Nil
  then show ?case by simp
next
  case (Cons x xs)
  then have lt: "i < hi" by (metis le_neq_implies_less list.distinct(1) upt_rec)
  have x: "x = i" "xs = [Suc i..<hi]" using Cons(2) lt by (simp_all add: upt_rec [of i hi])
  have e: "[i..<hi] = i # [Suc i..<hi]" using lt by (simp add: upt_rec)
  show ?case
  proof (cases "free i")
    case True
    let ?st = "if c = 0 then i else st"
    have st: "?st = Suc i - Suc c" using Cons.prems by simp
    have all: "\<forall>j. Suc i - Suc c \<le> j \<and> j < Suc i \<longrightarrow> free j"
      using Cons.prems(7) True by (auto simp: less_Suc_eq)
    show ?thesis
    proof (cases "Suc c = n")
      case True
      then have "st' = ?st" using Cons.prems(1) \<open>free i\<close> by (simp add: e Let_def split: if_splits)
      then have st': "st' = i - c" "st' + n = Suc i" using st True Cons.prems by auto
      then have "free (st' + k)" if "k < n" for k using all that by auto
      then show ?thesis using st' lt Cons.prems by auto
    next
      case False
      have "scan_run free n [Suc i..<hi] (Suc c) ?st = Some st'"
        using Cons.prems(1) \<open>free i\<close> False by (simp add: e Let_def)
      from Cons.hyps(1) [OF x(2) this] show ?thesis
        using lt False Cons.prems st all by simp
    qed
  next
    case False
    then have "scan_run free n [Suc i..<hi] 0 st = Some st'" using Cons.prems(1) by (simp add: e)
    from Cons.hyps(1) [OF x(2) this] show ?thesis using lt Cons.prems by simp
  qed
qed

lemma scan_run_None:
  assumes "scan_run free n [i..<hi] c st = None" "i \<le> hi" "c < n" "lo + c \<le> i"
    "lo + c = i \<or> \<not> free (i - c - 1)"
    "\<forall>b. lo \<le> b \<and> b + n \<le> i \<longrightarrow> (\<exists>k<n. \<not> free (b + k))"
  shows "\<forall>b. lo \<le> b \<and> b + n \<le> hi \<longrightarrow> (\<exists>k<n. \<not> free (b + k))"
  using assms
proof (induction "[i..<hi]" arbitrary: i c st)
  case Nil
  then have "i = hi" by (metis le_neq_implies_less list.distinct(1) upt_rec)
  with Nil.prems show ?case by blast
next
  case (Cons x xs)
  then have lt: "i < hi" by (metis le_neq_implies_less list.distinct(1) upt_rec)
  have x: "x = i" "xs = [Suc i..<hi]" using Cons(2) lt by (simp_all add: upt_rec [of i hi])
  have e: "[i..<hi] = i # [Suc i..<hi]" using lt by (simp add: upt_rec)
  show ?case
  proof (cases "free i")
    case True
    have n: "Suc c < n" and r: "scan_run free n [Suc i..<hi] (Suc c) (if c = 0 then i else st) = None"
      using Cons.prems(1,3) True by (auto simp: e Let_def split: if_splits)
    have "\<exists>k<n. \<not> free (b + k)" if b: "lo \<le> b" "b + n \<le> Suc i" for b
    proof (cases "b + n \<le> i")
      case False
      then have "b + n = Suc i" using b by simp
      with n b Cons.prems(4,5) have "\<not> free (b + (i - c - 1 - b))" "i - c - 1 - b < n"
        by auto
      then show ?thesis by blast
    qed (use Cons.prems(6) b in blast)
    with Cons.hyps(1) [OF x(2) r] n lt Cons.prems(4,5) show ?thesis by simp
  next
    case False
    then have r: "scan_run free n [Suc i..<hi] 0 st = None" using Cons.prems(1) by (simp add: e)
    have "\<exists>k<n. \<not> free (b + k)" if b: "lo \<le> b" "b + n \<le> Suc i" for b
    proof (cases "b + n \<le> i")
      case nle: False
      then have "b + n = Suc i" using b by simp
      with Cons.prems(3) have "b + (n - 1) = i" "n - 1 < n" by simp_all
      with False show ?thesis by metis
    qed (use Cons.prems(6) b in blast)
    with Cons.hyps(1) [OF x(2) r] lt Cons.prems(3,4) False show ?thesis by simp
  qed
qed

lemma take_run_prefix:
  fixes s :: pmm
  defines "S \<equiv> \<lambda>r b j. s\<lparr>pmem := foldl (\<lambda>m k. set_bit_bm m (regions s ! r) (of_nat (b + k)))
                                (pmem s) [0..<j], used_pages := used_pages s + of_nat j\<rparr>"
  assumes inv: "pmm_inv s" and r: "r < length (regions s)"
    and lo: "unat (reserved_pages (regions s ! r)) \<le> b"
    and hi: "b + n \<le> unat (total_pages (regions s ! r))"
    and free: "\<forall>k<n. page_free s r (b + k)"
  shows "j \<le> n \<Longrightarrow> pmm_inv (S r b j) \<and>
    pmm_avail (S r b j) = pmm_avail s - (\<lambda>k. page_addr (regions s ! r) (b + k)) ` {..<j} \<and>
    unat (used_pages (S r b j)) = unat (used_pages s) + j \<and>
    (\<forall>k. j \<le> k \<and> k < n \<longrightarrow> page_free (S r b j) r (b + k)) \<and>
    (\<forall>c\<in>pmm_pages s. \<forall>k<4096. pmem (S r b j) (c + k) = pmem s (c + k))"
proof (induction j)
  case 0
  have "S r b 0 = s" by (simp add: S_def)
  then show ?case using inv free by simp
next
  case (Suc j)
  let ?s = "S r b j" and ?s' = "S r b (Suc j)"
  from Suc have IH: "pmm_inv ?s"
      "pmm_avail ?s = pmm_avail s - (\<lambda>k. page_addr (regions s ! r) (b + k)) ` {..<j}"
      "unat (used_pages ?s) = unat (used_pages s) + j"
      "\<forall>k. j \<le> k \<and> k < n \<longrightarrow> page_free ?s r (b + k)"
      "\<forall>c\<in>pmm_pages s. \<forall>k<4096. pmem ?s (c + k) = pmem s (c + k)"
    by auto
  have rg: "regions ?s = regions s" by (simp add: S_def)
  have us: "(r, b + k) \<in> usable ?s" if "k < n" for k
    using r lo hi that by (simp add: usable_def rg)
  have j: "j < n" using Suc.prems by simp
  note ur = usable_facts [OF IH(1) us [OF j]]
  have s': "regions ?s' = regions ?s"
      "pmem ?s' = set_bit_bm (pmem ?s) (regions ?s ! r) (of_nat (b + j))"
      "used_pages ?s' = used_pages ?s + 1"
    by (simp_all add: S_def)
  have cur: "unat (pmm_cursor_region ?s') < MAX_PMM_REGIONS"
    using inv by (simp add: S_def pmm_inv_def)
  have clear: "\<not> test_bit_bm (pmem ?s) (regions ?s ! r) (of_nat (b + j))"
    using IH(4) j by (simp add: page_free_def)
  note set = set_page_inv [OF IH(1) ur(2,3) clear s' cur]
  have av: "pmm_avail ?s' = pmm_avail ?s - {page_addr (regions s ! r) (b + j)}"
    using avail_set [OF IH(1) us [OF j] s'(1,2)] by (simp add: rg)
  have fr: "page_free ?s' r (b + k)" if "Suc j \<le> k" "k < n" for k
    using page_free_set [OF IH(1) us [OF j] us [OF that(2)] s'(1,2)] IH(4) that by simp
  have mem: "pmem ?s' (c + k) = pmem s (c + k)" if "c \<in> pmm_pages s" "k < 4096" for c k
    using bm_update_frame(1) [OF ur(1,3) usable_page_frame [OF IH(1) _ that(2) ur(2)]] that IH(5)
      pages_cong [OF rg] by (simp add: s'(2))
  show ?case
    using set av fr mem IH(2,3) by (auto simp: lessThan_Suc)
qed

lemma alloc_run_in_region_Some:
  assumes inv: "pmm_inv s" and r: "r < length (regions s)" and n: "n \<noteq> 0"
    and some: "alloc_run_in_region s n r = Some (a, s')"
  shows "(\<lambda>k. a + of_nat k * 4096) ` {..<unat n} \<subseteq> pmm_avail s"
    "pmm_avail s' = pmm_avail s - (\<lambda>k. a + of_nat k * 4096) ` {..<unat n}"
    "pmm_pages s' = pmm_pages s" "pmm_inv s'" "unat (used_pages s') = unat (used_pages s) + unat n"
    "\<forall>c\<in>pmm_pages s. \<forall>k<4096. pmem s' (c + k) = pmem s (c + k)"
proof -
  let ?g = "regions s ! r"
  have le: "unat (reserved_pages ?g) \<le> unat (total_pages ?g)"
    using pmm_inv_region [OF inv r] unfolding region_ok_def word_le_nat_alt by blast
  from some obtain b where sc: "scan_run (page_free s r) (unat n)
        [unat (reserved_pages ?g) ..< unat (total_pages ?g)] 0 0 = Some b"
    and t: "take_run s r n b = (a, s')"
    by (auto simp: alloc_run_in_region_def Let_def split: if_splits)
  have n0: "0 < unat n" using n by (simp add: unat_gt_0)
  have "unat (reserved_pages ?g) \<le> b \<and> b + unat n \<le> unat (total_pages ?g) \<and>
        (\<forall>k<unat n. page_free s r (b + k))"
    by (rule scan_run_Some [OF sc le n0]) auto
  then have b: "unat (reserved_pages ?g) \<le> b" "b + unat n \<le> unat (total_pages ?g)"
    "\<forall>k<unat n. page_free s r (b + k)"
    by simp_all
  have s': "s' = s\<lparr>pmem := foldl (\<lambda>m k. set_bit_bm m ?g (of_nat (b + k))) (pmem s) [0..<unat n],
                   used_pages := used_pages s + of_nat (unat n)\<rparr>"
    and a: "a = page_addr ?g b"
    using t by (auto simp: take_run_def)
  have addr: "a + of_nat k * 4096 = page_addr ?g (b + k)" for k
    by (simp add: a page_addr_def algebra_simps)
  show "(\<lambda>k. a + of_nat k * 4096) ` {..<unat n} \<subseteq> pmm_avail s"
  proof clarsimp
    fix k assume k: "k < unat n"
    then have "(r, b + k) \<in> usable s" using r b by (simp add: usable_def)
    from page_addr_avail [OF inv this] show "a + of_nat k * 4096 \<in> pmm_avail s"
      using b(3) k by (simp add: addr)
  qed
  show "pmm_pages s' = pmm_pages s" by (rule pages_cong) (simp add: s')
  show "pmm_avail s' = pmm_avail s - (\<lambda>k. a + of_nat k * 4096) ` {..<unat n}" "pmm_inv s'"
    "unat (used_pages s') = unat (used_pages s) + unat n"
    "\<forall>c\<in>pmm_pages s. \<forall>k<4096. pmem s' (c + k) = pmem s (c + k)"
    using take_run_prefix [OF inv r b, of "unat n"] by (simp_all add: s' addr)
qed

section \<open>Boot: the metadata layout\<close>

lemma zero_bytes_apply:
  assumes "unat a + unat n \<le> 2 ^ 64"
  shows "zero_bytes m a n x = (if unat a \<le> unat x \<and> unat x < unat a + unat n then 0 else m x)"
proof -
  have "foldl (\<lambda>m b. m(a + of_nat b := 0)) m [0..<j] x =
          (if unat a \<le> unat x \<and> unat x < unat a + j then 0 else m x)" if "j \<le> unat n" for j
    using that
  proof (induction j)
    case (Suc j)
    have "unat (of_nat j :: u64) = j"
      using Suc.prems unat_lt_64 [of n] by (intro unat_of_nat_small) simp
    then have "unat (a + of_nat j) = unat a + j"
      using Suc.prems assms by (subst unat_add_no_wrap) simp_all
    then have "x = a + of_nat j \<longleftrightarrow> unat x = unat a + j"
      by (auto simp: word_eq_unat)
    with Suc show ?case by auto
  qed auto
  from this [of "unat n"] show ?thesis by (simp add: zero_bytes_def)
qed

definition bm_need :: "pmm_region list \<Rightarrow> nat" where
  "bm_need rs = (\<Sum>r\<leftarrow>rs. if total_pages r = 0 then 0 else unat (region_bitmap_bytes r))"

lemma bm_need_simps [simp]:
  "bm_need [] = 0"
  "bm_need (r # rs) = (if total_pages r = 0 then 0 else unat (region_bitmap_bytes r)) + bm_need rs"
  by (simp_all add: bm_need_def)

lemma total_bitmap_bytes_need: "total_bitmap_bytes rs acc = acc + of_nat (bm_need rs)"
  by (induction rs arbitrary: acc) auto

lemma unat_region_bitmap_bytes:
  assumes "unat (total_pages g) < 2 ^ 52"
  shows "unat (region_bitmap_bytes g) = (unat (total_pages g) + 7) div 8"
proof -
  have "unat (align_up (total_pages g) (2 ^ 3)) = (unat (total_pages g) + 2 ^ 3 - 1) div 2 ^ 3 * 2 ^ 3"
    using assms by (intro unat_align_up) simp_all
  then show ?thesis by (simp add: region_bitmap_bytes_def unat_div)
qed

definition placed_region :: "pmm_region \<Rightarrow> pmm_region \<Rightarrow> bool" where
  "placed_region g g' =
     (g' = (if total_pages g = 0 then g
            else g\<lparr>bitmap_phys := bitmap_phys g', bitmap_bytes := region_bitmap_bytes g,
                   reserved_pages := 0\<rparr>))"

lemma place_bitmaps_spec:
  assumes "place_bitmaps rs cursor m = (rs', c', m')" "unat cursor + bm_need rs < 2 ^ 64"
  shows "length rs' = length rs \<and> unat c' = unat cursor + bm_need rs \<and>
    (\<forall>i<length rs. placed_region (rs ! i) (rs' ! i)) \<and>
    (\<forall>i<length rs. bm_range (rs' ! i) \<subseteq> {unat cursor ..< unat c'}) \<and>
    (\<forall>i<length rs. \<forall>j<length rs. i < j \<longrightarrow> bm_range (rs' ! i) \<inter> bm_range (rs' ! j) = {}) \<and>
    (\<forall>x. m' x = (if unat cursor \<le> unat x \<and> unat x < unat c' then 0 else m x))"
  using assms
proof (induction rs arbitrary: cursor m rs' c' m')
  case Nil
  then show ?case by auto
next
  case (Cons g rs)
  show ?case
  proof (cases "total_pages g = 0")
    case True
    then obtain rs2 where p: "place_bitmaps rs cursor m = (rs2, c', m')" and rs': "rs' = g # rs2"
      using Cons.prems(1) by (auto split: prod.splits)
    have "bm_range g = {}" "placed_region g g" using True by (simp_all add: bm_range_def placed_region_def)
    with Cons.IH [OF p] Cons.prems(2) True show ?thesis
      by (simp add: rs' All_less_Suc2) metis
  next
    case False
    let ?b = "region_bitmap_bytes g"
    let ?g = "g\<lparr>bitmap_phys := cursor, bitmap_bytes := ?b, reserved_pages := 0\<rparr>"
    from False obtain rs2 where
      p: "place_bitmaps rs (cursor + ?b) (zero_bytes m cursor ?b) = (rs2, c', m')"
      and rs': "rs' = ?g # rs2"
      using Cons.prems(1) by (auto simp: Let_def split: prod.splits)
    have cb: "unat (cursor + ?b) = unat cursor + unat ?b"
      using Cons.prems(2) False by (intro unat_add_no_wrap) simp
    have lt: "unat (cursor + ?b) + bm_need rs < 2 ^ 64"
      using Cons.prems(2) False by (simp add: cb)
    note IH = Cons.IH [OF p lt]
    have g: "bm_range ?g = {unat cursor ..< unat cursor + unat ?b}"
      using False by (simp add: bm_range_def)
    have pl: "placed_region g ?g" using False by (simp add: placed_region_def)
    have d: "bm_range ?g \<inter> bm_range (rs2 ! j) = {}" if "j < length rs" for j
      using IH that by (fastforce simp: g cb)
    have sub: "bm_range (rs2 ! j) \<subseteq> {unat cursor ..< unat c'}" if "j < length rs" for j
      using IH that by (fastforce simp: cb)
    have z: "zero_bytes m cursor ?b x =
        (if unat cursor \<le> unat x \<and> unat x < unat cursor + unat ?b then 0 else m x)" for x
      using Cons.prems(2) False by (intro zero_bytes_apply) simp
    have c': "unat cursor + unat ?b \<le> unat c'" using IH by (simp add: cb)
    have m': "m' x = (if unat cursor \<le> unat x \<and> unat x < unat c' then 0 else m x)" for x
      using IH c' by (simp add: cb z)
    show ?thesis
      using IH False d sub m' c' pl by (simp add: rs' All_less_Suc2 g cb)
  qed
qed

text \<open>The region table as \<open>arch_mem_init\<close> leaves it: page-aligned disjoint extents, nothing
  reserved yet.\<close>

definition boot_region :: "pmm_region \<Rightarrow> bool" where
  "boot_region g \<longleftrightarrow> phys_start g < phys_end g \<and> 4096 dvd unat (phys_start g) \<and>
     4096 dvd unat (phys_end g) \<and> total_pages g = (phys_end g - phys_start g) div 4096 \<and>
     reserved_pages g = 0"

definition boot_regions :: "pmm_region list \<Rightarrow> bool" where
  "boot_regions rs \<longleftrightarrow> length rs \<le> MAX_PMM_REGIONS \<and> (\<forall>g\<in>set rs. boot_region g) \<and>
     (\<forall>i<length rs. \<forall>j<length rs. i \<noteq> j \<longrightarrow> region_range (rs ! i) \<inter> region_range (rs ! j) = {})"

lemma select_meta_SomeD:
  assumes "select_meta need rs i meta = Some (mi, g)"
  shows "meta = Some (mi, g) \<or> i \<le> mi \<and> mi < i + length rs \<and> g = rs ! (mi - i) \<and>
    total_pages g \<noteq> 0 \<and> phys_start g < META_REGION_LIMIT \<and>
    need \<le> phys_end g - align_up (phys_start g) 4096"
  using assms
proof (induction rs arbitrary: i meta)
  case (Cons r rs)
  define meta' where "meta' = (case meta of None \<Rightarrow> Some (i, r)
    | Some (j, m) \<Rightarrow> if phys_start r < phys_start m then Some (i, r) else meta)"
  have m': "meta' = meta \<or> meta' = Some (i, r)"
    by (auto simp: meta'_def split: option.splits)
  have nth: "(r # rs) ! (mi - i) = rs ! (mi - Suc i)" if "Suc i \<le> mi"
    using that by (simp add: nth_Cons')
  let ?skip = "total_pages r = 0 \<or> phys_start r \<ge> META_REGION_LIMIT \<or>
    phys_end r - align_up (phys_start r) 4096 < need"
  show ?case
  proof (cases ?skip)
    case True
    then have "select_meta need rs (Suc i) meta = Some (mi, g)"
      using Cons.prems by (auto split: if_splits)
    from Cons.IH [OF this] show ?thesis
      using nth by (elim disjE conjE) simp_all
  next
    case False
    then have "select_meta need rs (Suc i) meta' = Some (mi, g)"
      using Cons.prems by (simp add: meta'_def)
    from Cons.IH [OF this] m' False nth show ?thesis
      by (elim disjE conjE) (simp_all add: not_le not_less)
  qed
qed simp

lemma boot_region_bound:
  assumes "boot_region g"
  shows "unat (total_pages g) < 2 ^ 52" "unat (phys_end g) = unat (phys_start g) + 4096 * unat (total_pages g)"
proof -
  have g: "phys_start g < phys_end g" "4096 dvd unat (phys_start g)" "4096 dvd unat (phys_end g)"
    "total_pages g = (phys_end g - phys_start g) div 4096"
    using assms by (simp_all add: boot_region_def)
  have d: "unat (phys_end g - phys_start g) = unat (phys_end g) - unat (phys_start g)"
    using g(1) by (intro unat_sub_no_wrap) simp
  have t: "unat (total_pages g) = (unat (phys_end g) - unat (phys_start g)) div 4096"
    by (simp add: g(4) unat_div d)
  have "4096 dvd unat (phys_end g) - unat (phys_start g)" using g by simp
  with t have "4096 * unat (total_pages g) = unat (phys_end g) - unat (phys_start g)" by simp
  with g(1) show "unat (phys_end g) = unat (phys_start g) + 4096 * unat (total_pages g)"
    by (simp add: word_less_nat_alt)
  with unat_lt_64 [of "phys_end g"] show "unat (total_pages g) < 2 ^ 52" by simp
qed

lemma bm_need_bound:
  assumes "\<forall>g\<in>set rs. boot_region g"
  shows "bm_need rs \<le> length rs * 2 ^ 49"
  using assms
proof (induction rs)
  case (Cons g rs)
  have "unat (region_bitmap_bytes g) \<le> 2 ^ 49"
    using unat_region_bitmap_bytes [of g] boot_region_bound(1) [of g] Cons.prems by simp
  with Cons show ?case by simp
qed simp

lemma region_ok_reserved:
  "region_ok g \<Longrightarrow> R \<le> total_pages g \<Longrightarrow> region_ok (g\<lparr>reserved_pages := R\<rparr>)"
  unfolding region_ok_def by (elim conjE) simp

lemma placed_region_fields:
  assumes "boot_region g" "placed_region g g'"
  shows "total_pages g' = total_pages g" "phys_start g' = phys_start g" "phys_end g' = phys_end g"
    "reserved_pages g' = 0" "total_pages g \<noteq> 0 \<Longrightarrow> bitmap_bytes g' = region_bitmap_bytes g"
  using assms unfolding placed_region_def boot_region_def
  by (cases g; cases g'; simp split: if_splits)+

lemma placed_region_ok:
  assumes "boot_region g" "placed_region g g'"
    "total_pages g' \<noteq> 0 \<Longrightarrow> unat (bitmap_phys g') + unat (bitmap_bytes g') \<le> 2 ^ 64"
  shows "region_ok g'" "region_range g' = region_range g" "total_pages g' = total_pages g"
    "reserved_pages g' = 0" "phys_start g' = phys_start g" "phys_end g' = phys_end g"
proof -
  note c = placed_region_fields [OF assms(1,2)]
  show "total_pages g' = total_pages g" "reserved_pages g' = 0"
    "phys_start g' = phys_start g" "phys_end g' = phys_end g" by (simp_all add: c)
  show "region_range g' = region_range g" by (simp add: region_range_def c)
  have "unat (total_pages g) \<le> 8 * unat (region_bitmap_bytes g)"
    using unat_region_bitmap_bytes [OF boot_region_bound(1) [OF assms(1)]] by simp
  then show "region_ok g'"
    using assms(1,3) c unfolding region_ok_def boot_region_def by (cases "total_pages g = 0") simp_all
qed

lemma mark_reserved_test:
  assumes ok: "region_ok g" and q: "q < unat (total_pages g)"
  shows "test_bit_bm (mark_reserved g m) g (of_nat q) \<longleftrightarrow>
           q < unat (reserved_pages g) \<or> test_bit_bm m g (of_nat q)"
proof -
  have le: "unat (reserved_pages g) \<le> unat (total_pages g)"
    using ok unfolding region_ok_def word_le_nat_alt by blast
  have "j \<le> unat (total_pages g) \<Longrightarrow>
    test_bit_bm (foldl (\<lambda>m page. set_bit_bm m g (of_nat page)) m [0..<j]) g (of_nat q) \<longleftrightarrow>
      q < j \<or> test_bit_bm m g (of_nat q)" for j
    by (induction j) (auto simp: bm_update_same_region [OF ok _ q])
  from this [OF le] show ?thesis by (simp add: mark_reserved_def)
qed

lemma mark_reserved_other:
  assumes ok: "region_ok g" "region_ok g'" and d: "bm_range g \<inter> bm_range g' = {}"
    and q: "q < unat (total_pages g')"
  shows "test_bit_bm (mark_reserved g m) g' (of_nat q) = test_bit_bm m g' (of_nat q)"
proof -
  have le: "unat (reserved_pages g) \<le> unat (total_pages g)"
    using ok(1) unfolding region_ok_def word_le_nat_alt by blast
  have "j \<le> unat (total_pages g) \<Longrightarrow>
    test_bit_bm (foldl (\<lambda>m page. set_bit_bm m g (of_nat page)) m [0..<j]) g' (of_nat q) =
      test_bit_bm m g' (of_nat q)" for j
    by (induction j) (auto simp: bm_update_other_region [OF ok _ q d])
  from this [OF le] show ?thesis by (simp add: mark_reserved_def)
qed

lemma account_regions_append:
  "account_regions (xs @ ys) s = account_regions ys (account_regions xs s)"
  by (induction xs arbitrary: s) auto

lemma account_regions_plain:
  assumes "\<forall>g\<in>set rs. reserved_pages g = 0"
  shows "\<exists>k. account_regions rs s = s\<lparr>managed_pages := k\<rparr>"
  using assms
proof (induction rs arbitrary: s)
  case Nil
  have "s = s\<lparr>managed_pages := managed_pages s\<rparr>" by simp
  then show ?case by (metis account_regions.simps(1))
next
  case (Cons g rs)
  show ?case
  proof (cases "total_pages g = 0")
    case False
    have "account_regions (g # rs) s =
        account_regions rs (s\<lparr>managed_pages := managed_pages s + total_pages g\<rparr>)"
      using Cons.prems False by (simp add: mark_reserved_def)
    with Cons.IH [of "s\<lparr>managed_pages := managed_pages s + total_pages g\<rparr>"] Cons.prems
    show ?thesis by auto
  qed (use Cons in auto)
qed

lemma account_regions_one:
  assumes "mi < length rs" "total_pages (rs ! mi) \<noteq> 0"
    "\<forall>i<length rs. i \<noteq> mi \<longrightarrow> reserved_pages (rs ! i) = 0"
  shows "\<exists>k. account_regions rs s = s\<lparr>pmem := mark_reserved (rs ! mi) (pmem s),
           pmm_reserved_pages := pmm_reserved_pages s + reserved_pages (rs ! mi),
           used_pages := used_pages s + reserved_pages (rs ! mi), managed_pages := k\<rparr>"
proof -
  let ?A = "take mi rs" and ?B = "drop (Suc mi) rs"
  have rs: "rs = ?A @ rs ! mi # ?B" using assms(1) by (rule id_take_nth_drop)
  have "\<forall>g\<in>set ?A. reserved_pages g = 0"
    using assms by (auto simp: in_set_conv_nth)
  then obtain k where k: "account_regions ?A s = s\<lparr>managed_pages := k\<rparr>"
    using account_regions_plain by blast
  have B: "\<forall>g\<in>set ?B. reserved_pages g = 0"
    using assms by (auto simp: in_set_conv_nth)
  have "account_regions rs s = account_regions ?B (account_regions [rs ! mi] (account_regions ?A s))"
    by (subst rs) (simp add: account_regions_append)
  also have "\<dots> = account_regions ?B (s\<lparr>pmem := mark_reserved (rs ! mi) (pmem s),
      pmm_reserved_pages := pmm_reserved_pages s + reserved_pages (rs ! mi),
      used_pages := used_pages s + reserved_pages (rs ! mi),
      managed_pages := k + (total_pages (rs ! mi) - reserved_pages (rs ! mi))\<rparr>)"
    using assms(2) by (simp add: k)
  finally have e: "account_regions rs s = account_regions ?B (s\<lparr>pmem := mark_reserved (rs ! mi) (pmem s),
      pmm_reserved_pages := pmm_reserved_pages s + reserved_pages (rs ! mi),
      used_pages := used_pages s + reserved_pages (rs ! mi),
      managed_pages := k + (total_pages (rs ! mi) - reserved_pages (rs ! mi))\<rparr>)" (is "_ = account_regions _ ?s") .
  obtain k' where k': "account_regions ?B ?s = ?s\<lparr>managed_pages := k'\<rparr>"
    using account_regions_plain [OF B] by blast
  show ?thesis by (rule exI [of _ k']) (use trans [OF e k'] in simp)
qed

lemma align_up_page_aligned:
  assumes "4096 dvd unat a" "unat a < 2 ^ 63"
  shows "align_up a 4096 = a"
proof -
  have "unat (align_up a (2 ^ 12)) = (unat a + 2 ^ 12 - 1) div 2 ^ 12 * 2 ^ 12"
    using assms(2) by (intro unat_align_up) simp_all
  also have "\<dots> = unat a" using assms(1) by (auto elim!: dvdE)
  finally show ?thesis by (simp add: word_eq_unat)
qed

text \<open>What \<open>setup_bitmaps\<close> leaves behind when it returns: the region table \<open>rs3\<close>, with every
  bitmap at the start of region \<open>mi\<close> and the pages under the bitmaps reserved.\<close>

lemma setup_bitmaps_layout:
  assumes b: "boot_regions (regions s)" and ret: "setup_bitmaps s = Ret s'"
  obtains mi rs2 c2 m2 R where
    "mi < length (regions s)" "total_pages (regions s ! mi) \<noteq> 0"
    "place_bitmaps (regions s) (phys_start (regions s ! mi)) (pmem s) = (rs2, c2, m2)"
    "unat (phys_start (regions s ! mi)) + bm_need (regions s) \<le> unat (phys_end (regions s ! mi))"
    "unat R = (bm_need (regions s) + 4095) div 4096" "R \<le> total_pages (regions s ! mi)"
    "regions s' = rs2[mi := (rs2 ! mi)\<lparr>reserved_pages := R\<rparr>]"
    "pmem s' = mark_reserved ((rs2 ! mi)\<lparr>reserved_pages := R\<rparr>) m2" "used_pages s' = R"
    "pmm_cursor_region s' = pmm_cursor_region s"
proof -
  let ?rs = "regions s"
  have br: "boot_region g" if "g \<in> set ?rs" for g using b that by (simp add: boot_regions_def)
  have len: "length ?rs \<le> 32" using b by (simp add: boot_regions_def MAX_PMM_REGIONS_def)
  have need: "bm_need ?rs \<le> 2 ^ 54"
    using order.trans [OF bm_need_bound mult_le_mono1 [OF len]] br by simp
  have nw: "unat (of_nat (bm_need ?rs) :: u64) = bm_need ?rs"
    using need by (intro unat_of_nat_small) simp
  from ret obtain mi meta where sm: "select_meta (of_nat (bm_need ?rs)) ?rs 0 None = Some (mi, meta)"
    by (auto simp: setup_bitmaps_def total_bitmap_bytes_need Let_def split: option.splits)
  from select_meta_SomeD [OF sm] have mi: "mi < length ?rs" "meta = ?rs ! mi"
    "total_pages meta \<noteq> 0" "phys_start meta < META_REGION_LIMIT" by auto
  have bm: "boot_region meta" using br mi by simp
  have st: "unat (phys_start meta) < 2 ^ 30" using mi(4) by (simp add: META_REGION_LIMIT_def word_less_nat_alt)
  have cur: "align_up (phys_start meta) 4096 = phys_start meta"
    using bm st by (intro align_up_page_aligned) (simp_all add: boot_region_def)
  obtain rs2 c2 m2 where pl: "place_bitmaps ?rs (phys_start meta) (pmem s) = (rs2, c2, m2)"
    by (cases "place_bitmaps ?rs (phys_start meta) (pmem s)")
  define R where "R = align_up (c2 - phys_start meta) 4096 div 4096"
  define rs3 where "rs3 = rs2[mi := (rs2 ! mi)\<lparr>reserved_pages := R\<rparr>]"
  have fit: "\<not> phys_end meta < phys_start meta + of_nat (bm_need ?rs)"
    and s': "s' = account_regions rs3 (s\<lparr>regions := rs3, pmem := m2, managed_pages := 0,
               pmm_reserved_pages := 0, used_pages := 0\<rparr>)"
    using ret by (simp_all add: setup_bitmaps_def total_bitmap_bytes_need sm cur pl Let_def
        R_def [symmetric] rs3_def [symmetric] split: if_splits)
  have sum: "unat (phys_start meta + of_nat (bm_need ?rs)) = unat (phys_start meta) + bm_need ?rs"
    using st need nw by (subst unat_add_no_wrap) simp_all
  have fit': "unat (phys_start meta) + bm_need ?rs \<le> unat (phys_end meta)"
    using fit sum by (simp add: word_less_nat_alt)
  have P: "length rs2 = length ?rs" "unat c2 = unat (phys_start meta) + bm_need ?rs"
    "\<forall>i<length ?rs. placed_region (?rs ! i) (rs2 ! i)"
    using place_bitmaps_spec [OF pl] st need by simp_all
  have "unat (c2 - phys_start meta) = bm_need ?rs"
    using P(2) by (subst unat_sub_no_wrap) (simp_all add: word_le_nat_alt)
  moreover have "unat (align_up (c2 - phys_start meta) (2 ^ 12)) =
      (unat (c2 - phys_start meta) + 2 ^ 12 - 1) div 2 ^ 12 * 2 ^ 12"
    using need calculation by (intro unat_align_up) simp_all
  ultimately have R: "unat R = (bm_need ?rs + 4095) div 4096"
    by (simp add: R_def unat_div)
  have RT: "R \<le> total_pages meta"
    using fit' boot_region_bound(2) [OF bm] by (simp add: word_le_nat_alt R)
  have tot: "total_pages (rs2 ! i) = total_pages (?rs ! i)" "reserved_pages (rs2 ! i) = 0"
    if "i < length ?rs" for i
    using placed_region_fields(1,4) [of "?rs ! i" "rs2 ! i"] P(3) br that by simp_all
  have one: "mi < length rs3" "total_pages (rs3 ! mi) \<noteq> 0"
    "\<forall>i<length rs3. i \<noteq> mi \<longrightarrow> reserved_pages (rs3 ! i) = 0"
    using mi tot P(1) by (simp_all add: rs3_def)
  let ?s = "s\<lparr>regions := rs3, pmem := m2, managed_pages := 0, pmm_reserved_pages := 0, used_pages := 0\<rparr>"
  obtain k where k: "s' = ?s\<lparr>pmem := mark_reserved (rs3 ! mi) (pmem ?s),
           pmm_reserved_pages := pmm_reserved_pages ?s + reserved_pages (rs3 ! mi),
           used_pages := used_pages ?s + reserved_pages (rs3 ! mi), managed_pages := k\<rparr>"
    using account_regions_one [OF one, of ?s] unfolding s' by blast
  have g3: "rs3 ! mi = (rs2 ! mi)\<lparr>reserved_pages := R\<rparr>" using mi(1) P(1) by (simp add: rs3_def)
  have e: "regions s' = rs3" "pmem s' = mark_reserved ((rs2 ! mi)\<lparr>reserved_pages := R\<rparr>) m2"
    "used_pages s' = R" "pmm_cursor_region s' = pmm_cursor_region s"
    unfolding k g3 by simp_all
  show thesis
    by (rule that [OF mi(1) _ pl [unfolded mi(2)] _ R _ e [unfolded rs3_def]])
      (use mi RT fit' in simp_all)
qed

lemma setup_bitmaps_spec:
  assumes b: "boot_regions (regions s)" and cur: "unat (pmm_cursor_region s) < MAX_PMM_REGIONS"
    and ret: "setup_bitmaps s = Ret s'"
  shows "pmm_inv s' \<and> pmm_avail s' = pmm_pages s'"
proof -
  let ?rs = "regions s"
  from setup_bitmaps_layout [OF b ret] obtain mi rs2 c2 m2 R where
    mi: "mi < length ?rs" "total_pages (?rs ! mi) \<noteq> 0"
    and pl: "place_bitmaps ?rs (phys_start (?rs ! mi)) (pmem s) = (rs2, c2, m2)"
    and fit: "unat (phys_start (?rs ! mi)) + bm_need ?rs \<le> unat (phys_end (?rs ! mi))"
    and R: "unat R = (bm_need ?rs + 4095) div 4096" "R \<le> total_pages (?rs ! mi)"
    and s': "regions s' = rs2[mi := (rs2 ! mi)\<lparr>reserved_pages := R\<rparr>]"
    "pmem s' = mark_reserved ((rs2 ! mi)\<lparr>reserved_pages := R\<rparr>) m2" "used_pages s' = R"
    "pmm_cursor_region s' = pmm_cursor_region s" by metis
  let ?st = "unat (phys_start (?rs ! mi))" and ?g = "(rs2 ! mi)\<lparr>reserved_pages := R\<rparr>"
  have br: "boot_region (?rs ! i)" if "i < length ?rs" for i using b that by (simp add: boot_regions_def)
  have "?st + bm_need ?rs < 2 ^ 64" using fit unat_lt_64 [of "phys_end (?rs ! mi)"] by simp
  note P = place_bitmaps_spec [OF pl this]
  have P1: "length rs2 = length ?rs" "unat c2 = ?st + bm_need ?rs" using P by simp_all
  have P3: "placed_region (?rs ! i) (rs2 ! i)" "bm_range (rs2 ! i) \<subseteq> {?st ..< unat c2}"
    if "i < length ?rs" for i using P that by blast+
  have P4: "bm_range (rs2 ! i) \<inter> bm_range (rs2 ! j) = {}"
    if "i < length ?rs" "j < length ?rs" "i \<noteq> j" for i j
    using P that by (metis Int_commute linorder_neqE_nat)
  have P5: "m2 x = 0" if "?st \<le> unat x" "unat x < unat c2" for x using P that by simp
  have bmb: "unat (bitmap_phys (rs2 ! i)) + unat (bitmap_bytes (rs2 ! i)) \<le> 2 ^ 64"
    if "i < length ?rs" "total_pages (rs2 ! i) \<noteq> 0" for i
    using P3(2) [OF that(1)] that(2) unat_lt_64 [of c2] unat_lt_64 [of "bitmap_phys (rs2 ! i)"]
    by (cases "bitmap_bytes (rs2 ! i) = 0") (auto simp: bm_range_def unat_eq_zero)
  note Q = placed_region_ok [OF br P3(1) bmb]
  have okg: "region_ok ?g"
    using region_ok_reserved [OF Q(1)] Q(3) mi(1) R(2) by simp
  have nth: "regions s' ! i = (if i = mi then ?g else rs2 ! i)" if "i < length ?rs" for i
    using that P1 by (simp add: s')
  have len: "length (regions s') = length ?rs" by (simp add: s' P1)
  have ok: "region_ok (regions s' ! i)" and bmr: "bm_range (regions s' ! i) = bm_range (rs2 ! i)"
    and rr: "region_range (regions s' ! i) = region_range (?rs ! i)"
    and tot: "total_pages (regions s' ! i) = total_pages (?rs ! i)" if "i < length ?rs" for i
    using okg Q(1-3) [OF that that that] nth [OF that]
    by (cases "i = mi"; simp add: bm_range_def region_range_def)+
  have zero: "\<not> test_bit_bm m2 (rs2 ! i) (of_nat q)" if i: "i < length ?rs" and q: "q < unat (total_pages (rs2 ! i))" for i q
  proof -
    have ro: "region_ok (rs2 ! i)" by (rule Q(1) [OF i i i])
    have a: "unat (bitmap_phys (rs2 ! i) + of_nat q div 8) = unat (bitmap_phys (rs2 ! i)) + q div 8"
      by (rule bm_addr [OF ro q])
    have "q div 8 < unat (bitmap_bytes (rs2 ! i))"
      using ro q by (cases "total_pages (rs2 ! i) = 0") (auto simp: region_ok_def)
    then have "unat (bitmap_phys (rs2 ! i)) + q div 8 \<in> bm_range (rs2 ! i)"
      using q by (auto simp: bm_range_def)
    with P3(2) [OF i] a have "m2 (bitmap_phys (rs2 ! i) + of_nat q div 8) = 0"
      by (intro P5) auto
    then show ?thesis by (simp add: test_bit_bm_iff)
  qed
  have test: "test_bit_bm (pmem s') (regions s' ! i) (of_nat q) \<longleftrightarrow> i = mi \<and> q < unat R"
    if i: "i < length ?rs" and q: "q < unat (total_pages (regions s' ! i))" for i q
  proof (cases "i = mi")
    case True
    have "test_bit_bm m2 ?g (of_nat q) = test_bit_bm m2 (rs2 ! mi) (of_nat q)"
      by (simp add: test_bit_bm_def)
    with True zero [OF mi(1)] q mark_reserved_test [OF okg] show ?thesis by (simp add: s'(2) nth [OF mi(1)])
  next
    case False
    have "bm_range ?g \<inter> bm_range (rs2 ! i) = {}"
      using P4 [OF mi(1) i] False bmr [OF mi(1)] nth [OF mi(1)] by simp
    with mark_reserved_other [OF okg ok [OF i]] q False zero [OF i] show ?thesis
      by (simp add: s'(2) nth [OF i])
  qed
  have pu: "pages_used (pmem s') (regions s' ! i) = (if i = mi then {..<unat R} else {})"
    if i: "i < length ?rs" for i
    using test [OF i] R(2) tot [OF i] unfolding pages_used_def word_le_nat_alt by auto
  have sumR: "(\<Sum>i<length ?rs. card (pages_used (pmem s') (regions s' ! i))) = unat R"
    using mi(1) by (simp add: pu if_distrib cong: if_cong)
  have bm_meta: "bm_range (regions s' ! j) \<subseteq> {?st ..< ?st + 4096 * unat R}" if "j < length ?rs" for j
    using P3(2) [OF that] P1(2) R(1) bmr [OF that] by fastforce
  have res: "unat (reserved_pages (regions s' ! mi)) = unat R" by (simp add: nth [OF mi(1)])
  have psm: "unat (phys_start (regions s' ! mi)) = ?st"
    using Q(5) [OF mi(1) mi(1) mi(1)] by (simp add: nth [OF mi(1)])
  have meta_in: "{?st ..< ?st + 4096 * unat R} \<subseteq> region_range (?rs ! mi)"
    using R(2) boot_region_bound(2) [OF br [OF mi(1)]] by (auto simp: region_range_def word_le_nat_alt)
  have page: "page_range (regions s' ! i) p \<inter> bm_range (regions s' ! j) = {}"
    if i: "i < length ?rs" and j: "j < length ?rs"
      and p: "unat (reserved_pages (regions s' ! i)) \<le> p" "p < unat (total_pages (regions s' ! i))" for i j p
  proof (cases "i = mi")
    case True
    then show ?thesis using bm_meta [OF j] p(1) res psm by (fastforce simp: page_range_def)
  next
    case False
    have "page_range (regions s' ! i) p \<subseteq> region_range (?rs ! i)"
      using page_range_in_region [OF ok [OF i] p(2)] rr [OF i] by simp
    moreover have "region_range (?rs ! i) \<inter> region_range (?rs ! mi) = {}"
      using b False i mi(1) by (simp add: boot_regions_def)
    ultimately show ?thesis using bm_meta [OF j] meta_in by blast
  qed
  have rdis: "region_range (?rs ! i) \<inter> region_range (?rs ! j) = {}"
    if "i < length ?rs" "j < length ?rs" "i \<noteq> j" for i j
    using b that by (simp add: boot_regions_def)
  have page': "\<forall>g\<in>set (regions s'). \<forall>g'\<in>set (regions s'). \<forall>p.
      unat (reserved_pages g) \<le> p \<and> p < unat (total_pages g) \<longrightarrow> page_range g p \<inter> bm_range g' = {}"
    using page by (metis in_set_conv_nth len)
  have "\<forall>g\<in>set (regions s'). region_ok g" using ok by (metis in_set_conv_nth len)
  then have "pmm_inv s'"
    unfolding pmm_inv_def len s'(3,4) sumR
    using b cur page' rr bmr P4 rdis by (simp add: boot_regions_def)
  moreover have "pmm_avail s' = pmm_pages s'"
  proof -
    have "page_free s' i q" if "(i, q) \<in> usable s'" for i q
      using that test [of i q] res by (auto simp: usable_def page_free_def len)
    then show ?thesis by (auto simp: pmm_avail_def pmm_pages_def)
  qed
  ultimately show ?thesis ..
qed

section \<open>The interface of a page allocator\<close>

text \<open>Repeated allocation, as the clients of the allocator do it.\<close>

fun alloc_seq :: "('s \<Rightarrow> (u64 \<times> 's) run) \<Rightarrow> nat \<Rightarrow> 's \<Rightarrow> (u64 list \<times> 's) run" where
  "alloc_seq alloc 0 s = Ret ([], s)"
| "alloc_seq alloc (Suc n) s =
     bind_run (alloc s) (\<lambda>(a, s1). bind_run (alloc_seq alloc n s1) (\<lambda>(as, s2). Ret (a # as, s2)))"

locale page_allocator =
  fixes alloc :: "'s \<Rightarrow> (u64 \<times> 's) run"
    and free :: "u64 \<Rightarrow> 's \<Rightarrow> 's run"
    and pages avail :: "'s \<Rightarrow> u64 set"
    and inv :: "'s \<Rightarrow> bool"
    and mem :: "'s \<Rightarrow> u64 \<Rightarrow> u8"
  assumes avail_pages: "avail s \<subseteq> pages s"
    and avail_finite: "inv s \<Longrightarrow> finite (avail s)"
    and alloc_total: "inv s \<Longrightarrow> avail s \<noteq> {} \<Longrightarrow> \<exists>a s'. alloc s = Ret (a, s')"
    and alloc_avail: "inv s \<Longrightarrow> alloc s = Ret (a, s') \<Longrightarrow> a \<in> avail s \<and> avail s' = avail s - {a}"
    and alloc_pages: "inv s \<Longrightarrow> alloc s = Ret (a, s') \<Longrightarrow> pages s' = pages s"
    and alloc_inv: "inv s \<Longrightarrow> alloc s = Ret (a, s') \<Longrightarrow> inv s'"
    and alloc_mem: "inv s \<Longrightarrow> alloc s = Ret (a, s') \<Longrightarrow> b \<in> pages s \<Longrightarrow> k < 4096 \<Longrightarrow>
          mem s' (b + k) = mem s (b + k)"
    and free_total: "inv s \<Longrightarrow> a \<in> pages s \<Longrightarrow> a \<notin> avail s \<Longrightarrow> \<exists>s'. free a s = Ret s'"
    and free_avail: "inv s \<Longrightarrow> a \<in> pages s \<Longrightarrow> free a s = Ret s' \<Longrightarrow> avail s' = insert a (avail s)"
    and free_inv: "inv s \<Longrightarrow> free a s = Ret s' \<Longrightarrow> inv s' \<and> pages s' = pages s"
begin

lemma alloc_seq_fresh:
  assumes "inv s" "alloc_seq alloc n s = Ret (as, s')"
  shows "length as = n \<and> distinct as \<and> set as \<subseteq> avail s \<and> avail s' = avail s - set as \<and>
    inv s' \<and> pages s' = pages s"
  using assms
proof (induction n arbitrary: s as)
  case (Suc n)
  from Suc.prems(2) obtain a s1 as1 where 1: "alloc s = Ret (a, s1)"
    and 2: "alloc_seq alloc n s1 = Ret (as1, s')" and as: "as = a # as1"
    by (auto simp: bind_run_Ret_iff)
  note IH = Suc.IH [OF alloc_inv [OF Suc.prems(1) 1] 2]
  show ?case
    using IH alloc_avail [OF Suc.prems(1) 1] alloc_pages [OF Suc.prems(1) 1] by (auto simp: as)
qed simp

lemma alloc_seq_total:
  assumes "inv s" "n \<le> card (avail s)"
  shows "\<exists>as s'. alloc_seq alloc n s = Ret (as, s')"
  using assms
proof (induction n arbitrary: s)
  case (Suc n)
  then have "avail s \<noteq> {}" by auto
  then obtain a s1 where 1: "alloc s = Ret (a, s1)"
    using alloc_total [OF Suc.prems(1)] by blast
  note a = alloc_avail [OF Suc.prems(1) 1]
  have "n \<le> card (avail s1)"
    using a Suc.prems avail_finite [OF Suc.prems(1)] by (simp add: card_Diff_singleton)
  with Suc.IH [OF alloc_inv [OF Suc.prems(1) 1]] obtain as s' where
    "alloc_seq alloc n s1 = Ret (as, s')" by blast
  with 1 show ?case by simp
qed simp

lemma alloc_free_restores:
  assumes "inv s" "alloc s = Ret (a, s1)"
  shows "\<exists>s2. free a s1 = Ret s2 \<and> avail s2 = avail s \<and> inv s2 \<and> pages s2 = pages s"
proof -
  note a = alloc_avail [OF assms] and i = alloc_inv [OF assms] and p = alloc_pages [OF assms]
  have ap: "a \<in> pages s1" using a p avail_pages by blast
  then obtain s2 where f: "free a s1 = Ret s2" using free_total [OF i] a by blast
  with free_avail [OF i ap f] free_inv [OF i f] a p show ?thesis by auto
qed

end

lemma pmm_alloc_page_ret:
  assumes inv: "pmm_inv s" and ret: "pmm_alloc_page s = Ret (a, s')"
  shows "a \<in> pmm_avail s" "pmm_avail s' = pmm_avail s - {a}" "pmm_pages s' = pmm_pages s"
    "pmm_inv s'" "unat (used_pages s') = unat (used_pages s) + 1"
    "b \<in> pmm_pages s \<Longrightarrow> k < 4096 \<Longrightarrow> pmem s' (b + k) = pmem s (b + k)"
proof -
  from pmm_alloc_page_cases [OF inv] ret obtain r p where
    rp: "(r, p) \<in> usable s" "page_free s r p" and t: "take_page s r p = (a, s')"
    by auto
  note t = take_page_spec [OF inv rp t]
  show "a \<in> pmm_avail s" "pmm_avail s' = pmm_avail s - {a}" "pmm_pages s' = pmm_pages s"
    "pmm_inv s'" "unat (used_pages s') = unat (used_pages s) + 1"
    "b \<in> pmm_pages s \<Longrightarrow> k < 4096 \<Longrightarrow> pmem s' (b + k) = pmem s (b + k)"
    by (fact t)+
qed

lemma pmm_alloc_page_panic:
  assumes inv: "pmm_inv s"
  shows "pmm_alloc_page s = Panic ''Out of physical memory'' 0 \<longleftrightarrow> pmm_avail s = {}"
    and "pmm_avail s \<noteq> {} \<Longrightarrow> \<exists>a s'. pmm_alloc_page s = Ret (a, s')"
  using pmm_alloc_page_cases [OF inv] by (auto simp: pmm_avail_def)

lemma pmm_free_page_avail:
  assumes inv: "pmm_inv s" and a: "a \<in> pmm_pages s" and ret: "pmm_free_page a s = Ret s'"
  shows "pmm_avail s' = insert a (pmm_avail s)"
proof -
  from a obtain r p where rp: "(r, p) \<in> usable s" and a': "a = page_addr (regions s ! r) p"
    by (auto simp: pmm_pages_def)
  with ret pmm_free_page_eq [OF inv rp, of a] avail_clear [OF inv rp, of s'] show ?thesis
    by (auto split: if_splits)
qed

interpretation pmm: page_allocator pmm_alloc_page pmm_free_page pmm_pages pmm_avail pmm_inv pmem
proof
  show "pmm_avail s \<subseteq> pmm_pages s" for s by (auto simp: pmm_avail_def pmm_pages_def)
  show "finite (pmm_avail s)" for s by simp
next
  fix s a s' assume s: "pmm_inv s" "pmm_alloc_page s = Ret (a, s')"
  show "a \<in> pmm_avail s \<and> pmm_avail s' = pmm_avail s - {a}" "pmm_pages s' = pmm_pages s" "pmm_inv s'"
    using pmm_alloc_page_ret(1-4) [OF s] by simp_all
  show "pmem s' (b + k) = pmem s (b + k)" if "b \<in> pmm_pages s" "k < 4096" for b k
    by (rule pmm_alloc_page_ret(6) [OF s that])
next
  fix s a s' assume s: "pmm_inv s" and r: "pmm_free_page a s = Ret s'"
  show "pmm_inv s' \<and> pmm_pages s' = pmm_pages s"
    using pmm_free_page_ret [OF s r] by metis
qed (use pmm_alloc_page_panic(2) pmm_free_page_total pmm_free_page_avail in simp_all)

section \<open>Correctness\<close>

text \<open>A concrete allocator for the examples: one region of four pages at 1 MiB, whose first page
  holds the bitmap.\<close>

definition pmm_demo :: pmm where
  "pmm_demo = \<lparr>regions = [\<lparr>phys_start = 0x100000, phys_end = 0x104000, bitmap_phys = 0x100000,
       bitmap_bytes = 1, total_pages = 4, reserved_pages = 1\<rparr>],
     managed_pages = 3, pmm_reserved_pages = 1, used_pages = 1, max_phys_end = 0x104000,
     pmm_cursor_region = 0, pmm_cursor_page_idx = 0, pmem = (\<lambda>_. 0)(0x100000 := 1)\<rparr>"

definition pmm_boot_demo :: pmm where
  "pmm_boot_demo = \<lparr>regions = [\<lparr>phys_start = 0x100000, phys_end = 0x104000, bitmap_phys = 0,
       bitmap_bytes = 0, total_pages = 4, reserved_pages = 0\<rparr>],
     managed_pages = 0, pmm_reserved_pages = 0, used_pages = 0, max_phys_end = 0,
     pmm_cursor_region = 0, pmm_cursor_page_idx = 0, pmem = (\<lambda>_. 7)\<rparr>"

lemma pages_used_filter:
  "pages_used m g = set (filter (\<lambda>p. test_bit_bm m g (of_nat p)) [0..<unat (total_pages g)])"
  by (auto simp: pages_used_def)

lemma pages_used_demo: "pages_used (pmem pmm_demo) (regions pmm_demo ! 0) = {0}"
  unfolding pages_used_filter by code_simp

lemma pmm_demo_inv: "pmm_inv pmm_demo"
  using pages_used_demo
  by (auto simp: pmm_inv_def pmm_demo_def MAX_PMM_REGIONS_def region_ok_def page_range_def bm_range_def)

lemma pmm_demo_avail: "0x101000 \<in> pmm_avail pmm_demo"
  using page_addr_avail [OF pmm_demo_inv, of 0 1]
  by (simp add: usable_def pmm_demo_def page_addr_def page_free_def test_bit_bm_def)

text \<open>(C11) Allocating a page returns a page that was available, so neither a page in use nor a page
  holding allocator metadata. Exactly that page stops being available, the invariant is kept, the
  usage counter grows by one and no byte of any allocatable page is written.\<close>

theorem pmm_alloc_page_fresh:
  assumes "pmm_inv s" "pmm_alloc_page s = Ret (a, s')"
  shows "a \<in> pmm_avail s \<and> pmm_avail s' = pmm_avail s - {a} \<and> pmm_pages s' = pmm_pages s \<and>
    pmm_inv s' \<and> unat (used_pages s') = unat (used_pages s) + 1 \<and>
    (\<forall>b\<in>pmm_pages s. \<forall>k<4096. pmem s' (b + k) = pmem s (b + k))"
  using pmm_alloc_page_ret [OF assms] by blast

theorem pmm_alloc_page_fresh_witness:
  "\<exists>s'. pmm_alloc_page pmm_demo = Ret (0x101000, s') \<and> pmm_inv s' \<and> 0x101000 \<in> pmm_avail pmm_demo"
proof -
  have "map_option fst (ret_val (pmm_alloc_page pmm_demo)) = Some 0x101000" by code_simp
  then obtain s' where "pmm_alloc_page pmm_demo = Ret (0x101000, s')"
    by (auto simp: run_simps)
  with pmm_alloc_page_fresh [OF pmm_demo_inv this] show ?thesis by blast
qed

text \<open>(C24) Page allocation panics with the out-of-memory message exactly when no page is available;
  otherwise it returns a page.\<close>

theorem pmm_alloc_page_panics_iff:
  assumes "pmm_inv s"
  shows "(pmm_alloc_page s = Panic ''Out of physical memory'' 0 \<longleftrightarrow> pmm_avail s = {}) \<and>
    (pmm_avail s \<noteq> {} \<longrightarrow> (\<exists>a s'. pmm_alloc_page s = Ret (a, s')))"
  using pmm_alloc_page_panic [OF assms] by blast

theorem pmm_alloc_page_panics_iff_witness: "\<exists>a s'. pmm_alloc_page pmm_demo = Ret (a, s')"
  using pmm_alloc_page_panics_iff [OF pmm_demo_inv] pmm_demo_avail by blast

text \<open>(C25) Freeing succeeds for exactly the addresses inside an allocated page that holds no metadata;
  it makes that page available again, decrements the usage counter, keeps the invariant and the
  contents of all pages. Every other address panics with that address: a double free, a metadata
  page, an address outside the managed memory.\<close>

theorem pmm_free_page_correct:
  assumes "pmm_inv s"
  shows "if \<exists>a \<in> pmm_pages s - pmm_avail s. addr - a < 4096
    then \<exists>s' a. pmm_free_page addr s = Ret s' \<and> a \<in> pmm_pages s - pmm_avail s \<and> addr - a < 4096 \<and>
           pmm_avail s' = insert a (pmm_avail s) \<and> pmm_pages s' = pmm_pages s \<and> pmm_inv s' \<and>
           unat (used_pages s) = unat (used_pages s') + 1 \<and>
           (\<forall>b\<in>pmm_pages s. \<forall>k<4096. pmem s' (b + k) = pmem s (b + k))
    else \<exists>msg. pmm_free_page addr s = Panic msg addr"
proof (cases "\<exists>a \<in> pmm_pages s - pmm_avail s. addr - a < 4096")
  case True
  then obtain s' where "pmm_free_page addr s = Ret s'"
    using pmm_free_page_total [OF assms] by blast
  from pmm_free_page_ret [OF assms this] this True show ?thesis
    by (metis (no_types, lifting) DiffI)
next
  case False
  have "\<exists>msg. pmm_free_page addr s = Panic msg addr"
  proof (cases "\<exists>a \<in> pmm_pages s. addr - a < 4096")
    case True
    then obtain r p where rp: "(r, p) \<in> usable s" "addr - page_addr (regions s ! r) p < 4096"
      by (auto simp: pmm_pages_def)
    then have "page_free s r p"
      using False page_addr_avail [OF assms rp(1)] by (force simp: pmm_pages_def)
    with pmm_free_page_eq [OF assms rp] show ?thesis by simp
  qed (use pmm_free_page_outside [OF assms] in blast)
  with False show ?thesis by simp
qed

theorem pmm_free_page_correct_witness:
  "\<exists>msg. pmm_free_page 0x100000 pmm_demo = Panic msg 0x100000"
proof -
  have "ret_val (pmm_free_page 0x100000 pmm_demo) = None" by code_simp
  with pmm_free_page_correct [OF pmm_demo_inv, of "0x100000"] show ?thesis
    by (auto split: if_splits)
qed

text \<open>(C26) A run of \<open>n > 1\<close> pages that is handed out is contiguous and was entirely available; the
  run and nothing else stops being available and the invariant is kept. A request that panics finds
  no run of \<open>n\<close> available pages in any region that has more than \<open>n\<close> pages beside its metadata.\<close>

theorem pmm_alloc_pages_contiguous:
  assumes inv: "pmm_inv s" and n: "1 < n"
  shows "case pmm_alloc_pages n s of
      Ret (a, s') \<Rightarrow>
        (\<lambda>k. a + of_nat k * 4096) ` {..<unat n} \<subseteq> pmm_avail s \<and>
        pmm_avail s' = pmm_avail s - (\<lambda>k. a + of_nat k * 4096) ` {..<unat n} \<and>
        pmm_pages s' = pmm_pages s \<and> pmm_inv s' \<and>
        unat (used_pages s') = unat (used_pages s) + unat n \<and>
        (\<forall>c\<in>pmm_pages s. \<forall>k<4096. pmem s' (c + k) = pmem s (c + k))
    | Panic msg c \<Rightarrow> c = n \<and>
        (\<forall>r<length (regions s). reserved_pages (regions s ! r) + n < total_pages (regions s ! r) \<longrightarrow>
          (\<forall>b. unat (reserved_pages (regions s ! r)) \<le> b \<and>
               b + unat n \<le> unat (total_pages (regions s ! r)) \<longrightarrow>
               (\<exists>k<unat n. \<not> page_free s r (b + k))))
    | Hang \<Rightarrow> False"
proof -
  have n01: "n \<noteq> 0" "n \<noteq> 1" using n by auto
  show ?thesis
  proof (cases "first_some (alloc_run_in_region s n) [0..<length (regions s)]")
    case None
    have "\<exists>k<unat n. \<not> page_free s r (b + k)"
      if r: "r < length (regions s)" and t: "reserved_pages (regions s ! r) + n < total_pages (regions s ! r)"
        and b: "unat (reserved_pages (regions s ! r)) \<le> b" "b + unat n \<le> unat (total_pages (regions s ! r))"
      for r b
    proof -
      have "alloc_run_in_region s n r = None" using None r by (simp add: first_some_None)
      then have "scan_run (page_free s r) (unat n)
          [unat (reserved_pages (regions s ! r)) ..< unat (total_pages (regions s ! r))] 0 0 = None"
        using t by (simp add: alloc_run_in_region_def Let_def leD split: if_splits)
      then have "\<forall>b. unat (reserved_pages (regions s ! r)) \<le> b \<and>
          b + unat n \<le> unat (total_pages (regions s ! r)) \<longrightarrow> (\<exists>k<unat n. \<not> page_free s r (b + k))"
        by (rule scan_run_None) (use b n01 unat_gt_0 [of n] in auto)
      then show ?thesis using b by blast
    qed
    then show ?thesis using n01 None by (simp add: pmm_alloc_pages_def)
  next
    case (Some res)
    obtain a s' where res: "res = (a, s')" by (cases res)
    from first_some_SomeD [OF Some [unfolded res]] obtain r where
      r: "r < length (regions s)" "alloc_run_in_region s n r = Some (a, s')" by auto
    show ?thesis
      using n01 Some alloc_run_in_region_Some [OF inv r(1) n01(1) r(2)]
      by (simp add: pmm_alloc_pages_def res)
  qed
qed

theorem pmm_alloc_pages_contiguous_witness:
  "\<exists>s'. pmm_alloc_pages 2 pmm_demo = Ret (0x101000, s') \<and> 0x102000 \<in> pmm_avail pmm_demo \<and> pmm_inv s'"
proof -
  have "map_option fst (ret_val (pmm_alloc_pages 2 pmm_demo)) = Some 0x101000" by code_simp
  then obtain s' where s': "pmm_alloc_pages 2 pmm_demo = Ret (0x101000, s')"
    by (auto simp: run_simps)
  have "(0x102000 :: u64) \<in> (\<lambda>k. 0x101000 + of_nat k * 4096) ` {..<unat (2 :: u64)}"
    by (rule image_eqI [of _ _ 1]) simp_all
  with pmm_alloc_pages_contiguous [OF pmm_demo_inv, of 2] s' show ?thesis by auto
qed

text \<open>The size test of the contiguous allocator is too strict: in a region of four pages with
  one metadata page, all three other pages are available and adjacent, and a request for three pages
  still panics.\<close>

theorem pmm_alloc_pages_exact_fit:
  "{0x101000, 0x102000, 0x103000} \<subseteq> pmm_avail pmm_demo \<and>
   pmm_alloc_pages 3 pmm_demo = Panic ''Out of contiguous physical memory'' 3"
proof -
  have "(0, Suc k) \<in> usable pmm_demo \<and> page_free pmm_demo 0 (Suc k)" if "k < 3" for k
  proof -
    have "k = 0 \<or> k = 1 \<or> k = 2" using that by linarith
    then show ?thesis by (auto simp: usable_def pmm_demo_def page_free_def test_bit_bm_def)
  qed
  then have "page_addr (regions pmm_demo ! 0) (Suc k) \<in> pmm_avail pmm_demo" if "k < 3" for k
    using page_addr_avail [OF pmm_demo_inv] that by blast
  from this [of 0] this [of 1] this [of 2] show ?thesis
    by (auto simp: page_addr_def pmm_demo_def pmm_alloc_pages_def alloc_run_in_region_def)
qed

text \<open>(C12) The boot code establishes the invariant: if the firmware memory map gave page-aligned,
  disjoint regions, then after \<open>setup_bitmaps\<close> returns, the bitmaps lie outside every page that can
  be handed out, the counters agree with the bitmaps, and every page that is not metadata is
  available.\<close>

theorem setup_bitmaps_establishes_inv:
  assumes "boot_regions (regions s)" "unat (pmm_cursor_region s) < MAX_PMM_REGIONS"
    and "setup_bitmaps s = Ret s'"
  shows "pmm_inv s' \<and> pmm_avail s' = pmm_pages s'"
  using setup_bitmaps_spec [OF assms] .

theorem setup_bitmaps_establishes_inv_witness:
  "\<exists>s'. setup_bitmaps pmm_boot_demo = Ret s' \<and> pmm_inv s' \<and> managed_pages s' = 3"
proof -
  have "map_option managed_pages (ret_val (setup_bitmaps pmm_boot_demo)) = Some 3" by code_simp
  then obtain s' where s': "setup_bitmaps pmm_boot_demo = Ret s'" "managed_pages s' = 3"
    by (auto simp: run_simps)
  have "boot_regions (regions pmm_boot_demo)" "unat (pmm_cursor_region pmm_boot_demo) < MAX_PMM_REGIONS"
    by (simp_all add: pmm_boot_demo_def boot_regions_def boot_region_def MAX_PMM_REGIONS_def)
  from setup_bitmaps_establishes_inv [OF this s'(1)] s' show ?thesis by blast
qed

text \<open>(C13) Repeated allocation never hands out a page twice and serves exactly as many requests as
  there are available pages.\<close>

theorem pmm_alloc_seq_distinct:
  assumes "pmm_inv s" "n \<le> card (pmm_avail s)"
  shows "\<exists>as s'. alloc_seq pmm_alloc_page n s = Ret (as, s') \<and> length as = n \<and> distinct as \<and>
    set as \<subseteq> pmm_avail s \<and> pmm_avail s' = pmm_avail s - set as \<and> pmm_inv s'"
proof -
  obtain as s' where "alloc_seq pmm_alloc_page n s = Ret (as, s')"
    using pmm.alloc_seq_total [OF assms] by blast
  with pmm.alloc_seq_fresh [OF assms(1) this] show ?thesis by blast
qed

theorem pmm_alloc_seq_distinct_witness:
  "\<exists>as s'. alloc_seq pmm_alloc_page 1 pmm_demo = Ret (as, s') \<and> distinct as"
proof -
  have "0 < card (pmm_avail pmm_demo)" using pmm_demo_avail by (auto simp: card_gt_0_iff)
  then have "1 \<le> card (pmm_avail pmm_demo)" by linarith
  from pmm_alloc_seq_distinct [OF pmm_demo_inv this] show ?thesis by blast
qed

end
