(* ===== verification/Mmu.thy ===== *)
theory Mmu
  imports Pmm
begin

text \<open>
  Page tables, kernel/arch/x86_64/mmu.c and include/kernel/mmu.h: the address conversions, the
  four-level tables kept in pages of the physical memory manager, mapping and unmapping of 4 KiB
  pages, splitting of 2 MiB pages, the direct map and the protection of the kernel sections. The
  state is that of the physical memory manager, whose memory holds the tables. A table is reached
  in the code through the higher-half window, \<open>table_ptr\<close>; here it is reached by its physical
  address, which is the same byte as long as the page lies below 2 GiB (the size of the window).
  The root table of the kernel, the linker symbol \<open>pml4_table\<close>, is an argument. The TLB is not
  modelled, so \<open>arch_invlpg\<close> and \<open>mmu_reload_cr3\<close> have no effect on the state.
\<close>

section \<open>Address conversions\<close>

definition HIGHER_HALF_BASE :: u64 where "HIGHER_HALF_BASE = 0xFFFFFFFF80000000"
definition HHDM_BASE :: u64 where "HHDM_BASE = 0xFFFF800000000000"
definition ARCH_PHYS_BASE :: u64 where "ARCH_PHYS_BASE = 0"

definition phys_to_higher_half :: "u64 \<Rightarrow> u64" where
  "phys_to_higher_half phys = phys + HIGHER_HALF_BASE"

definition higher_half_to_phys :: "u64 \<Rightarrow> u64" where
  "higher_half_to_phys virt = virt - HIGHER_HALF_BASE"

definition phys_to_hhdm :: "u64 \<Rightarrow> u64" where
  "phys_to_hhdm phys = phys + HHDM_BASE"

definition hhdm_to_phys :: "u64 \<Rightarrow> u64" where
  "hhdm_to_phys virt = virt - HHDM_BASE"

definition phys_to_virt :: "u64 \<Rightarrow> u64" where
  "phys_to_virt phys = phys_to_higher_half phys"

definition virt_to_phys :: "u64 \<Rightarrow> u64" where
  "virt_to_phys v = (if v \<ge> HHDM_BASE then hhdm_to_phys v else higher_half_to_phys v + ARCH_PHYS_BASE)"

section \<open>Table entries\<close>

definition PTE_PRESENT :: u64 where "PTE_PRESENT = 1"
definition PTE_RW :: u64 where "PTE_RW = 2"
definition PTE_USER :: u64 where "PTE_USER = 4"
definition PTE_PS :: u64 where "PTE_PS = 0x80"
definition PTE_GLOBAL :: u64 where "PTE_GLOBAL = 0x100"
definition PTE_COW :: u64 where "PTE_COW = 0x200"
definition PTE_NX :: u64 where "PTE_NX = 0x8000000000000000"

definition MMU_FLAG_WRITE :: u64 where "MMU_FLAG_WRITE = 2"
definition MMU_FLAG_USER :: u64 where "MMU_FLAG_USER = 4"
definition MMU_FLAG_GLOBAL :: u64 where "MMU_FLAG_GLOBAL = 0x100"
definition MMU_FLAG_COW :: u64 where "MMU_FLAG_COW = 0x200"
definition MMU_FLAG_NOEXEC :: u64 where "MMU_FLAG_NOEXEC = 0x8000000000000000"

definition PAGE_SIZE_2M :: u64 where "PAGE_SIZE_2M = 0x200000"
definition HHDM_PML4_INDEX :: u64 where "HHDM_PML4_INDEX = drop_bit 39 HHDM_BASE AND 0x1FF"

definition pml4_index :: "u64 \<Rightarrow> u64" where "pml4_index virt = drop_bit 39 virt AND 0x1FF"
definition pdpt_index :: "u64 \<Rightarrow> u64" where "pdpt_index virt = drop_bit 30 virt AND 0x1FF"
definition pd_index :: "u64 \<Rightarrow> u64" where "pd_index virt = drop_bit 21 virt AND 0x1FF"
definition pt_index :: "u64 \<Rightarrow> u64" where "pt_index virt = drop_bit 12 virt AND 0x1FF"

definition get_entry :: "pmm \<Rightarrow> u64 \<Rightarrow> u64 \<Rightarrow> u64" where
  "get_entry s table index = rd64 (pmem s) (table + 8 * index)"

definition set_entry :: "u64 \<Rightarrow> u64 \<Rightarrow> u64 \<Rightarrow> pmm \<Rightarrow> pmm" where
  "set_entry table index v s = s\<lparr>pmem := wr64 (pmem s) (table + 8 * index) v\<rparr>"

definition page_of :: "u64 \<Rightarrow> u64" where "page_of entry = entry AND NOT 0xFFF"

definition zero_page :: "u64 \<Rightarrow> pmm \<Rightarrow> pmm" where
  "zero_page phys s = foldl (\<lambda>s i. set_entry phys (of_nat i) 0 s) s [0..<512]"

section \<open>Building the tables\<close>

text \<open>\<open>ensure_hhdm_pdpt\<close> and \<open>ensure_hhdm_pd\<close> have the same body, on an entry of the root and on
  an entry of the table below it.\<close>

definition ensure_hhdm :: "u64 \<Rightarrow> u64 \<Rightarrow> pmm \<Rightarrow> (u64 \<times> pmm) run" where
  "ensure_hhdm parent index s =
     (let entry = get_entry s parent index
      in if entry AND PTE_PRESENT = 0
         then bind_run (pmm_alloc_page s) (\<lambda>(phys, s1).
                Ret (phys, set_entry parent index (phys OR PTE_PRESENT OR PTE_RW) (zero_page phys s1)))
         else Ret (page_of entry, s))"

definition ensure_hhdm_pdpt :: "u64 \<Rightarrow> pmm \<Rightarrow> (u64 \<times> pmm) run" where
  "ensure_hhdm_pdpt root s = ensure_hhdm root HHDM_PML4_INDEX s"

definition ensure_hhdm_pd :: "u64 \<Rightarrow> u64 \<Rightarrow> pmm \<Rightarrow> (u64 \<times> pmm) run" where
  "ensure_hhdm_pd pdpt index s = ensure_hhdm pdpt index s"

text \<open>The two bodies of \<open>ensure_table\<close>: splitting a 2 MiB page, and following or creating a table.\<close>

definition split_2m :: "u64 \<Rightarrow> u64 \<Rightarrow> u64 \<Rightarrow> pmm \<Rightarrow> (u64 \<times> pmm) run" where
  "split_2m entry parent index s =
     (let base = entry AND NOT (PAGE_SIZE_2M - 1);
          flags_keep = entry AND (PTE_PRESENT OR PTE_RW OR PTE_USER OR PTE_GLOBAL OR PTE_NX)
      in bind_run (pmm_alloc_page s) (\<lambda>(phys, s1).
           let s2 = foldl (\<lambda>s i. set_entry phys (of_nat i) ((base + of_nat i * 4096) OR flags_keep) s)
                      s1 [0..<512]
           in Ret (phys, set_entry parent index
                (phys OR PTE_PRESENT OR
                   (flags_keep AND (PTE_RW OR PTE_USER OR PTE_GLOBAL OR PTE_NX))) s2)))"

definition ensure_table :: "u64 \<Rightarrow> u64 \<Rightarrow> u64 \<Rightarrow> pmm \<Rightarrow> (u64 \<times> pmm) run" where
  "ensure_table parent index flags s =
     (let entry = get_entry s parent index
      in if entry AND PTE_PS \<noteq> 0 then split_2m entry parent index s
         else if entry AND PTE_PRESENT = 0
         then bind_run (pmm_alloc_page s) (\<lambda>(phys, s1).
                let new_entry = phys OR PTE_PRESENT OR PTE_RW;
                    new_entry = (if flags AND MMU_FLAG_USER \<noteq> 0 then new_entry OR PTE_USER
                                 else new_entry)
                in Ret (phys, set_entry parent index new_entry (zero_page phys s1)))
         else Ret (page_of entry,
                if flags AND MMU_FLAG_USER \<noteq> 0 \<and> entry AND PTE_USER = 0
                then set_entry parent index (entry OR PTE_USER) s else s))"

definition mmu_create_user_pml4 :: "u64 \<Rightarrow> pmm \<Rightarrow> (u64 \<times> pmm) run" where
  "mmu_create_user_pml4 root s =
     bind_run (pmm_alloc_page s) (\<lambda>(phys, s1).
       if phys = 0 then Ret (0, s1)
       else Ret (phys, foldl (\<lambda>s i. set_entry phys (of_nat i) (get_entry s root (of_nat i)) s)
                         (zero_page phys s1) [256..<512]))"

definition hhdm_step :: "u64 \<Rightarrow> u64 \<Rightarrow> pmm \<Rightarrow> pmm run" where
  "hhdm_step pdpt phys s =
     (let virt = phys_to_hhdm phys
      in bind_run (ensure_hhdm_pd pdpt (pdpt_index virt) s) (\<lambda>(pd, s1).
           Ret (set_entry pd (pd_index virt)
                  (align_down phys PAGE_SIZE_2M OR PTE_PRESENT OR PTE_RW OR PTE_PS OR PTE_NX) s1)))"

fun hhdm_loop :: "u64 \<Rightarrow> u64 \<Rightarrow> nat \<Rightarrow> pmm \<Rightarrow> pmm run" where
  "hhdm_loop pdpt phys 0 s = Ret s"
| "hhdm_loop pdpt phys (Suc n) s =
     bind_run (hhdm_step pdpt phys s) (hhdm_loop pdpt (phys + PAGE_SIZE_2M) n)"

text \<open>The loop runs once per 2 MiB page from \<open>start\<close> to \<open>end\<close>, both multiples of 2 MiB.\<close>

definition mmu_map_hhdm_2m :: "u64 \<Rightarrow> u64 \<Rightarrow> u64 \<Rightarrow> pmm \<Rightarrow> pmm run" where
  "mmu_map_hhdm_2m root pstart pend s =
     (let start = align_down pstart PAGE_SIZE_2M;
          endp = align_up pend PAGE_SIZE_2M
      in if start \<ge> endp then Ret s
         else bind_run (ensure_hhdm_pdpt root s) (\<lambda>(pdpt, s1).
                hhdm_loop pdpt start (unat ((endp - start) div PAGE_SIZE_2M)) s1))"

section \<open>Mapping a page\<close>

definition leaf_entry :: "u64 \<Rightarrow> u64 \<Rightarrow> u64" where
  "leaf_entry phys flags =
     (let e = (phys AND NOT 0xFFF) OR PTE_PRESENT;
          e = (if flags AND MMU_FLAG_WRITE \<noteq> 0 then e OR PTE_RW else e);
          e = (if flags AND MMU_FLAG_USER \<noteq> 0 then e OR PTE_USER else e);
          e = (if flags AND MMU_FLAG_GLOBAL \<noteq> 0 then e OR PTE_GLOBAL else e);
          e = (if flags AND MMU_FLAG_COW \<noteq> 0 then e OR PTE_COW else e)
      in if flags AND MMU_FLAG_NOEXEC \<noteq> 0 then e OR PTE_NX else e)"

text \<open>The three nested calls of \<open>ensure_table\<close> from the root to the last table.\<close>

definition walk_tables :: "u64 \<Rightarrow> u64 \<Rightarrow> u64 \<Rightarrow> pmm \<Rightarrow> (u64 \<times> pmm) run" where
  "walk_tables root virt flags s =
     bind_run (ensure_table root (pml4_index virt) flags s) (\<lambda>(pdpt, s1).
     bind_run (ensure_table pdpt (pdpt_index virt) flags s1) (\<lambda>(pd, s2).
       ensure_table pd (pd_index virt) flags s2))"

definition mmu_map_page :: "u64 \<Rightarrow> u64 \<Rightarrow> u64 \<Rightarrow> u64 \<Rightarrow> pmm \<Rightarrow> pmm run" where
  "mmu_map_page root virt phys flags s =
     (if virt AND 0xFFF \<noteq> 0 \<or> phys AND 0xFFF \<noteq> 0
      then Panic ''mmu_map_page: unaligned'' (virt OR phys)
      else bind_run (walk_tables root virt flags s) (\<lambda>(pt, s').
        let existing = get_entry s' pt (pt_index virt)
        in if existing AND PTE_PRESENT \<noteq> 0 \<and> page_of existing \<noteq> phys AND NOT 0xFFF
           then Panic ''mmu_map_page: remap to different phys'' existing
           else Ret (set_entry pt (pt_index virt) (leaf_entry phys flags) s')))"

definition mmu_map_page_in :: "u64 \<Rightarrow> u64 \<Rightarrow> u64 \<Rightarrow> u64 \<Rightarrow> pmm \<Rightarrow> (int \<times> pmm) run" where
  "mmu_map_page_in pml4_phys virt phys flags s =
     (if pml4_phys = 0 \<or> pml4_phys AND 0xFFF \<noteq> 0 \<or> virt AND 0xFFF \<noteq> 0 \<or> phys AND 0xFFF \<noteq> 0
      then Ret (-1, s)
      else bind_run (walk_tables pml4_phys virt flags s) (\<lambda>(pt, s').
        let existing = get_entry s' pt (pt_index virt)
        in if existing AND PTE_PRESENT \<noteq> 0 \<and> page_of existing \<noteq> phys AND NOT 0xFFF
           then Ret (-1, s')
           else Ret (0, set_entry pt (pt_index virt) (leaf_entry phys flags) s')))"

definition mmu_unmap_page :: "u64 \<Rightarrow> u64 \<Rightarrow> pmm \<Rightarrow> pmm run" where
  "mmu_unmap_page root virt s =
     (if virt AND 0xFFF \<noteq> 0 then Panic ''mmu_unmap_page: unaligned'' virt
      else let pml4_entry = get_entry s root (pml4_index virt)
      in if pml4_entry AND PTE_PRESENT = 0 then Panic ''mmu_unmap_page: missing pml4 entry'' virt
      else let pdpt_entry = get_entry s (page_of pml4_entry) (pdpt_index virt)
      in if pdpt_entry AND PTE_PRESENT = 0 \<or> pdpt_entry AND PTE_PS \<noteq> 0
         then Panic ''mmu_unmap_page: missing pdpt entry'' virt
      else let pd_entry = get_entry s (page_of pdpt_entry) (pd_index virt)
      in if pd_entry AND PTE_PRESENT = 0 \<or> pd_entry AND PTE_PS \<noteq> 0
         then Panic ''mmu_unmap_page: missing pd entry'' virt
      else let pte = get_entry s (page_of pd_entry) (pt_index virt)
      in if pte AND PTE_PRESENT = 0 then Panic ''mmu_unmap_page: not mapped'' virt
      else Ret (set_entry (page_of pd_entry) (pt_index virt) 0 s))"

text \<open>The loops of \<open>mmu_protect_kernel_sections\<close>: every page from the first to the last byte of a
  section. The section bounds are linker symbols.\<close>

record sections =
  text_start :: u64
  text_end :: u64
  rodata_start :: u64
  rodata_end :: u64
  data_start :: u64
  data_end :: u64
  bss_start :: u64
  bss_end :: u64

fun protect_loop :: "u64 \<Rightarrow> u64 \<Rightarrow> u64 \<Rightarrow> nat \<Rightarrow> pmm \<Rightarrow> pmm run" where
  "protect_loop root flags phys 0 s = Ret s"
| "protect_loop root flags phys (Suc n) s =
     bind_run (mmu_map_page root (phys_to_higher_half phys) phys flags s)
       (protect_loop root flags (phys + 4096) n)"

definition protect_range :: "u64 \<Rightarrow> u64 \<Rightarrow> u64 \<Rightarrow> u64 \<Rightarrow> pmm \<Rightarrow> pmm run" where
  "protect_range root flags startp endp s =
     (let a = align_down startp 4096; b = align_up endp 4096
      in if a < b then protect_loop root flags a (unat ((b - a) div 4096)) s else Ret s)"

definition mmu_protect_kernel_sections :: "u64 \<Rightarrow> sections \<Rightarrow> pmm \<Rightarrow> pmm run" where
  "mmu_protect_kernel_sections root k s =
     (let text_flags = MMU_FLAG_GLOBAL;
          ro_flags = MMU_FLAG_GLOBAL OR MMU_FLAG_NOEXEC;
          data_flags = MMU_FLAG_GLOBAL OR MMU_FLAG_WRITE OR MMU_FLAG_NOEXEC
      in bind_run (protect_range root text_flags (virt_to_phys (text_start k)) (virt_to_phys (text_end k)) s)
        (\<lambda>s. bind_run (protect_range root ro_flags (virt_to_phys (rodata_start k)) (virt_to_phys (rodata_end k)) s)
        (\<lambda>s. bind_run (protect_range root data_flags (virt_to_phys (data_start k)) (virt_to_phys (data_end k)) s)
        (\<lambda>s. protect_range root data_flags (virt_to_phys (bss_start k)) (virt_to_phys (bss_end k)) s))))"

section \<open>Address translation by the processor\<close>

text \<open>
  The reference for the tables is the four-level walk of the processor: an entry's page is its bits
  12 to 51, an entry of the third level with the page-size bit maps 2 MiB. The result is the
  physical page, the entry that maps it, and the permissions: a page can be written, or used from
  user mode, when the entries of all levels say so, and executed when none has the no-execute bit.
\<close>

record hw_xlat =
  hw_phys :: u64
  hw_leaf :: u64
  hw_write :: bool
  hw_user :: bool
  hw_exec :: bool

definition hw_xlat_of :: "u64 \<Rightarrow> u64 list \<Rightarrow> hw_xlat" where
  "hw_xlat_of phys es =
     \<lparr>hw_phys = phys, hw_leaf = last es,
      hw_write = (\<forall>e\<in>set es. e AND PTE_RW \<noteq> 0),
      hw_user = (\<forall>e\<in>set es. e AND PTE_USER \<noteq> 0),
      hw_exec = (\<forall>e\<in>set es. e AND PTE_NX = 0)\<rparr>"

definition hw_page :: "u64 \<Rightarrow> u64" where
  "hw_page e = push_bit 12 (take_bit 40 (drop_bit 12 e))"

definition hw_walk :: "pmm \<Rightarrow> u64 \<Rightarrow> u64 \<Rightarrow> hw_xlat option" where
  "hw_walk s root virt =
     (let e4 = get_entry s root (pml4_index virt)
      in if e4 AND PTE_PRESENT = 0 then None
      else let e3 = get_entry s (hw_page e4) (pdpt_index virt)
      in if e3 AND PTE_PRESENT = 0 \<or> e3 AND PTE_PS \<noteq> 0 then None
      else let e2 = get_entry s (hw_page e3) (pd_index virt)
      in if e2 AND PTE_PRESENT = 0 then None
      else if e2 AND PTE_PS \<noteq> 0
      then Some (hw_xlat_of (hw_page e2 + 4096 * pt_index virt) [e4, e3, e2])
      else let e1 = get_entry s (hw_page e2) (pt_index virt)
      in if e1 AND PTE_PRESENT = 0 then None else Some (hw_xlat_of (hw_page e1) [e4, e3, e2, e1]))"

text \<open>The entries of the upper levels that exist on the path of an address, a large page included.\<close>

definition entry_used :: "u64 \<Rightarrow> bool" where
  "entry_used e \<longleftrightarrow> e AND PTE_PRESENT \<noteq> 0 \<or> e AND PTE_PS \<noteq> 0"

definition path_entries :: "pmm \<Rightarrow> u64 \<Rightarrow> u64 \<Rightarrow> u64 list" where
  "path_entries s root virt =
     (let e4 = get_entry s root (pml4_index virt);
          e3 = get_entry s (page_of e4) (pdpt_index virt);
          e2 = get_entry s (page_of e3) (pd_index virt)
      in if \<not> entry_used e4 then []
         else if \<not> entry_used e3 then [e4]
         else if \<not> entry_used e2 then [e4, e3] else [e4, e3, e2])"

section \<open>Pages that hold tables\<close>

definition tbl :: "u64 \<Rightarrow> bool" where
  "tbl t \<longleftrightarrow> 4096 dvd unat t \<and> unat t < 2 ^ 52"

definition frame_page :: "pmm \<Rightarrow> u64 \<Rightarrow> bool" where
  "frame_page s t \<longleftrightarrow> tbl t \<and>
     (\<forall>r\<in>set (regions s). {unat t ..< unat t + 4096} \<inter> bm_range r = {})"

text \<open>A page that may hold a table: page-aligned, below the physical address limit, not available
  for allocation, and not holding allocator metadata.\<close>

definition safe_page :: "pmm \<Rightarrow> u64 \<Rightarrow> bool" where
  "safe_page s t \<longleftrightarrow> frame_page s t \<and> t \<notin> pmm_avail s"

definition phys_bounded :: "pmm \<Rightarrow> bool" where
  "phys_bounded s \<longleftrightarrow> (\<forall>r\<in>set (regions s). unat (phys_end r) \<le> 2 ^ 52)"

lemma entry_addr:
  assumes "tbl t" "i < 512"
  shows "unat (t + 8 * i) = unat t + 8 * unat i"
proof -
  have i: "unat i < 512" using assms(2) by (simp add: word_less_nat_alt)
  then have "unat (8 * i) = 8 * unat i" by (subst unat_mult_no_wrap) simp_all
  then show ?thesis using assms(1) i by (subst unat_add_no_wrap) (simp_all add: tbl_def)
qed

lemma tbl_apart:
  assumes "tbl t" "tbl t'" "t \<noteq> t'"
  shows "unat t + 4096 \<le> unat t' \<or> unat t' + 4096 \<le> unat t"
proof -
  obtain k k' where k: "unat t = 4096 * k" "unat t' = 4096 * k'"
    using assms(1,2) by (auto simp: tbl_def elim!: dvdE)
  with assms(3) have "k \<noteq> k'" by (auto simp: word_eq_unat)
  with k show ?thesis by linarith
qed

lemma entry_apart:
  assumes t: "tbl t" "tbl t'" and i: "i < 512" "i' < 512" and ne: "(t, i) \<noteq> (t', i')"
  shows "unat (t + 8 * i) + 8 \<le> unat (t' + 8 * i') \<or> unat (t' + 8 * i') + 8 \<le> unat (t + 8 * i)"
proof (cases "t = t'")
  case True
  with ne have "unat i \<noteq> unat i'" by (auto simp: word_eq_unat)
  then show ?thesis using entry_addr [OF t(1) i(1)] entry_addr [OF t(2) i(2)] True by auto
next
  case False
  have "unat i < 512" "unat i' < 512" using i by (simp_all add: word_less_nat_alt)
  then show ?thesis
    using tbl_apart [OF t False] entry_addr [OF t(1) i(1)] entry_addr [OF t(2) i(2)] by auto
qed

lemma entry_fits: "tbl t \<Longrightarrow> i < 512 \<Longrightarrow> unat (t + 8 * i) + 8 \<le> 2 ^ 64"
  using entry_addr [of t i] by (simp add: tbl_def word_less_nat_alt)

lemma get_set_entry:
  assumes "tbl t" "tbl t'" "i < 512" "i' < 512"
  shows "get_entry (set_entry t i v s) t' i' = (if (t', i') = (t, i) then v else get_entry s t' i')"
proof (cases "(t', i') = (t, i)")
  case False
  then have "(t, i) \<noteq> (t', i')" by auto
  from rd64_wr64_other [OF entry_fits [OF assms(1,3)] entry_fits [OF assms(2,4)]
      entry_apart [OF assms this], of "pmem s" v] False
  show ?thesis by (auto simp: get_entry_def set_entry_def)
qed (simp add: get_entry_def set_entry_def)

lemma set_entry_fields [simp]:
  "regions (set_entry t i v s) = regions s" "used_pages (set_entry t i v s) = used_pages s"
  "pmm_cursor_region (set_entry t i v s) = pmm_cursor_region s"
  by (simp_all add: set_entry_def)

lemma set_entry_frame:
  assumes "frame_page s t" "i < 512" "r \<in> set (regions s)" "unat x \<in> bm_range r"
  shows "pmem (set_entry t i v s) x = pmem s x"
proof -
  have t: "tbl t" using assms(1) by (simp add: frame_page_def)
  have "unat x \<notin> {unat t ..< unat t + 4096}"
    using assms(1,3,4) unfolding frame_page_def by blast
  moreover have "unat i < 512" using assms(2) by (simp add: word_less_nat_alt)
  ultimately show ?thesis
    using entry_addr [OF t assms(2)] entry_fits [OF t assms(2)]
    by (auto simp: set_entry_def wr64_def intro!: wr_bytes_outside)
qed

text \<open>The allocator state is read off the bitmaps only.\<close>

lemma pmm_inv_cong:
  assumes inv: "pmm_inv s" and eq: "regions s' = regions s" "used_pages s' = used_pages s"
      "pmm_cursor_region s' = pmm_cursor_region s"
    and mem: "\<And>r x. r \<in> set (regions s) \<Longrightarrow> unat x \<in> bm_range r \<Longrightarrow> pmem s' x = pmem s x"
  shows "pmm_inv s'" "pmm_avail s' = pmm_avail s"
proof -
  have t: "test_bit_bm (pmem s') (regions s ! r) (of_nat p) = test_bit_bm (pmem s) (regions s ! r) (of_nat p)"
    if r: "r < length (regions s)" and p: "p < unat (total_pages (regions s ! r))" for r p
  proof -
    let ?g = "regions s ! r"
    have ok: "region_ok ?g" by (rule pmm_inv_region [OF inv r])
    have "p div 8 < unat (bitmap_bytes ?g)" "total_pages ?g \<noteq> 0"
      using ok p by (auto simp: region_ok_def)
    then have "unat (bitmap_phys ?g + of_nat p div 8) \<in> bm_range ?g"
      using bm_addr [OF ok p] by (simp add: bm_range_def)
    from mem [OF nth_mem [OF r] this] show ?thesis by (simp add: test_bit_bm_def)
  qed
  then have pu: "pages_used (pmem s') (regions s ! r) = pages_used (pmem s) (regions s ! r)"
    if "r < length (regions s)" for r
    using that by (auto simp: pages_used_def)
  show "pmm_inv s'" using inv pu unfolding pmm_inv_def eq by simp
  have "usable s' = usable s" by (rule usable_cong [OF eq(1)])
  moreover have "page_free s' r p = page_free s r p" if "(r, p) \<in> usable s" for r p
    using that t by (simp add: page_free_def usable_def eq)
  ultimately show "pmm_avail s' = pmm_avail s"
    unfolding pmm_avail_def eq by (auto simp: image_iff)
qed

lemma set_entry_inv:
  assumes "pmm_inv s" "frame_page s t" "i < 512"
  shows "pmm_inv (set_entry t i v s)" "pmm_avail (set_entry t i v s) = pmm_avail s"
  by (rule pmm_inv_cong [OF assms(1)]; use set_entry_frame [OF assms(2,3)] in simp)+

text \<open>Filling the entries of a table one by one, as \<open>zero_page\<close> and the split loop do.\<close>

definition fill_table :: "u64 \<Rightarrow> (nat \<Rightarrow> u64) \<Rightarrow> nat list \<Rightarrow> pmm \<Rightarrow> pmm" where
  "fill_table t f is s = foldl (\<lambda>s i. set_entry t (of_nat i) (f i) s) s is"

lemma of_nat_index [simp]: "i < 512 \<Longrightarrow> (of_nat i :: u64) < 512"
  by (simp add: word_less_nat_alt unat_of_nat take_bit_nat_eq_self)

lemma fill_table_inv:
  assumes "pmm_inv s" "frame_page s t" "\<forall>i\<in>set is. i < 512"
  shows "pmm_inv (fill_table t f is s) \<and> pmm_avail (fill_table t f is s) = pmm_avail s \<and>
    regions (fill_table t f is s) = regions s"
  using assms
proof (induction "is" arbitrary: s)
  case (Cons i "is")
  have i: "(of_nat i :: u64) < 512" using Cons.prems(3) by simp
  note se = set_entry_inv [OF Cons.prems(1,2) i, of "f i"]
  have fp: "frame_page (set_entry t (of_nat i) (f i) s) t" using Cons.prems(2) by (simp add: frame_page_def)
  show ?case using Cons.IH [OF se(1) fp] se(2) Cons.prems(3) by (simp add: fill_table_def)
qed (simp add: fill_table_def)

lemma fill_table_other:
  assumes "tbl t" "tbl p" "p \<noteq> t" "j < 512" "\<forall>i\<in>set is. i < 512"
  shows "get_entry (fill_table t f is s) p j = get_entry s p j"
  using assms(5)
proof (induction "is" arbitrary: s)
  case (Cons i "is")
  have i: "(of_nat i :: u64) < 512" using Cons.prems by simp
  from Cons.IH [of "set_entry t (of_nat i) (f i) s"] Cons.prems show ?case
    using get_set_entry [OF assms(1,2) i assms(4)] assms(3) by (simp add: fill_table_def)
qed (simp add: fill_table_def)

lemma fill_table_same:
  assumes "tbl t" "j < 512" "n \<le> 512"
  shows "get_entry (fill_table t f [0..<n] s) t j =
           (if unat j < n then f (unat j) else get_entry s t j)"
  using assms(3)
proof (induction n)
  case (Suc n)
  have i: "(of_nat n :: u64) < 512" and u: "unat (of_nat n :: u64) = n"
    using Suc.prems by (simp_all add: word_less_nat_alt unat_of_nat take_bit_nat_eq_self)
  have "j = of_nat n \<longleftrightarrow> unat j = n" using u by (auto simp: word_eq_unat)
  with Suc get_set_entry [OF assms(1,1) i assms(2)] show ?case
    by (auto simp: fill_table_def)
qed (simp add: fill_table_def)

lemma zero_page_fill: "zero_page t s = fill_table t (\<lambda>_. 0) [0..<512] s"
  by (simp add: zero_page_def fill_table_def)

lemma pmm_page_frame:
  assumes inv: "pmm_inv s" and bd: "phys_bounded s" and a: "a \<in> pmm_pages s"
  shows "frame_page s a"
proof -
  from a obtain r p where rp: "(r, p) \<in> usable s" and a': "a = page_addr (regions s ! r) p"
    by (auto simp: pmm_pages_def)
  note ur = usable_facts [OF inv rp]
  let ?g = "regions s ! r"
  have u: "unat a = unat (phys_start ?g) + 4096 * p"
    unfolding a' by (rule unat_page_addr [OF ur(1,3)])
  have al: "4096 dvd unat (phys_start ?g)" using ur(1) by (simp add: region_ok_def)
  have "unat (phys_end ?g) \<le> 2 ^ 52" using bd ur(2) by (simp add: phys_bounded_def)
  then have "unat a < 2 ^ 52" using region_extent [OF ur(1)] ur(3) u by simp
  moreover have "{unat a ..< unat a + 4096} \<inter> bm_range g' = {}" if g': "g' \<in> set (regions s)" for g'
  proof -
    have "page_range ?g p \<inter> bm_range g' = {}"
      using inv g' nth_mem [OF ur(2)] rp ur(3) unfolding pmm_inv_def usable_def by blast
    then show ?thesis by (simp add: page_range_def u algebra_simps)
  qed
  ultimately show ?thesis using al u by (simp add: frame_page_def tbl_def)
qed

lemma alloc_entry:
  assumes inv: "pmm_inv s" and ret: "pmm_alloc_page s = Ret (a, s')"
  shows "regions s' = regions s" "frame_page s p \<Longrightarrow> j < 512 \<Longrightarrow> get_entry s' p j = get_entry s p j"
proof -
  from pmm_alloc_page_cases [OF inv] ret obtain r q where
    rq: "(r, q) \<in> usable s" and t: "take_page s r q = (a, s')" by auto
  note ur = usable_facts [OF inv rq]
  show "regions s' = regions s" using t by (auto simp: take_page_def)
  have m: "pmem s' = set_bit_bm (pmem s) (regions s ! r) (of_nat q)" using t by (auto simp: take_page_def)
  assume fp: "frame_page s p" and j: "j < 512"
  have tp: "tbl p" using fp by (simp add: frame_page_def)
  have ja: "unat (p + 8 * j) = unat p + 8 * unat j" "unat j < 512"
    using entry_addr [OF tp j] j by (simp_all add: word_less_nat_alt)
  have "pmem s' (p + 8 * j + of_nat i) = pmem s (p + 8 * j + of_nat i)" if i: "i < 8" for i
  proof -
    have "unat (p + 8 * j + of_nat i) = unat p + 8 * unat j + i"
      using i ja tp by (subst unat_add_no_wrap) (simp_all add: unat_of_nat take_bit_nat_eq_self tbl_def)
    then have "unat (p + 8 * j + of_nat i) \<in> {unat p ..< unat p + 4096}" using i ja by simp
    then have "unat (p + 8 * j + of_nat i) \<notin> bm_range (regions s ! r)"
      using fp nth_mem [OF ur(2)] unfolding frame_page_def by blast
    then show ?thesis using bm_update_frame(1) [OF ur(1,3)] by (simp add: m)
  qed
  then have "rd_bytes (pmem s') (p + 8 * j) 8 = rd_bytes (pmem s) (p + 8 * j) 8"
    by (intro rd_bytes_cong) blast
  then show "get_entry s' p j = get_entry s p j" by (simp add: get_entry_def rd64_def)
qed

section \<open>Entries\<close>

lemma tbl_bits:
  assumes "tbl t" shows "n < 12 \<Longrightarrow> \<not> bit t n" "52 \<le> n \<Longrightarrow> \<not> bit t n"
proof -
  have "take_bit 12 t = 0"
    using assms by (simp add: tbl_def word_eq_unat take_bit_eq_mod unat_mod dvd_eq_mod_eq_0)
  then show "\<not> bit t n" if "n < 12"
    using that by (metis bit_0_eq bit_take_bit_iff bot_apply bot_bool_def)
  have "take_bit 52 t = t"
    using assms by (simp add: tbl_def word_eq_unat unsigned_take_bit_eq take_bit_nat_eq_self)
  then show "\<not> bit t n" if "52 \<le> n"
    using that by (metis bit_take_bit_iff leD)
qed

lemma hw_page_bit: "bit (hw_page e) n \<longleftrightarrow> 12 \<le> n \<and> n < 52 \<and> bit e n"
  by (auto simp: hw_page_def bit_simps)

lemma hw_page_tbl [simp]:
  assumes "tbl t" shows "hw_page t = t"
proof (rule bit_word_eqI)
  fix n
  show "bit (hw_page t) n = bit t n"
    using tbl_bits [OF assms, of n] by (cases "n < 12"; cases "n < 52"; simp add: hw_page_bit)
qed

lemma hw_page_or: "hw_page (a OR b) = hw_page a OR hw_page b"
  by (rule bit_word_eqI) (auto simp: hw_page_bit bit_simps)

lemma hw_page_flags [simp]:
  "hw_page PTE_PRESENT = 0" "hw_page PTE_RW = 0" "hw_page PTE_USER = 0" "hw_page PTE_GLOBAL = 0"
  "hw_page PTE_COW = 0" "hw_page PTE_NX = 0" "hw_page 0 = 0"
  by (simp_all add: hw_page_def PTE_PRESENT_def PTE_RW_def PTE_USER_def PTE_GLOBAL_def PTE_COW_def PTE_NX_def)

lemma hw_page_and_flags:
  "hw_page m = 0 \<Longrightarrow> hw_page (a AND m) = 0"
  by (auto simp: bit_eq_iff hw_page_bit bit_simps)

lemma page_of_bit: "bit (page_of e) n \<longleftrightarrow> 12 \<le> n \<and> n < 64 \<and> bit e n"
proof -
  have e: "(0xFFF :: u64) = mask 12" by (simp add: mask_eq_exp_minus_1)
  show ?thesis unfolding page_of_def e by (auto simp: bit_simps dest: bit_imp_le_length)
qed

lemma hw_page_page_of:
  assumes "tbl (page_of e)" shows "hw_page e = page_of e"
proof (rule bit_word_eqI)
  fix n assume "n < LENGTH(64)"
  then show "bit (hw_page e) n = bit (page_of e) n"
    using tbl_bits(2) [OF assms, of n] by (cases "n < 52") (auto simp: hw_page_bit page_of_bit)
qed

lemma tbl_and_low:
  assumes "tbl t" "take_bit 12 m = m" shows "t AND m = 0"
proof (rule bit_word_eqI)
  fix n
  have "bit m n \<Longrightarrow> n < 12" by (metis assms(2) bit_take_bit_iff)
  then show "bit (t AND m) n = bit 0 n"
    using tbl_bits(1) [OF assms(1), of n] by (auto simp: bit_simps)
qed

lemma tbl_and_flags:
  assumes "tbl t" shows "t AND PTE_PRESENT = 0" "t AND PTE_PS = 0" "t AND PTE_USER = 0"
    "t AND PTE_RW = 0" "t AND PTE_GLOBAL = 0" "t AND PTE_COW = 0" "t AND PTE_NX = 0"
proof -
  show "t AND PTE_PRESENT = 0" "t AND PTE_PS = 0" "t AND PTE_USER = 0" "t AND PTE_RW = 0"
    "t AND PTE_GLOBAL = 0" "t AND PTE_COW = 0"
    using assms by (auto intro!: tbl_and_low
        simp: PTE_PRESENT_def PTE_PS_def PTE_USER_def PTE_RW_def PTE_GLOBAL_def PTE_COW_def)
  have e: "PTE_NX = push_bit 63 1" by (simp add: PTE_NX_def)
  have "bit PTE_NX n \<longleftrightarrow> n = 63" for n unfolding e bit_push_bit_iff bit_1_iff by auto
  then show "t AND PTE_NX = 0"
    using tbl_bits(2) [OF assms, of 63] by (intro bit_word_eqI) (auto simp: bit_and_iff)
qed

lemma or_and_distrib: "(a OR b) AND (c :: u64) = (a AND c) OR (b AND c)"
  by (rule bit_word_eqI) (auto simp: bit_simps)

lemma flag_and [simp]:
  "PTE_PRESENT \<noteq> 0" "PTE_RW AND PTE_PRESENT = 0" "PTE_USER AND PTE_PRESENT = 0"
  "PTE_PRESENT AND PTE_PS = 0" "PTE_RW AND PTE_PS = 0" "PTE_USER AND PTE_PS = 0"
  "PTE_GLOBAL AND PTE_PRESENT = 0" "PTE_COW AND PTE_PRESENT = 0" "PTE_NX AND PTE_PRESENT = 0"
  "PTE_PRESENT AND PTE_RW = 0" "PTE_PRESENT AND PTE_USER = 0" "PTE_PRESENT AND PTE_NX = 0"
  "PTE_PRESENT AND PTE_GLOBAL = 0" "PTE_PRESENT AND PTE_COW = 0"
  "PTE_RW AND PTE_USER = 0" "PTE_RW AND PTE_NX = 0" "PTE_RW AND PTE_GLOBAL = 0" "PTE_RW AND PTE_COW = 0"
  "PTE_USER AND PTE_RW = 0" "PTE_USER AND PTE_NX = 0" "PTE_USER AND PTE_GLOBAL = 0" "PTE_USER AND PTE_COW = 0"
  "PTE_GLOBAL AND PTE_RW = 0" "PTE_GLOBAL AND PTE_USER = 0" "PTE_GLOBAL AND PTE_NX = 0" "PTE_GLOBAL AND PTE_COW = 0"
  "PTE_COW AND PTE_RW = 0" "PTE_COW AND PTE_USER = 0" "PTE_COW AND PTE_NX = 0" "PTE_COW AND PTE_GLOBAL = 0"
  "PTE_NX AND PTE_RW = 0" "PTE_NX AND PTE_USER = 0" "PTE_NX AND PTE_GLOBAL = 0" "PTE_NX AND PTE_COW = 0"
  "PTE_RW \<noteq> 0" "PTE_USER \<noteq> 0" "PTE_GLOBAL \<noteq> 0" "PTE_COW \<noteq> 0" "PTE_NX \<noteq> 0"
  by (simp_all add: PTE_PRESENT_def PTE_RW_def PTE_USER_def PTE_PS_def PTE_GLOBAL_def PTE_COW_def PTE_NX_def)

text \<open>A table entry that refers to table \<open>t\<close>.\<close>

definition points_to :: "u64 \<Rightarrow> u64 \<Rightarrow> bool" where
  "points_to e t \<longleftrightarrow> e AND PTE_PRESENT \<noteq> 0 \<and> e AND PTE_PS = 0 \<and> hw_page e = t"

lemma points_to_new:
  assumes "tbl t"
  shows "points_to (t OR PTE_PRESENT OR PTE_RW) t" "points_to (t OR PTE_PRESENT OR PTE_RW OR PTE_USER) t"
  using assms by (simp_all add: points_to_def or_and_distrib tbl_and_flags hw_page_or or_eq_0_iff)

lemma points_to_user:
  assumes "points_to e t" shows "points_to (e OR PTE_USER) t"
  using assms by (simp add: points_to_def or_and_distrib hw_page_or)

lemma split_flags_ps: "((e AND (PTE_PRESENT OR PTE_RW OR PTE_USER OR PTE_GLOBAL OR PTE_NX)) AND
    (PTE_RW OR PTE_USER OR PTE_GLOBAL OR PTE_NX)) AND PTE_PS = 0"
  "hw_page ((e AND (PTE_PRESENT OR PTE_RW OR PTE_USER OR PTE_GLOBAL OR PTE_NX)) AND
    (PTE_RW OR PTE_USER OR PTE_GLOBAL OR PTE_NX)) = 0"
proof -
  show "hw_page ((e AND (PTE_PRESENT OR PTE_RW OR PTE_USER OR PTE_GLOBAL OR PTE_NX)) AND
    (PTE_RW OR PTE_USER OR PTE_GLOBAL OR PTE_NX)) = 0"
    by (rule hw_page_and_flags) (simp add: hw_page_or)
  have "(PTE_RW OR PTE_USER OR PTE_GLOBAL OR PTE_NX) AND PTE_PS = 0"
    by (simp add: PTE_RW_def PTE_USER_def PTE_GLOBAL_def PTE_NX_def PTE_PS_def)
  then show "((e AND (PTE_PRESENT OR PTE_RW OR PTE_USER OR PTE_GLOBAL OR PTE_NX)) AND
    (PTE_RW OR PTE_USER OR PTE_GLOBAL OR PTE_NX)) AND PTE_PS = 0"
    by (simp only: and.assoc) simp
qed

lemma points_to_split:
  assumes "tbl t"
  shows "points_to (t OR PTE_PRESENT OR
    ((e AND (PTE_PRESENT OR PTE_RW OR PTE_USER OR PTE_GLOBAL OR PTE_NX)) AND
     (PTE_RW OR PTE_USER OR PTE_GLOBAL OR PTE_NX))) t"
  unfolding points_to_def or_and_distrib hw_page_or split_flags_ps
  using assms by (simp add: tbl_and_flags or_eq_0_iff)

text \<open>The permissions of an entry after \<open>ensure_table\<close>, from those of the entry before: a new entry
  grants everything the flags ask for, an existing one keeps its write and no-execute bits and
  gains the user bit on demand, the entry of a split page keeps all three.\<close>

definition level_flags :: "u64 \<Rightarrow> u64 \<Rightarrow> u64 \<Rightarrow> bool" where
  "level_flags flags e e' \<longleftrightarrow>
     (e' AND PTE_RW \<noteq> 0 \<longleftrightarrow> (entry_used e \<longrightarrow> e AND PTE_RW \<noteq> 0)) \<and>
     (e' AND PTE_NX = 0 \<longleftrightarrow> (entry_used e \<longrightarrow> e AND PTE_NX = 0)) \<and>
     (flags AND MMU_FLAG_USER \<noteq> 0 \<longrightarrow>
        (e' AND PTE_USER \<noteq> 0 \<longleftrightarrow> (e AND PTE_PS \<noteq> 0 \<longrightarrow> e AND PTE_USER \<noteq> 0)))"

lemma level_flags_new:
  assumes "tbl t" "\<not> entry_used e"
  shows "level_flags flags e (if flags AND MMU_FLAG_USER \<noteq> 0 then t OR PTE_PRESENT OR PTE_RW OR PTE_USER
     else t OR PTE_PRESENT OR PTE_RW)"
  using assms by (simp add: level_flags_def entry_used_def or_and_distrib tbl_and_flags or_eq_0_iff)

lemma level_flags_present:
  assumes "entry_used e" "e AND PTE_PS = 0"
  shows "level_flags flags e (if flags AND MMU_FLAG_USER \<noteq> 0 \<and> e AND PTE_USER = 0 then e OR PTE_USER else e)"
  using assms by (simp add: level_flags_def or_and_distrib or_eq_0_iff)

lemma level_flags_split:
  assumes "tbl t" "e AND PTE_PS \<noteq> 0"
  shows "level_flags flags e (t OR PTE_PRESENT OR
    ((e AND (PTE_PRESENT OR PTE_RW OR PTE_USER OR PTE_GLOBAL OR PTE_NX)) AND
     (PTE_RW OR PTE_USER OR PTE_GLOBAL OR PTE_NX)))"
proof -
  let ?k = "(e AND (PTE_PRESENT OR PTE_RW OR PTE_USER OR PTE_GLOBAL OR PTE_NX)) AND
     (PTE_RW OR PTE_USER OR PTE_GLOBAL OR PTE_NX)"
  have "?k AND f = e AND f" if "f \<in> {PTE_RW, PTE_USER, PTE_NX}" for f
    using that unfolding and.assoc
    by (auto simp: PTE_PRESENT_def PTE_RW_def PTE_USER_def PTE_GLOBAL_def PTE_NX_def)
  then have "?k AND PTE_RW = e AND PTE_RW" "?k AND PTE_USER = e AND PTE_USER" "?k AND PTE_NX = e AND PTE_NX"
    by simp_all
  then show ?thesis
    unfolding level_flags_def or_and_distrib entry_used_def
    using assms by (simp add: tbl_and_flags)
qed

section \<open>One level of the walk\<close>

lemma ensure_table_unfold:
  "ensure_table parent i flags s =
    (let e = get_entry s parent i
     in if e AND PTE_PS \<noteq> 0 then
          bind_run (pmm_alloc_page s) (\<lambda>(phys, s1). Ret (phys, set_entry parent i
            (phys OR PTE_PRESENT OR ((e AND (PTE_PRESENT OR PTE_RW OR PTE_USER OR PTE_GLOBAL OR PTE_NX)) AND
               (PTE_RW OR PTE_USER OR PTE_GLOBAL OR PTE_NX)))
            (fill_table phys (\<lambda>j. ((e AND NOT (PAGE_SIZE_2M - 1)) + of_nat j * 4096) OR
               (e AND (PTE_PRESENT OR PTE_RW OR PTE_USER OR PTE_GLOBAL OR PTE_NX))) [0..<512] s1)))
        else if e AND PTE_PRESENT = 0 then
          bind_run (pmm_alloc_page s) (\<lambda>(phys, s1). Ret (phys, set_entry parent i
            (if flags AND MMU_FLAG_USER \<noteq> 0 then phys OR PTE_PRESENT OR PTE_RW OR PTE_USER
             else phys OR PTE_PRESENT OR PTE_RW) (fill_table phys (\<lambda>_. 0) [0..<512] s1)))
        else Ret (page_of e,
          if flags AND MMU_FLAG_USER \<noteq> 0 \<and> e AND PTE_USER = 0
          then set_entry parent i (e OR PTE_USER) s else s))"
  by (simp add: ensure_table_def split_2m_def Let_def fill_table_def zero_page_def or.assoc
      cong: if_cong)

definition present_table :: "u64 \<Rightarrow> bool" where
  "present_table e \<longleftrightarrow> e AND PTE_PRESENT \<noteq> 0 \<and> e AND PTE_PS = 0"

text \<open>One call of \<open>ensure_table\<close>: afterwards the entry refers to the returned table, which is a safe
  page, either freshly allocated or the one the entry referred to before; all other entries of
  safe pages are as before.\<close>

lemma ensure_table_new:
  assumes inv: "pmm_inv s" and bd: "phys_bounded s" and par: "safe_page s parent" and i: "i < 512"
    and al: "pmm_alloc_page s = Ret (t, s1)" and e: "\<And>t. tbl t \<Longrightarrow> points_to (new_e t) t"
    and s': "s' = set_entry parent i (new_e t) (fill_table t f [0..<512] s1)"
  shows "pmm_inv s'" "regions s' = regions s" "safe_page s' t" "t \<in> pmm_avail s"
    "points_to (get_entry s' parent i) t" "safe_page s p \<Longrightarrow> safe_page s' p"
    "safe_page s p \<Longrightarrow> j < 512 \<Longrightarrow> (p, j) \<noteq> (parent, i) \<Longrightarrow> get_entry s' p j = get_entry s p j"
    "j < 512 \<Longrightarrow> get_entry s' t j = f (unat j)"
proof -
  note a = pmm_alloc_page_ret [OF inv al]
  have rg: "regions s1 = regions s" by (rule alloc_entry(1) [OF inv al])
  have fr: "frame_page s1 p = frame_page s p" for p by (simp add: frame_page_def rg)
  have tp: "t \<in> pmm_pages s" using a(1) pmm.avail_pages by blast
  have ft: "frame_page s t" by (rule pmm_page_frame [OF inv bd tp])
  then have tt: "tbl t" by (simp add: frame_page_def)
  have pf: "frame_page s parent" "tbl parent" using par by (simp_all add: safe_page_def frame_page_def)
  have ne: "p \<noteq> t" if "safe_page s p" for p using that a(1) by (auto simp: safe_page_def)
  let ?s2 = "fill_table t f [0..<512] s1"
  have fi: "pmm_inv ?s2" "pmm_avail ?s2 = pmm_avail s1" "regions ?s2 = regions s1"
    using fill_table_inv [OF a(4), of t "[0..<512]" f] ft by (simp_all add: fr)
  have fp2: "frame_page ?s2 parent" using pf(1) by (simp add: frame_page_def fi(3) rg)
  note se = set_entry_inv [OF fi(1) fp2 i, of "new_e t"]
  show "pmm_inv s'" by (simp add: s' se)
  show rs': "regions s' = regions s" by (simp add: s' fi(3) rg)
  have av: "pmm_avail s' = pmm_avail s - {t}" by (simp add: s' se(2) fi(2) a(2))
  show "safe_page s' t" using ft by (simp add: safe_page_def av frame_page_def rs')
  show "t \<in> pmm_avail s" by (rule a(1))
  show "points_to (get_entry s' parent i) t"
    using get_set_entry [OF pf(2,2) i i] e [OF tt] by (simp add: s')
  show "safe_page s' p" if "safe_page s p"
    using that by (simp add: safe_page_def av frame_page_def rs')
  show "get_entry s' p j = get_entry s p j" if p: "safe_page s p" and j: "j < 512" and n: "(p, j) \<noteq> (parent, i)"
  proof -
    have fp: "frame_page s p" "tbl p" using p by (simp_all add: safe_page_def frame_page_def)
    have "get_entry s' p j = get_entry ?s2 p j" using get_set_entry [OF pf(2) fp(2) i j] n by (auto simp: s')
    also have "\<dots> = get_entry s1 p j" by (rule fill_table_other [OF tt fp(2) ne [OF p] j]) simp
    also have "\<dots> = get_entry s p j" by (rule alloc_entry(2) [OF inv al fp(1) j])
    finally show ?thesis .
  qed
  show "get_entry s' t j = f (unat j)" if j: "j < 512"
  proof -
    have "parent \<noteq> t" by (rule ne [OF par])
    then have "get_entry s' t j = get_entry ?s2 t j" using get_set_entry [OF pf(2) tt i j] by (auto simp: s')
    also have "\<dots> = f (unat j)" using fill_table_same [OF tt j, of 512 f s1] j by (simp add: word_less_nat_alt)
    finally show ?thesis .
  qed
qed

lemma ensure_table_spec:
  assumes inv: "pmm_inv s" and bd: "phys_bounded s" and par: "safe_page s parent" and i: "i < 512"
    and old: "present_table (get_entry s parent i) \<Longrightarrow> safe_page s (page_of (get_entry s parent i))"
    and ret: "ensure_table parent i flags s = Ret (t, s')"
  shows "pmm_inv s'" "phys_bounded s'" "safe_page s' t" "points_to (get_entry s' parent i) t"
    "\<And>p. safe_page s p \<Longrightarrow> safe_page s' p"
    "\<And>p j. safe_page s p \<Longrightarrow> j < 512 \<Longrightarrow> (p, j) \<noteq> (parent, i) \<Longrightarrow> get_entry s' p j = get_entry s p j"
    "present_table (get_entry s parent i) \<and> t = page_of (get_entry s parent i) \<or>
     \<not> present_table (get_entry s parent i) \<and> t \<in> pmm_avail s \<and>
       (get_entry s parent i AND PTE_PS = 0 \<longrightarrow> (\<forall>j<512. get_entry s' t j = 0))"
    "level_flags flags (get_entry s parent i) (get_entry s' parent i)"
proof -
  let ?e = "get_entry s parent i"
  have G: "pmm_inv s' \<and> phys_bounded s' \<and> safe_page s' t \<and> points_to (get_entry s' parent i) t \<and>
    (\<forall>p. safe_page s p \<longrightarrow> safe_page s' p) \<and>
    (\<forall>p j. safe_page s p \<and> j < 512 \<and> (p, j) \<noteq> (parent, i) \<longrightarrow> get_entry s' p j = get_entry s p j) \<and>
    (present_table ?e \<and> t = page_of ?e \<or> \<not> present_table ?e \<and> t \<in> pmm_avail s \<and>
       (?e AND PTE_PS = 0 \<longrightarrow> (\<forall>j<512. get_entry s' t j = 0))) \<and>
    level_flags flags ?e (get_entry s' parent i)"
  proof (cases "present_table ?e")
    case True
    note so = old [OF True]
    have tp: "tbl (page_of ?e)" "tbl parent" "frame_page s parent"
      using so par by (simp_all add: safe_page_def frame_page_def)
    have po: "points_to ?e (page_of ?e)"
      using True hw_page_page_of [OF tp(1)] by (simp add: points_to_def present_table_def)
    have eu: "entry_used ?e" "?e AND PTE_PS = 0" using True by (simp_all add: present_table_def entry_used_def)
    note lf = level_flags_present [OF eu, of flags]
    have t: "t = page_of ?e" and s': "s' = s \<and> \<not> (flags AND MMU_FLAG_USER \<noteq> 0 \<and> ?e AND PTE_USER = 0) \<or>
        s' = set_entry parent i (?e OR PTE_USER) s \<and> flags AND MMU_FLAG_USER \<noteq> 0 \<and> ?e AND PTE_USER = 0"
      using ret True by (auto simp: ensure_table_unfold Let_def present_table_def split: if_splits)
    from s' show ?thesis
    proof
      assume "s' = s \<and> \<not> (flags AND MMU_FLAG_USER \<noteq> 0 \<and> ?e AND PTE_USER = 0)"
      then show ?thesis using inv bd so po True t lf by (auto split: if_splits)
    next
      assume a: "s' = set_entry parent i (?e OR PTE_USER) s \<and> flags AND MMU_FLAG_USER \<noteq> 0 \<and> ?e AND PTE_USER = 0"
      then have s': "s' = set_entry parent i (?e OR PTE_USER) s" by simp
      have "level_flags flags ?e (get_entry s' parent i)"
        using lf a get_set_entry [OF tp(2,2) i i] by (simp add: s')
      note lf' = this
      note se = set_entry_inv [OF inv tp(3) i, of "?e OR PTE_USER"]
      have sp: "safe_page s' p = safe_page s p" for p
        by (simp add: safe_page_def frame_page_def s' se(2))
      have "get_entry s' p j = get_entry s p j" if "safe_page s p" "j < 512" "(p, j) \<noteq> (parent, i)" for p j
        using get_set_entry [OF tp(2) _ i that(2)] that by (auto simp: s' safe_page_def frame_page_def)
      moreover have "points_to (get_entry s' parent i) t"
        using points_to_user [OF po] get_set_entry [OF tp(2,2) i i] by (simp add: s' t)
      moreover have "phys_bounded s'" using bd by (simp add: phys_bounded_def s')
      ultimately show ?thesis using sp se so True t lf' by (simp add: s')
    qed
  next
    case False
    from ret False obtain s1 new_e f where al: "pmm_alloc_page s = Ret (t, s1)"
      and ne: "\<And>t. tbl t \<Longrightarrow> points_to (new_e t) t"
      and lf: "\<And>t. tbl t \<Longrightarrow> level_flags flags ?e (new_e t)"
      and f: "?e AND PTE_PS = 0 \<Longrightarrow> f = (\<lambda>_. 0)"
      and s': "s' = set_entry parent i (new_e t) (fill_table t f [0..<512] s1)"
    proof (cases "?e AND PTE_PS = 0")
      case True
      with False have "?e AND PTE_PRESENT = 0" by (simp add: present_table_def)
      with True ret that [of _ "\<lambda>t. if flags AND MMU_FLAG_USER \<noteq> 0 then t OR PTE_PRESENT OR PTE_RW OR PTE_USER
             else t OR PTE_PRESENT OR PTE_RW" "\<lambda>_. 0"] show thesis
        using points_to_new level_flags_new [of _ ?e flags]
        by (auto simp: ensure_table_unfold Let_def run_simps entry_used_def)
    next
      case ps: False
      with ret that [of _ "\<lambda>t. t OR PTE_PRESENT OR
          ((?e AND (PTE_PRESENT OR PTE_RW OR PTE_USER OR PTE_GLOBAL OR PTE_NX)) AND
               (PTE_RW OR PTE_USER OR PTE_GLOBAL OR PTE_NX))" "\<lambda>j. ((?e AND NOT (PAGE_SIZE_2M - 1)) + of_nat j * 4096) OR
               (?e AND (PTE_PRESENT OR PTE_RW OR PTE_USER OR PTE_GLOBAL OR PTE_NX))"] show thesis
        using points_to_split level_flags_split [OF _ ps, of _ flags]
        by (auto simp: ensure_table_unfold Let_def run_simps)
    qed
    note N = ensure_table_new [OF inv bd par i al ne s']
    have "phys_bounded s'" using bd N(2) by (simp add: phys_bounded_def)
    moreover have "tbl parent" "tbl t" using par N(3) by (simp_all add: safe_page_def frame_page_def)
    then have "level_flags flags ?e (get_entry s' parent i)"
      using get_set_entry [OF _ _ i i] lf by (simp add: s')
    ultimately show ?thesis using N f False by auto
  qed
  from G show "pmm_inv s'" "phys_bounded s'" "safe_page s' t" "points_to (get_entry s' parent i) t"
    "present_table ?e \<and> t = page_of ?e \<or> \<not> present_table ?e \<and> t \<in> pmm_avail s \<and>
       (?e AND PTE_PS = 0 \<longrightarrow> (\<forall>j<512. get_entry s' t j = 0))"
    "level_flags flags ?e (get_entry s' parent i)" by blast+
  from G show "\<And>p. safe_page s p \<Longrightarrow> safe_page s' p" by blast
  from G show "\<And>p j. safe_page s p \<Longrightarrow> j < 512 \<Longrightarrow> (p, j) \<noteq> (parent, i) \<Longrightarrow>
    get_entry s' p j = get_entry s p j" by blast
qed

lemma index_lt [simp]:
  "pml4_index v < 512" "pdpt_index v < 512" "pd_index v < 512" "pt_index v < 512"
proof -
  have "x AND 0x1FF < 512" for x :: u64
    by (rule le_less_trans [OF word_and_le1]) simp
  then show "pml4_index v < 512" "pdpt_index v < 512" "pd_index v < 512" "pt_index v < 512"
    by (simp_all add: pml4_index_def pdpt_index_def pd_index_def pt_index_def)
qed

section \<open>Mapping, then walking\<close>

text \<open>The tables on the path of an address are pages of their own, and the upper levels hold no
  large pages.\<close>

definition path_ok :: "pmm \<Rightarrow> u64 \<Rightarrow> u64 \<Rightarrow> bool" where
  "path_ok s root virt \<longleftrightarrow> safe_page s root \<and>
     (let e4 = get_entry s root (pml4_index virt); t3 = page_of e4;
          e3 = get_entry s t3 (pdpt_index virt); t2 = page_of e3;
          e2 = get_entry s t2 (pd_index virt); t1 = page_of e2
      in e4 AND PTE_PS = 0 \<and>
         (present_table e4 \<longrightarrow> safe_page s t3 \<and> t3 \<noteq> root \<and> e3 AND PTE_PS = 0 \<and>
           (present_table e3 \<longrightarrow> safe_page s t2 \<and> t2 \<notin> {root, t3} \<and>
             (present_table e2 \<longrightarrow> safe_page s t1 \<and> t1 \<notin> {root, t3, t2}))))"

lemma present_zero [simp]: "\<not> present_table 0"
  by (simp add: present_table_def)

text \<open>The permissions of the upper levels after the walk, from the entries that existed before it.\<close>

definition path_flags :: "u64 \<Rightarrow> u64 list \<Rightarrow> u64 list \<Rightarrow> bool" where
  "path_flags flags es es' \<longleftrightarrow>
     ((\<forall>e\<in>set es'. e AND PTE_RW \<noteq> 0) \<longleftrightarrow> (\<forall>e\<in>set es. e AND PTE_RW \<noteq> 0)) \<and>
     ((\<forall>e\<in>set es'. e AND PTE_NX = 0) \<longleftrightarrow> (\<forall>e\<in>set es. e AND PTE_NX = 0)) \<and>
     (flags AND MMU_FLAG_USER \<noteq> 0 \<longrightarrow>
        ((\<forall>e\<in>set es'. e AND PTE_USER \<noteq> 0) \<longleftrightarrow>
         (\<forall>e\<in>set es. e AND PTE_PS \<noteq> 0 \<longrightarrow> e AND PTE_USER \<noteq> 0)))"

lemma level_path_flags:
  assumes "level_flags flags e4 f4" "level_flags flags e3 f3" "level_flags flags e2 f2"
  shows "path_flags flags (filter entry_used [e4, e3, e2]) [f4, f3, f2]"
proof -
  have "(\<forall>e\<in>set (filter entry_used [e4, e3, e2]). e AND PTE_PS \<noteq> 0 \<longrightarrow> e AND PTE_USER \<noteq> 0) \<longleftrightarrow>
      (\<forall>e\<in>set [e4, e3, e2]. e AND PTE_PS \<noteq> 0 \<longrightarrow> e AND PTE_USER \<noteq> 0)"
    by (auto simp: entry_used_def)
  then show ?thesis
    using assms unfolding path_flags_def level_flags_def by simp
qed

lemma entry_unused [simp]: "\<not> entry_used 0"
  by (simp add: entry_used_def)

lemma walk_tables_spec:
  assumes inv: "pmm_inv s" and bd: "phys_bounded s" and ok: "path_ok s root virt"
    and ret: "walk_tables root virt flags s = Ret (t1, s3)"
  obtains t3 t2 where "points_to (get_entry s3 root (pml4_index virt)) t3"
    "points_to (get_entry s3 t3 (pdpt_index virt)) t2" "points_to (get_entry s3 t2 (pd_index virt)) t1"
    "safe_page s3 root" "safe_page s3 t3" "safe_page s3 t2" "safe_page s3 t1"
    "t1 \<notin> {root, t3, t2}" "pmm_inv s3" "phys_bounded s3"
    "path_flags flags (path_entries s root virt) [get_entry s3 root (pml4_index virt),
       get_entry s3 t3 (pdpt_index virt), get_entry s3 t2 (pd_index virt)]"
proof -
  let ?i4 = "pml4_index virt" and ?i3 = "pdpt_index virt" and ?i2 = "pd_index virt"
  define e4 where "e4 = get_entry s root ?i4"
  define e3 where "e3 = get_entry s (page_of e4) ?i3"
  define e2 where "e2 = get_entry s (page_of e3) ?i2"
  have ok': "safe_page s root" "e4 AND PTE_PS = 0"
    "present_table e4 \<Longrightarrow> safe_page s (page_of e4) \<and> page_of e4 \<noteq> root \<and> e3 AND PTE_PS = 0"
    "present_table e4 \<Longrightarrow> present_table e3 \<Longrightarrow> safe_page s (page_of e3) \<and> page_of e3 \<notin> {root, page_of e4}"
    "present_table e4 \<Longrightarrow> present_table e3 \<Longrightarrow> present_table e2 \<Longrightarrow>
       safe_page s (page_of e2) \<and> page_of e2 \<notin> {root, page_of e4, page_of e3}"
    using ok unfolding path_ok_def Let_def e4_def e3_def e2_def by auto
  from ret obtain t3 s1 t2 s2 where r1: "ensure_table root ?i4 flags s = Ret (t3, s1)"
    and r2: "ensure_table t3 ?i3 flags s1 = Ret (t2, s2)"
    and r3: "ensure_table t2 ?i2 flags s2 = Ret (t1, s3)"
    by (auto simp: walk_tables_def run_simps)
  have avail_ne: "p \<noteq> t" if "safe_page x p" "t \<in> pmm_avail x" for x p t
    using that by (auto simp: safe_page_def)
  note A = ensure_table_spec [OF inv bd ok'(1) index_lt(1) _ r1, folded e4_def]
  have A1: "pmm_inv s1" "phys_bounded s1" "safe_page s1 t3" "points_to (get_entry s1 root ?i4) t3"
    "safe_page s1 root" using A ok'(1,3) by blast+
  have A2: "(present_table e4 \<and> t3 = page_of e4) \<or> (\<not> present_table e4 \<and> (\<forall>j<512. get_entry s1 t3 j = 0))"
    using A(7) ok'(2,3) by auto
  have ne3: "t3 \<noteq> root" using A(7) ok'(3) avail_ne [OF ok'(1)] by auto
  have f1: "get_entry s1 p j = get_entry s p j" "safe_page s1 p"
    if "safe_page s p" "j < 512" "p \<noteq> root" for p j
    using A(5,6) ok'(3) that by auto
  define d3 where "d3 = get_entry s1 t3 ?i3"
  have d3: "present_table e4 \<and> t3 = page_of e4 \<and> d3 = e3 \<or> \<not> present_table e4 \<and> d3 = 0"
    using A2 f1 [of "page_of e4"] ok'(3) by (auto simp: d3_def e3_def)
  have o3: "safe_page s1 (page_of d3)" "page_of d3 \<notin> {root, t3}" if "present_table d3"
    using that d3 ok'(4) f1(2) [of "page_of d3" 0] by auto
  note B = ensure_table_spec [OF A1(1-3) index_lt(2) _ r2, folded d3_def]
  have B1: "pmm_inv s2" "phys_bounded s2" "safe_page s2 t2" "points_to (get_entry s2 t3 ?i3) t2"
    "safe_page s2 t3" "safe_page s2 root" using B o3 A1 by blast+
  have ps3: "d3 AND PTE_PS = 0" using d3 ok'(3) by auto
  have ne2: "t2 \<notin> {root, t3}" using B(7) o3 avail_ne [OF A1(5)] avail_ne [OF A1(3)] by auto
  have f2: "get_entry s2 p j = get_entry s1 p j" "safe_page s2 p"
    if "safe_page s1 p" "j < 512" "p \<noteq> t3" for p j
    using B(5,6) o3 that by auto
  define d2 where "d2 = get_entry s2 t2 ?i2"
  have d2: "present_table d3 \<and> t2 = page_of d3 \<and> d2 = get_entry s1 t2 ?i2 \<or> \<not> present_table d3 \<and> d2 = 0"
    using B(7) ps3 f2 [of "page_of d3"] o3 by (auto simp: d2_def)
  have d2': "d2 = e2" if "present_table d2"
    using that d2 d3 ok'(4) f1 [of "page_of e3"] by (auto simp: e2_def)
  have o2: "safe_page s2 (page_of d2)" "page_of d2 \<notin> {root, t3, t2}" if p: "present_table d2"
  proof -
    have e: "present_table e4" "t3 = page_of e4" "present_table e3" "t2 = page_of e3" "d2 = e2"
      using p d2 d3 d2' by auto
    then have "safe_page s (page_of e2)" "page_of e2 \<notin> {root, t3, t2}"
      using ok'(5) p by auto
    then show "safe_page s2 (page_of d2)" "page_of d2 \<notin> {root, t3, t2}"
      using f1(2) [of "page_of e2" 0] f2(2) [of "page_of e2" 0] e(5) by auto
  qed
  note C = ensure_table_spec [OF B1(1-3) index_lt(3) _ r3, folded d2_def]
  have C1: "pmm_inv s3" "phys_bounded s3" "safe_page s3 t1" "points_to (get_entry s3 t2 ?i2) t1"
    "safe_page s3 t2" "safe_page s3 t3" "safe_page s3 root" using C o2 B1 by blast+
  have ne1: "t1 \<notin> {root, t3, t2}"
    using C(7) o2 avail_ne [OF B1(3)] avail_ne [OF B1(5)] avail_ne [OF B1(6)] by auto
  have "get_entry s3 t3 ?i3 = get_entry s2 t3 ?i3" "get_entry s3 root ?i4 = get_entry s2 root ?i4"
    using C(6) o2 B1 ne2 by auto
  moreover have "get_entry s2 root ?i4 = get_entry s1 root ?i4"
    using f2(1) [OF A1(5)] ne3 by simp
  moreover have "path_flags flags (path_entries s root virt)
      [get_entry s1 root ?i4, get_entry s2 t3 ?i3, get_entry s3 t2 ?i2]"
  proof -
    have "level_flags flags e4 (get_entry s1 root ?i4)" "level_flags flags d3 (get_entry s2 t3 ?i3)"
      "level_flags flags d2 (get_entry s3 t2 ?i2)"
      using A(8) B(8) C(8) ok'(3) o3 o2 by blast+
    note L = level_path_flags [OF this]
    have u4: "entry_used e4 \<longleftrightarrow> present_table e4" and u3: "present_table e4 \<Longrightarrow> entry_used e3 \<longleftrightarrow> present_table e3"
      using ok'(2,3) by (auto simp: entry_used_def present_table_def)
    have "filter entry_used [e4, d3, d2] = path_entries s root virt"
    proof (cases "present_table e4 \<and> present_table e3")
      case True
      then have "d3 = e3" "d2 = e2"
        using d3 d2 ok'(4) f1 [of "page_of e3"] by (auto simp: e2_def)
      with True u4 u3 show ?thesis by (simp add: path_entries_def Let_def e4_def e3_def e2_def)
    next
      case False
      then have "\<not> present_table d3" using d3 by auto
      then have "d2 = 0" "\<not> entry_used d3" using d2 ps3 by (auto simp: entry_used_def present_table_def)
      with False u4 u3 show ?thesis by (auto simp: path_entries_def Let_def e4_def e3_def e2_def)
    qed
    with L show ?thesis by simp
  qed
  ultimately show thesis
    using that [of t3 t2] A1(4) B1(4) C1 ne1 by simp
qed

lemma page_of_tbl:
  assumes "tbl p" shows "page_of p = p"
proof (rule bit_word_eqI)
  fix n assume "n < LENGTH(64)"
  then show "bit (page_of p) n = bit p n"
    using tbl_bits(1) [OF assms, of n] by (cases "n < 12") (auto simp: page_of_bit)
qed

lemma leaf_entry_or:
  "leaf_entry p f = page_of p OR PTE_PRESENT OR
     (if f AND MMU_FLAG_WRITE \<noteq> 0 then PTE_RW else 0) OR (if f AND MMU_FLAG_USER \<noteq> 0 then PTE_USER else 0) OR
     (if f AND MMU_FLAG_GLOBAL \<noteq> 0 then PTE_GLOBAL else 0) OR (if f AND MMU_FLAG_COW \<noteq> 0 then PTE_COW else 0) OR
     (if f AND MMU_FLAG_NOEXEC \<noteq> 0 then PTE_NX else 0)"
  by (simp add: leaf_entry_def page_of_def Let_def or.assoc)

lemma leaf_entry_spec:
  assumes "tbl p"
  shows "hw_page (leaf_entry p f) = p" "leaf_entry p f AND PTE_PRESENT \<noteq> 0"
  using assms by (simp_all add: leaf_entry_or page_of_tbl hw_page_or or_and_distrib or_eq_0_iff)

lemma leaf_entry_flags:
  assumes "tbl p"
  shows "leaf_entry p f AND PTE_RW \<noteq> 0 \<longleftrightarrow> f AND MMU_FLAG_WRITE \<noteq> 0"
    "leaf_entry p f AND PTE_USER \<noteq> 0 \<longleftrightarrow> f AND MMU_FLAG_USER \<noteq> 0"
    "leaf_entry p f AND PTE_GLOBAL \<noteq> 0 \<longleftrightarrow> f AND MMU_FLAG_GLOBAL \<noteq> 0"
    "leaf_entry p f AND PTE_COW \<noteq> 0 \<longleftrightarrow> f AND MMU_FLAG_COW \<noteq> 0"
    "leaf_entry p f AND PTE_NX = 0 \<longleftrightarrow> f AND MMU_FLAG_NOEXEC = 0"
  using assms by (simp_all add: leaf_entry_or page_of_tbl or_and_distrib or_eq_0_iff tbl_and_flags)

lemma aligned_tbl:
  assumes "p AND 0xFFF = 0" "unat p < 2 ^ 52" shows "tbl p"
proof -
  have "(0xFFF :: u64) = mask 12" by (simp add: mask_eq_exp_minus_1)
  with assms(1) have "take_bit 12 p = 0" by (simp add: take_bit_eq_mask)
  then have "unat p mod 4096 = 0" by (simp add: word_eq_unat take_bit_eq_mod unat_mod)
  then show ?thesis using assms(2) by (simp add: tbl_def dvd_eq_mod_eq_0)
qed

lemma map_walk:
  assumes inv: "pmm_inv s" and bd: "phys_bounded s" and ok: "path_ok s root virt" and t: "tbl phys"
    and ret: "walk_tables root virt flags s = Ret (pt, s3)"
    and s': "s' = set_entry pt (pt_index virt) (leaf_entry phys flags) s3"
  obtains us where
    "hw_walk s' root virt = Some (hw_xlat_of phys (us @ [leaf_entry phys flags]))"
    "path_flags flags (path_entries s root virt) us" "pmm_inv s'" "safe_page s' root"
proof -
  from walk_tables_spec [OF inv bd ok ret] obtain t3 t2 where
    P: "points_to (get_entry s3 root (pml4_index virt)) t3"
    "points_to (get_entry s3 t3 (pdpt_index virt)) t2" "points_to (get_entry s3 t2 (pd_index virt)) pt"
    and sp: "safe_page s3 root" "safe_page s3 t3" "safe_page s3 t2" "safe_page s3 pt"
    and ne: "pt \<notin> {root, t3, t2}" and i3: "pmm_inv s3"
    and pf: "path_flags flags (path_entries s root virt) [get_entry s3 root (pml4_index virt),
       get_entry s3 t3 (pdpt_index virt), get_entry s3 t2 (pd_index virt)]" by metis
  have tb: "tbl root" "tbl t3" "tbl t2" "tbl pt" "frame_page s3 pt"
    using sp by (simp_all add: safe_page_def frame_page_def)
  have g: "get_entry s' q j = get_entry s3 q j" if "q \<in> {root, t3, t2}" "j < 512" for q j
    using get_set_entry [OF tb(4) _ index_lt(4) that(2)] that ne tb by (auto simp: s')
  have l: "get_entry s' pt (pt_index virt) = leaf_entry phys flags"
    using get_set_entry [OF tb(4,4) index_lt(4) index_lt(4)] by (simp add: s')
  have w: "hw_walk s' root virt = Some (hw_xlat_of phys ([get_entry s3 root (pml4_index virt),
       get_entry s3 t3 (pdpt_index virt), get_entry s3 t2 (pd_index virt)] @ [leaf_entry phys flags]))"
    using P leaf_entry_spec [OF t] l by (simp add: hw_walk_def Let_def g points_to_def)
  note se = set_entry_inv [OF i3 tb(5) index_lt(4), of virt "leaf_entry phys flags"]
  have "pmm_inv s'" by (simp add: s' se)
  moreover have "safe_page s' root" using sp(1) by (simp add: s' safe_page_def se frame_page_def)
  ultimately show thesis by (rule that [OF w pf])
qed

section \<open>Correctness\<close>

text \<open>For the examples: four tables above the managed memory of the allocator example, linked at
  index zero.\<close>

definition mmu_demo :: pmm where
  "mmu_demo = set_entry 0x200000 0 0x201003 (set_entry 0x201000 0 0x202003
     (set_entry 0x202000 0 0x203003 pmm_demo))"

lemma demo_pages_low:
  assumes "a \<in> pmm_avail pmm_demo" shows "unat a < 0x104000"
proof -
  from assms obtain r p where rp: "(r, p) \<in> usable pmm_demo" and a: "a = page_addr (regions pmm_demo ! r) p"
    by (auto simp: pmm_avail_def)
  note ur = usable_facts [OF pmm_demo_inv rp]
  from unat_page_addr [OF ur(1,3)] ur(2,3) show ?thesis by (simp add: a pmm_demo_def)
qed

lemma demo_frame:
  assumes "tbl t" "0x104000 \<le> unat t" shows "frame_page pmm_demo t"
  using assms by (auto simp: frame_page_def pmm_demo_def bm_range_def)

lemma mmu_demo_ok:
  "pmm_inv mmu_demo" "phys_bounded mmu_demo" "path_ok mmu_demo 0x200000 0"
proof -
  have t: "tbl 0x200000" "tbl 0x201000" "tbl 0x202000" "tbl 0x203000" by (simp_all add: tbl_def)
  have f: "frame_page pmm_demo 0x200000" "frame_page pmm_demo 0x201000" "frame_page pmm_demo 0x202000"
    "frame_page pmm_demo 0x203000" using demo_frame t by simp_all
  have fs: "frame_page (set_entry a b c s) t = frame_page s t" for a b c s t by (simp add: frame_page_def)
  note 1 = set_entry_inv [OF pmm_demo_inv f(3), of 0]
  note 2 = set_entry_inv [OF 1(1), unfolded fs, OF _ f(2), of 0]
  note 3 = set_entry_inv [OF 2(1), unfolded fs, OF _ _ f(1), of 0]
  show "pmm_inv mmu_demo" unfolding mmu_demo_def by (rule 3) simp_all
  have av: "pmm_avail mmu_demo = pmm_avail pmm_demo" unfolding mmu_demo_def by (simp add: 1 2 3)
  show "phys_bounded mmu_demo" by (simp add: phys_bounded_def mmu_demo_def pmm_demo_def set_entry_def)
  have sp: "safe_page mmu_demo p" if "frame_page pmm_demo p" "0x104000 \<le> unat p" for p
  proof -
    have "frame_page mmu_demo p" using that(1) by (simp add: mmu_demo_def fs)
    then show ?thesis using that(2) demo_pages_low [of p] by (auto simp: safe_page_def av)
  qed
  have e: "get_entry mmu_demo 0x200000 0 = 0x201003" "get_entry mmu_demo 0x201000 0 = 0x202003"
    "get_entry mmu_demo 0x202000 0 = 0x203003"
    by (simp_all add: mmu_demo_def get_set_entry t)
  have x: "pml4_index 0 = 0" "pdpt_index 0 = 0" "pd_index 0 = 0"
    by (simp_all add: pml4_index_def pdpt_index_def pd_index_def)
  have pg: "page_of 0x201003 = 0x201000" "page_of 0x202003 = 0x202000" "page_of 0x203003 = 0x203000"
    by (simp_all add: page_of_def)
  show "path_ok mmu_demo 0x200000 0"
    using sp f by (simp add: path_ok_def x e pg Let_def PTE_PS_def)
qed

text \<open>(C10) Mapping a page makes the processor translate the virtual address to that physical page. The
  page is global or copy-on-write as the flags say; it is accessible from user mode, writable and
  executable exactly when the flags ask for it and the upper levels of the path allow it. Tables
  that the call creates allow everything asked for, and an existing table gains the user bit on
  demand; a table entry that existed before keeps its write and no-execute bits, and the entry of a
  2 MiB page that is split also keeps its user bit. So with existing entries that are writable and
  executable, as this code makes them, and no split, the permissions are the requested ones. The
  allocator's invariant is kept.\<close>

theorem mmu_map_page_walk:
  assumes "pmm_inv s" "phys_bounded s" "path_ok s root virt" "unat phys < 2 ^ 52"
    and "mmu_map_page root virt phys flags s = Ret s' \<or> mmu_map_page_in root virt phys flags s = Ret (0, s')"
  shows "\<exists>x. hw_walk s' root virt = Some x \<and> hw_phys x = phys \<and>
     (hw_leaf x AND PTE_GLOBAL \<noteq> 0 \<longleftrightarrow> flags AND MMU_FLAG_GLOBAL \<noteq> 0) \<and>
     (hw_leaf x AND PTE_COW \<noteq> 0 \<longleftrightarrow> flags AND MMU_FLAG_COW \<noteq> 0) \<and>
     (hw_write x \<longleftrightarrow> flags AND MMU_FLAG_WRITE \<noteq> 0 \<and>
        (\<forall>e\<in>set (path_entries s root virt). e AND PTE_RW \<noteq> 0)) \<and>
     (hw_user x \<longleftrightarrow> flags AND MMU_FLAG_USER \<noteq> 0 \<and>
        (\<forall>e\<in>set (path_entries s root virt). e AND PTE_PS \<noteq> 0 \<longrightarrow> e AND PTE_USER \<noteq> 0)) \<and>
     (hw_exec x \<longleftrightarrow> flags AND MMU_FLAG_NOEXEC = 0 \<and>
        (\<forall>e\<in>set (path_entries s root virt). e AND PTE_NX = 0)) \<and>
     pmm_inv s'"
proof -
  from assms(5) obtain pt s3 where al: "phys AND 0xFFF = 0"
    and w: "walk_tables root virt flags s = Ret (pt, s3)"
      "s' = set_entry pt (pt_index virt) (leaf_entry phys flags) s3"
    by (auto simp: mmu_map_page_def mmu_map_page_in_def Let_def run_simps split: if_splits)
  have t: "tbl phys" by (rule aligned_tbl [OF al assms(4)])
  from map_walk [OF assms(1-3) t w] obtain us where
    W: "hw_walk s' root virt = Some (hw_xlat_of phys (us @ [leaf_entry phys flags]))"
      "path_flags flags (path_entries s root virt) us" "pmm_inv s'" .
  show ?thesis
    unfolding W(1) using W(2,3) leaf_entry_flags [OF t, of flags]
    by (auto simp: hw_xlat_of_def path_flags_def)
qed

theorem mmu_map_page_walk_witness:
  "\<exists>s' x. mmu_map_page 0x200000 0 0x300000 MMU_FLAG_WRITE mmu_demo = Ret s' \<and>
     hw_walk s' 0x200000 0 = Some x \<and> hw_phys x = 0x300000 \<and> hw_write x \<and> \<not> hw_user x \<and> hw_exec x"
proof -
  have "map_option (\<lambda>s. get_entry s 0x203000 0) (ret_val (mmu_map_page 0x200000 0 0x300000 MMU_FLAG_WRITE mmu_demo)) =
      Some 0x300003"
    by code_simp
  then obtain s' where s': "mmu_map_page 0x200000 0 0x300000 MMU_FLAG_WRITE mmu_demo = Ret s'"
    by (auto simp: run_simps)
  have "path_entries mmu_demo 0x200000 0 = [0x201003, 0x202003, 0x203003]" by code_simp
  with mmu_map_page_walk [OF mmu_demo_ok, of "0x300000" MMU_FLAG_WRITE s'] s' show ?thesis
    by (auto simp: MMU_FLAG_WRITE_def MMU_FLAG_USER_def MMU_FLAG_NOEXEC_def PTE_RW_def PTE_NX_def)
qed

text \<open>(C27) The conversion back from virtual to physical addresses is wrong for the kernel image: every
  address of the higher half is also above the base of the direct map, so the test of
  \<open>virt_to_phys\<close> always takes the direct-map branch. It inverts the direct map, but for the
  higher half it is off by 0x7FFF80000000.\<close>

theorem virt_to_phys_higher_half:
  assumes "p < 0x80000000"
  shows "virt_to_phys (phys_to_hhdm p) = p \<and> virt_to_phys (phys_to_virt p) = p + 0x7FFF80000000"
proof -
  have "unat p < 2 ^ 31" using assms by (simp add: word_less_nat_alt)
  then have "HHDM_BASE \<le> p + HHDM_BASE" "HHDM_BASE \<le> p + HIGHER_HALF_BASE"
    by (simp_all add: word_le_nat_alt HHDM_BASE_def HIGHER_HALF_BASE_def unat_word_ariths)
  then show ?thesis
    by (simp add: virt_to_phys_def phys_to_hhdm_def phys_to_virt_def phys_to_higher_half_def
        hhdm_to_phys_def) (simp add: HHDM_BASE_def HIGHER_HALF_BASE_def)
qed

theorem virt_to_phys_higher_half_witness: "virt_to_phys (phys_to_virt 0x100000) = 0x7FFF80100000"
  using virt_to_phys_higher_half [of "0x100000"] by simp

text \<open>Mapping a no-execute page a second time to the same physical page panics: the check for a
  conflicting mapping compares the whole upper part of the entry, with the no-execute bit, to the
  physical address.\<close>

theorem mmu_remap_noexec_panics:
  assumes "virt AND 0xFFF = 0" "phys AND 0xFFF = 0" "unat phys < 2 ^ 52"
    and "walk_tables root virt flags s = Ret (pt, s')"
    and "get_entry s' pt (pt_index virt) = leaf_entry phys flags" "flags AND MMU_FLAG_NOEXEC \<noteq> 0"
  shows "mmu_map_page root virt phys flags s =
    Panic ''mmu_map_page: remap to different phys'' (leaf_entry phys flags)"
proof -
  have t: "tbl phys" by (rule aligned_tbl [OF assms(2,3)])
  have "bit (page_of (leaf_entry phys flags)) 63"
    using assms(6) by (simp add: page_of_bit leaf_entry_or bit_or_iff PTE_NX_def)
  moreover have "\<not> bit phys 63" using tbl_bits(2) [OF t] by simp
  ultimately have "page_of (leaf_entry phys flags) \<noteq> phys AND NOT 0xFFF"
    using page_of_tbl [OF t] by (auto simp: page_of_def)
  then show ?thesis
    using assms leaf_entry_spec(2) [OF t] by (simp add: mmu_map_page_def Let_def)
qed

theorem mmu_remap_noexec_panics_witness:
  "mmu_map_page 0x200000 0 0x300000 MMU_FLAG_NOEXEC
     (set_entry 0x203000 0 (leaf_entry 0x300000 MMU_FLAG_NOEXEC) mmu_demo) =
   Panic ''mmu_map_page: remap to different phys'' 0x8000000000300001"
proof -
  define S where "S = set_entry 0x203000 0 (leaf_entry 0x300000 MMU_FLAG_NOEXEC) mmu_demo"
  have t: "tbl 0x200000" "tbl 0x201000" "tbl 0x202000" "tbl 0x203000" by (simp_all add: tbl_def)
  have e: "get_entry S 0x200000 0 = 0x201003" "get_entry S 0x201000 0 = 0x202003"
    "get_entry S 0x202000 0 = 0x203003" "get_entry S 0x203000 0 = leaf_entry 0x300000 MMU_FLAG_NOEXEC"
    by (simp_all add: S_def mmu_demo_def get_set_entry t)
  have x: "pml4_index 0 = 0" "pdpt_index 0 = 0" "pd_index 0 = 0" "pt_index 0 = 0"
    by (simp_all add: pml4_index_def pdpt_index_def pd_index_def pt_index_def)
  have "walk_tables 0x200000 0 MMU_FLAG_NOEXEC S = Ret (0x203000, S)"
    by (simp add: walk_tables_def ensure_table_def Let_def x e PTE_PS_def PTE_PRESENT_def page_of_def
        MMU_FLAG_NOEXEC_def MMU_FLAG_USER_def)
  moreover have l: "leaf_entry 0x300000 MMU_FLAG_NOEXEC = 0x8000000000300001" by code_simp
  ultimately show ?thesis
    using mmu_remap_noexec_panics [of 0 "0x300000" "0x200000" MMU_FLAG_NOEXEC S "0x203000" S] e x
    unfolding S_def [symmetric] l [unfolded MMU_FLAG_NOEXEC_def] by (simp add: MMU_FLAG_NOEXEC_def l [unfolded MMU_FLAG_NOEXEC_def])
qed

end
