(* ===== verification/Kheap.thy ===== *)
theory Kheap
  imports Mmu "HOL-Library.Multiset"
begin

text \<open>
  The kernel heap, kernel/heap.c: size classes with a free list each, a large free list sorted by
  address with coalescing, and a bump region that grows page by page through the physical memory
  manager and the page tables. The memory of the heap is byte addressed by virtual address; the
  header \<open>struct alloc_hdr\<close> and the list node \<open>struct free_node\<close> are three words at the start of
  a block. Log messages are not modelled. Every operation holds \<open>heap_lock\<close>, so it is one step.
\<close>

section \<open>State\<close>

record kheap =
  hpmm :: pmm
  heap_cur :: u64
  heap_end :: u64
  heap_ready :: bool
  frees_enabled :: bool
  free_lists :: "u64 list"
  free_large :: u64
  total_allocs :: u64
  total_frees :: u64
  slab_allocs :: "u64 list"
  slab_reuses :: "u64 list"
  large_allocs :: u64
  large_reuses :: u64
  hmem :: "u64 \<Rightarrow> u8"

definition HEAP_BASE :: u64 where "HEAP_BASE = 0xFFFF900000000000"
definition HEAP_FLAGS :: u64 where "HEAP_FLAGS = MMU_FLAG_WRITE OR MMU_FLAG_GLOBAL OR MMU_FLAG_NOEXEC"
definition HEAP_HDR_SIZE :: u64 where "HEAP_HDR_SIZE = 24"
definition HEAP_PAYLOAD_OFFSET :: u64 where "HEAP_PAYLOAD_OFFSET = 32"
definition LARGE_CLASS :: u64 where "LARGE_CLASS = 0xFFFFFFFFFFFFFFFF"
definition large_split_min :: u64 where "large_split_min = HEAP_PAYLOAD_OFFSET + 32"
definition KHEAP_MAX_SLAB_CLASSES :: nat where "KHEAP_MAX_SLAB_CLASSES = 8"

definition slab_classes :: "u64 list" where
  "slab_classes = [64, 128, 256, 512, 1024, 2048, 4096, 8192]"

definition slab_count :: nat where "slab_count = length slab_classes"

text \<open>The state before \<open>kheap_init\<close>.\<close>

definition kheap_start :: "pmm \<Rightarrow> kheap" where
  "kheap_start p = \<lparr>hpmm = p, heap_cur = HEAP_BASE, heap_end = HEAP_BASE, heap_ready = False,
     frees_enabled = False, free_lists = replicate 8 0, free_large = 0, total_allocs = 0,
     total_frees = 0, slab_allocs = replicate 8 0, slab_reuses = replicate 8 0, large_allocs = 0,
     large_reuses = 0, hmem = (\<lambda>_. 0)\<rparr>"

text \<open>Fields of a node or header at address \<open>p\<close>: word 0 is \<open>next\<close> or \<open>class_idx\<close>, word 1 is
  \<open>size\<close>, word 2 is \<open>align\<close>.\<close>

definition word0 :: "kheap \<Rightarrow> u64 \<Rightarrow> u64" where "word0 s p = rd64 (hmem s) p"
definition size_at :: "kheap \<Rightarrow> u64 \<Rightarrow> u64" where "size_at s p = rd64 (hmem s) (p + 8)"

definition set_word0 :: "u64 \<Rightarrow> u64 \<Rightarrow> kheap \<Rightarrow> kheap" where
  "set_word0 p v s = s\<lparr>hmem := wr64 (hmem s) p v\<rparr>"
definition set_size :: "u64 \<Rightarrow> u64 \<Rightarrow> kheap \<Rightarrow> kheap" where
  "set_size p v s = s\<lparr>hmem := wr64 (hmem s) (p + 8) v\<rparr>"
definition set_align :: "u64 \<Rightarrow> u64 \<Rightarrow> kheap \<Rightarrow> kheap" where
  "set_align p v s = s\<lparr>hmem := wr64 (hmem s) (p + 16) v\<rparr>"

definition write_hdr :: "u64 \<Rightarrow> u64 \<Rightarrow> u64 \<Rightarrow> u64 \<Rightarrow> kheap \<Rightarrow> kheap" where
  "write_hdr p class_idx sz align s = set_align p align (set_size p sz (set_word0 p class_idx s))"

definition ptr :: "u64 \<Rightarrow> u64 option" where "ptr p = (if p = 0 then None else Some p)"
definition unptr :: "u64 option \<Rightarrow> u64" where "unptr p = (case p of None \<Rightarrow> 0 | Some x \<Rightarrow> x)"

definition next_of :: "kheap \<Rightarrow> u64 \<Rightarrow> u64 option" where "next_of s p = ptr (word0 s p)"

section \<open>Growing\<close>

definition map_next_page :: "u64 \<Rightarrow> kheap \<Rightarrow> kheap run" where
  "map_next_page root s =
     bind_run (pmm_alloc_page (hpmm s)) (\<lambda>(phys, p1).
     bind_run (mmu_map_page root (heap_end s) phys HEAP_FLAGS p1) (\<lambda>p2.
       Ret (s\<lparr>hpmm := p2, heap_end := heap_end s + 4096\<rparr>)))"

definition is_canonical :: "u64 \<Rightarrow> bool" where
  "is_canonical addr = (let high = drop_bit 47 addr in high = 0 \<or> high = 0x1FFFF)"

partial_function (option) ensure_loop :: "u64 \<Rightarrow> u64 \<Rightarrow> u64 \<Rightarrow> kheap \<Rightarrow> kheap run option" where
  "ensure_loop root aligned_start need s =
     (if aligned_start + need > heap_end s
      then (case map_next_page root s of
              Ret s' \<Rightarrow> ensure_loop root aligned_start need s'
            | Panic m c \<Rightarrow> Some (Panic m c)
            | Hang \<Rightarrow> Some Hang)
      else Some (Ret s))"

declare ensure_loop.simps [code]

definition ensure_space :: "u64 \<Rightarrow> u64 \<Rightarrow> u64 \<Rightarrow> kheap \<Rightarrow> kheap run" where
  "ensure_space root aligned_start need s =
     (case ensure_loop root aligned_start need s of None \<Rightarrow> Hang | Some r \<Rightarrow> r)"

section \<open>The large free list\<close>

definition link :: "u64 option \<Rightarrow> u64 \<Rightarrow> kheap \<Rightarrow> kheap" where
  "link prev v s = (case prev of None \<Rightarrow> s\<lparr>free_large := v\<rparr> | Some q \<Rightarrow> set_word0 q v s)"

text \<open>The coalescing steps of \<open>insert_large_node\<close>, on the pointers the search left.\<close>

definition coalesce_next :: "u64 \<Rightarrow> u64 option \<Rightarrow> kheap \<Rightarrow> kheap" where
  "coalesce_next node cur s =
     (case cur of
        None \<Rightarrow> s
      | Some c \<Rightarrow>
          if node + size_at s node = c
          then (let s1 = set_size node (size_at s node + size_at s c) s
                in set_word0 node (word0 s1 c) s1)
          else s)"

definition coalesce_prev :: "u64 \<Rightarrow> u64 option \<Rightarrow> kheap \<Rightarrow> kheap" where
  "coalesce_prev node prev s =
     (case prev of
        None \<Rightarrow> s
      | Some q \<Rightarrow>
          if q + size_at s q = node
          then (let s1 = set_size q (size_at s q + size_at s node) s;
                    s2 = set_word0 q (word0 s1 node) s1
                in if word0 s2 q \<noteq> 0 \<and> q + size_at s2 q = word0 s2 q
                   then (let s3 = set_size q (size_at s2 q + size_at s2 (word0 s2 q)) s2
                         in set_word0 q (word0 s3 (word0 s3 q)) s3)
                   else s2)
          else s)"

definition insert_large_node :: "u64 \<Rightarrow> kheap \<Rightarrow> kheap run" where
  "insert_large_node node s =
     (if node = 0 \<or> \<not> is_canonical node then Ret s
      else
        (let s1 = set_align node 16 s
         in bind_run (loop_run (walk_prev (next_of s1) (\<lambda>c. \<not> c < node) None (ptr (free_large s1))))
              (\<lambda>(prev, cur).
                 let s2 = link prev node (set_word0 node (unptr cur) s1)
                 in Ret (coalesce_prev node prev (coalesce_next node cur s2)))))"

definition insert_large_fragment :: "u64 \<Rightarrow> u64 \<Rightarrow> kheap \<Rightarrow> kheap run" where
  "insert_large_fragment addr sz s =
     (if sz < large_split_min then Ret s
      else if \<not> is_canonical addr then Ret s
      else insert_large_node addr (set_size addr sz s))"

section \<open>Operations\<close>

definition kheap_init :: "u64 \<Rightarrow> kheap \<Rightarrow> kheap run" where
  "kheap_init root s =
     bind_run (map_next_page root (s\<lparr>heap_cur := HEAP_BASE + 4096, heap_end := HEAP_BASE + 4096\<rparr>))
       (\<lambda>s1. Ret (s1\<lparr>heap_ready := True\<rparr>))"

definition pick_slab_class :: "u64 \<Rightarrow> u64 \<Rightarrow> nat option" where
  "pick_slab_class sz align =
     (let need = sz + HEAP_HDR_SIZE;
          req_align = (if align < 16 then 16 else align)
      in List.find (\<lambda>i. slab_classes ! i \<ge> need \<and> slab_classes ! i \<ge> req_align) [0..<slab_count])"

text \<open>The fit test of the search through the large list and the carving of the node found.\<close>

definition aligned_in :: "u64 \<Rightarrow> u64 \<Rightarrow> u64" where
  "aligned_in node req_align =
     align_up (node + HEAP_PAYLOAD_OFFSET) req_align - HEAP_PAYLOAD_OFFSET"

definition large_fits :: "u64 \<Rightarrow> u64 \<Rightarrow> kheap \<Rightarrow> u64 \<Rightarrow> bool" where
  "large_fits total_need req_align s node =
     (size_at s node \<ge> total_need \<and>
      aligned_in node req_align \<ge> node \<and>
      aligned_in node req_align + total_need \<le> node + size_at s node)"

definition take_large :: "u64 \<Rightarrow> u64 \<Rightarrow> u64 option \<Rightarrow> u64 \<Rightarrow> kheap \<Rightarrow> (u64 \<times> kheap) run" where
  "take_large total_need req_align prev node s =
     (let node_end = node + size_at s node;
          aligned_start = aligned_in node req_align;
          block_end = aligned_start + total_need;
          s1 = link prev (word0 s node) s
      in bind_run (if aligned_start > node then insert_large_fragment node (aligned_start - node) s1
                   else Ret s1) (\<lambda>s2.
         bind_run (if block_end < node_end then insert_large_fragment block_end (node_end - block_end) s2
                   else Ret s2) (\<lambda>s3.
           let s4 = write_hdr aligned_start LARGE_CLASS total_need req_align s3
           in Ret (aligned_start + HEAP_PAYLOAD_OFFSET,
                   s4\<lparr>total_allocs := total_allocs s4 + 1, large_reuses := large_reuses s4 + 1\<rparr>))))"

definition alloc_slab :: "u64 \<Rightarrow> nat \<Rightarrow> u64 \<Rightarrow> kheap \<Rightarrow> (u64 \<times> kheap) run" where
  "alloc_slab root slab_idx req_align s =
     (let node = free_lists s ! slab_idx; class = slab_classes ! slab_idx
      in if node \<noteq> 0
         then Ret (node + HEAP_PAYLOAD_OFFSET,
                s\<lparr>free_lists := (free_lists s)[slab_idx := word0 s node],
                  total_allocs := total_allocs s + 1,
                  slab_reuses := (slab_reuses s)[slab_idx := slab_reuses s ! slab_idx + 1]\<rparr>)
         else
           (let cur = align_up (heap_cur s) req_align
            in bind_run (ensure_space root cur class (s\<lparr>heap_cur := cur\<rparr>)) (\<lambda>s1.
                 let s2 = write_hdr cur (of_nat slab_idx) class req_align (s1\<lparr>heap_cur := cur + class\<rparr>)
                 in Ret (cur + HEAP_PAYLOAD_OFFSET,
                      s2\<lparr>total_allocs := total_allocs s2 + 1,
                         slab_allocs := (slab_allocs s2)[slab_idx := slab_allocs s2 ! slab_idx + 1]\<rparr>))))"

definition alloc_bump :: "u64 \<Rightarrow> u64 \<Rightarrow> u64 \<Rightarrow> kheap \<Rightarrow> (u64 \<times> kheap) run" where
  "alloc_bump root total_need req_align s =
     (let cur = aligned_in (heap_cur s) req_align
      in bind_run (ensure_space root cur total_need (s\<lparr>heap_cur := cur\<rparr>)) (\<lambda>s1.
           let s2 = (write_hdr cur LARGE_CLASS total_need req_align s1)\<lparr>heap_cur := cur + total_need\<rparr>
           in Ret (cur + HEAP_PAYLOAD_OFFSET,
                s2\<lparr>total_allocs := total_allocs s2 + 1, large_allocs := large_allocs s2 + 1\<rparr>)))"

definition kalloc :: "u64 \<Rightarrow> u64 \<Rightarrow> u64 \<Rightarrow> kheap \<Rightarrow> (u64 \<times> kheap) run" where
  "kalloc root sz align0 s =
     (let align = (if align0 = 0 then 8 else align0)
      in if sz = 0 then Ret (0, s)
      else
        (let req_align = (if align < 16 then 16 else align);
             total_need = sz + HEAP_PAYLOAD_OFFSET
         in bind_run (loop_run (walk_prev (next_of s) (large_fits total_need req_align s)
                        None (ptr (free_large s)))) (\<lambda>(prev, cur).
              case cur of
                Some node \<Rightarrow> take_large total_need req_align prev node s
              | None \<Rightarrow>
                  (case pick_slab_class sz align of
                     Some slab_idx \<Rightarrow> alloc_slab root slab_idx req_align s
                   | None \<Rightarrow> alloc_bump root total_need req_align s))))"

definition kalloc_zero :: "u64 \<Rightarrow> u64 \<Rightarrow> u64 \<Rightarrow> kheap \<Rightarrow> (u64 \<times> kheap) run" where
  "kalloc_zero root sz align s =
     bind_run (kalloc root sz align s) (\<lambda>(p, s1).
       if p = 0 then Ret (0, s1)
       else Ret (p, s1\<lparr>hmem := zero_bytes (hmem s1) p sz\<rparr>))"

definition kfree :: "u64 \<Rightarrow> kheap \<Rightarrow> kheap run" where
  "kfree p s =
     (if p = 0 \<or> \<not> frees_enabled s then Ret s
      else
        (let block = p - HEAP_PAYLOAD_OFFSET; idx = word0 s block
         in if idx = LARGE_CLASS
            then if \<not> is_canonical block then Ret s
                 else bind_run (insert_large_node block s)
                        (\<lambda>s1. Ret (s1\<lparr>total_frees := total_frees s1 + 1\<rparr>))
            else if idx \<ge> of_nat slab_count then Ret s
            else if \<not> is_canonical block then Ret s
            else (let s1 = set_word0 block (free_lists s ! unat idx) s
                  in Ret (s1\<lparr>free_lists := (free_lists s1)[unat idx := block],
                            total_frees := total_frees s1 + 1\<rparr>))))"

definition kalloc_enable_frees :: "kheap \<Rightarrow> kheap" where
  "kalloc_enable_frees s = s\<lparr>frees_enabled := True\<rparr>"

definition kheap_is_ready :: "kheap \<Rightarrow> int" where
  "kheap_is_ready s = (if heap_ready s then 1 else 0)"

section \<open>Statistics and verification walks\<close>

text \<open>The walks are guarded: after 65536 steps they stop. The fuel is that guard.\<close>

fun sum_walk :: "nat \<Rightarrow> (u64 \<Rightarrow> u64) \<Rightarrow> (u64 \<Rightarrow> u64) \<Rightarrow> u64 \<Rightarrow> u64 \<Rightarrow> u64" where
  "sum_walk 0 nx w node acc =
     (if node = 0 \<or> \<not> is_canonical node then acc else acc + w node)"
| "sum_walk (Suc n) nx w node acc =
     (if node = 0 \<or> \<not> is_canonical node then acc else sum_walk n nx w (nx node) (acc + w node))"

definition track_free_bytes :: "kheap \<Rightarrow> u64 \<times> u64" where
  "track_free_bytes s =
     (foldl (\<lambda>acc i. sum_walk 65536 (word0 s) (\<lambda>_. slab_classes ! i) (free_lists s ! i) acc)
        0 [0..<slab_count],
      sum_walk 65536 (word0 s) (size_at s) (free_large s) 0)"

record kheap_stats =
  st_total_allocs :: u64
  st_total_frees :: u64
  st_slab_allocs :: "u64 list"
  st_slab_reuses :: "u64 list"
  st_large_allocs :: u64
  st_large_reuses :: u64
  st_free_slab_bytes :: u64
  st_free_large_bytes :: u64

definition kheap_get_stats :: "kheap \<Rightarrow> kheap_stats" where
  "kheap_get_stats s =
     \<lparr>st_total_allocs = total_allocs s, st_total_frees = total_frees s,
      st_slab_allocs = map (\<lambda>i. if i < slab_count then slab_allocs s ! i else 0) [0..<KHEAP_MAX_SLAB_CLASSES],
      st_slab_reuses = map (\<lambda>i. if i < slab_count then slab_reuses s ! i else 0) [0..<KHEAP_MAX_SLAB_CLASSES],
      st_large_allocs = large_allocs s, st_large_reuses = large_reuses s,
      st_free_slab_bytes = fst (track_free_bytes s), st_free_large_bytes = snd (track_free_bytes s)\<rparr>"

fun verify_slab :: "nat \<Rightarrow> kheap \<Rightarrow> u64 \<Rightarrow> int" where
  "verify_slab n s node =
     (if node = 0 then 0
      else if \<not> is_canonical node then -2
      else if node < HEAP_BASE \<or> node \<ge> heap_end s \<or> node mod 16 \<noteq> 0 then -3
      else case n of 0 \<Rightarrow> -4 | Suc n' \<Rightarrow> verify_slab n' s (word0 s node))"

fun verify_large :: "nat \<Rightarrow> kheap \<Rightarrow> u64 \<Rightarrow> u64 \<Rightarrow> int" where
  "verify_large n s prev cur =
     (if cur = 0 then 0
      else if \<not> is_canonical cur then -6
      else if cur < HEAP_BASE \<or> cur \<ge> heap_end s \<or> cur mod 16 \<noteq> 0 then -7
      else if prev \<noteq> 0 \<and> cur \<le> prev then -8
      else if prev \<noteq> 0 \<and> prev + size_at s prev = cur then -9
      else case n of
             0 \<Rightarrow> -10
           | Suc n' \<Rightarrow> if cur + size_at s cur > heap_end s then -11
                      else verify_large n' s cur (word0 s cur))"

definition kheap_verify :: "kheap \<Rightarrow> int" where
  "kheap_verify s =
     (if \<not> heap_ready s then -1
      else case first_some (\<lambda>i.
                  let r = verify_slab 65536 s (free_lists s ! i)
                  in if r \<noteq> 0 then Some r
                     else if slab_classes ! i < HEAP_PAYLOAD_OFFSET + 8 then Some (-5) else None)
                [0..<slab_count] of
             Some r \<Rightarrow> r
           | None \<Rightarrow> verify_large 65536 s 0 (free_large s))"

section \<open>Extents\<close>

text \<open>A block is a pair of its start and its length; \<open>apart\<close> says that the blocks of a list are
  pairwise disjoint.\<close>

definition dj :: "nat \<times> nat \<Rightarrow> nat \<times> nat \<Rightarrow> bool" where
  "dj x y \<longleftrightarrow> fst x + snd x \<le> fst y \<or> fst y + snd y \<le> fst x"

definition apart :: "(nat \<times> nat) list \<Rightarrow> bool" where "apart = sorted_wrt dj"

lemma dj_sym: "dj x y \<longleftrightarrow> dj y x"
  by (auto simp: dj_def)

lemma apart_simps [simp]:
  "apart []" "apart (x # xs) \<longleftrightarrow> (\<forall>y\<in>set xs. dj x y) \<and> apart xs"
  "apart (xs @ ys) \<longleftrightarrow> apart xs \<and> apart ys \<and> (\<forall>x\<in>set xs. \<forall>y\<in>set ys. dj x y)"
  by (simp_all add: apart_def sorted_wrt_append)

lemma apart_perm: "mset xs = mset ys \<Longrightarrow> apart xs \<longleftrightarrow> apart ys"
proof (induction xs arbitrary: ys)
  case (Cons x xs)
  from Cons.prems have "x \<in> set ys" by (metis list.set_intros(1) set_mset_mset)
  then obtain as bs where ys: "ys = as @ x # bs" by (meson split_list)
  with Cons.prems have m: "mset xs = mset (as @ bs)" by simp
  then have "set xs = set (as @ bs)" by (metis set_mset_mset)
  then show ?case using Cons.IH [OF m] dj_sym by (auto simp: ys)
qed simp

lemma apart_pair:
  "apart (map f xs) \<Longrightarrow> x \<in> set xs \<Longrightarrow> y \<in> set xs \<Longrightarrow> x \<noteq> y \<Longrightarrow> dj (f x) (f y)"
  by (induction xs) (auto simp: dj_sym)

lemma apart_merge:
  assumes "apart ((a, m) # (a + m, n) # R)" "\<forall>y\<in>set R. 0 < snd y" shows "apart ((a, m + n) # R)"
  using assms by (fastforce simp: dj_def)

lemma apart_shrink:
  assumes "apart ((a, m) # R)" "a \<le> b" "b + n \<le> a + m" shows "apart ((b, n) # R)"
  using assms by (fastforce simp: dj_def)

section \<open>Header words\<close>

definition okp :: "u64 \<Rightarrow> bool" where "okp p \<longleftrightarrow> p \<noteq> 0 \<and> unat p + 32 \<le> 2 ^ 64"

definition far :: "u64 \<Rightarrow> u64 \<Rightarrow> bool" where
  "far p q \<longleftrightarrow> unat p + 32 \<le> unat q \<or> unat q + 32 \<le> unat p"

lemma far_sym: "far p q \<longleftrightarrow> far q p"
  by (auto simp: far_def)

lemma far_irrefl [simp]: "\<not> far p p"
  by (auto simp: far_def)

lemma far_neq: "far p q \<Longrightarrow> p \<noteq> q"
  by (auto simp: far_def)

lemma okp_offset:
  assumes "okp p" shows "unat (p + 8) = unat p + 8" "unat (p + 16) = unat p + 16"
  using assms by (auto simp: okp_def unat_add_no_wrap)

lemma set_word0_at:
  assumes "okp p" "okp q" "p = q \<or> far p q"
  shows "word0 (set_word0 p v s) q = (if q = p then v else word0 s q)"
    and "size_at (set_word0 p v s) q = size_at s q"
  using assms okp_offset [of p] okp_offset [of q]
  by (auto simp: word0_def set_word0_def size_at_def far_def okp_def intro!: rd64_wr64_other)

lemma set_size_at:
  assumes "okp p" "okp q" "p = q \<or> far p q"
  shows "size_at (set_size p v s) q = (if q = p then v else size_at s q)"
    and "word0 (set_size p v s) q = word0 s q"
  using assms okp_offset [of p] okp_offset [of q]
  by (auto simp: word0_def set_size_def size_at_def far_def okp_def intro!: rd64_wr64_other)

lemma set_align_at:
  assumes "okp p" "okp q" "p = q \<or> far p q"
  shows "size_at (set_align p v s) q = size_at s q" and "word0 (set_align p v s) q = word0 s q"
  using assms okp_offset [of p] okp_offset [of q]
  by (auto simp: word0_def set_align_def size_at_def far_def okp_def intro!: rd64_wr64_other)

text \<open>The bytes that a header or a node does not use, and words read from bytes that did not change.\<close>

definition off :: "u64 \<Rightarrow> u64 \<Rightarrow> bool" where
  "off p a \<longleftrightarrow> okp p \<and> (unat a < unat p \<or> unat p + 24 \<le> unat a)"

lemma set_off:
  assumes "off p a"
  shows "hmem (set_word0 p v s) a = hmem s a" "hmem (set_size p v s) a = hmem s a"
    "hmem (set_align p v s) a = hmem s a"
  using assms okp_offset [of p]
  by (auto simp: off_def okp_def set_word0_def set_size_def set_align_def wr64_def intro!: wr_bytes_outside)

lemma rd64_cong:
  assumes "unat q + 8 \<le> 2 ^ 64" "\<And>a. unat q \<le> unat a \<Longrightarrow> unat a < unat q + 8 \<Longrightarrow> m' a = m a"
  shows "rd64 m' q = rd64 m q"
proof -
  have "m' (q + of_nat i) = m (q + of_nat i)" if "i < 8" for i
  proof (rule assms(2))
    have "unat (q + of_nat i) = unat q + i"
      using that assms(1) by (subst unat_add_no_wrap) (simp_all add: unat_of_nat_small)
    then show "unat q \<le> unat (q + of_nat i)" "unat (q + of_nat i) < unat q + 8" using that by simp_all
  qed
  then show ?thesis unfolding rd64_def by (intro arg_cong [where f = le_word] rd_bytes_cong) simp
qed

lemma words_cong:
  assumes "okp q" "\<And>a. unat q \<le> unat a \<Longrightarrow> unat a < unat q + 32 \<Longrightarrow> hmem s' a = hmem s a"
  shows "word0 s' q = word0 s q \<and> size_at s' q = size_at s q"
proof
  have q: "unat q + 32 \<le> 2 ^ 64" "unat (q + 8) = unat q + 8" using assms(1) okp_offset by (auto simp: okp_def)
  show "word0 s' q = word0 s q" unfolding word0_def by (rule rd64_cong) (use q assms(2) in auto)
  show "size_at s' q = size_at s q" unfolding size_at_def by (rule rd64_cong) (use q assms(2) in auto)
qed

text \<open>Everything of the state but the memory and the head of the large list.\<close>

definition same_rest :: "kheap \<Rightarrow> kheap \<Rightarrow> bool" where
  "same_rest s s' \<longleftrightarrow> s' = s\<lparr>hmem := hmem s', free_large := free_large s'\<rparr>"

lemma same_rest_refl [simp]: "same_rest s s"
  by (simp add: same_rest_def)

lemma same_rest_trans: "same_rest s s1 \<Longrightarrow> same_rest s1 s2 \<Longrightarrow> same_rest s s2"
  by (cases s; cases s1; cases s2) (simp add: same_rest_def)

lemma same_rest_set [simp]:
  "same_rest s (set_word0 p v s)" "same_rest s (set_size p v s)" "same_rest s (set_align p v s)"
  "same_rest s (link q v s)"
  by (simp_all add: same_rest_def set_word0_def set_size_def set_align_def link_def split: option.split)

lemma free_large_set [simp]:
  "free_large (set_word0 p v s) = free_large s" "free_large (set_size p v s) = free_large s"
  "free_large (set_align p v s) = free_large s"
  by (simp_all add: set_word0_def set_size_def set_align_def)

lemma words_rest [simp]:
  "word0 (s\<lparr>free_large := v\<rparr>) q = word0 s q" "size_at (s\<lparr>free_large := v\<rparr>) q = size_at s q"
  by (simp_all add: word0_def size_at_def)

section \<open>The large list as a list of blocks\<close>

definition ext :: "kheap \<Rightarrow> u64 \<Rightarrow> nat \<times> nat" where "ext s p = (unat p, unat (size_at s p))"

definition okext :: "kheap \<Rightarrow> u64 \<Rightarrow> bool" where
  "okext s p \<longleftrightarrow> p \<noteq> 0 \<and> 32 \<le> unat (size_at s p) \<and> unat p + unat (size_at s p) < 2 ^ 64"

definition large_ok :: "kheap \<Rightarrow> u64 list \<Rightarrow> bool" where
  "large_ok s G \<longleftrightarrow> chain (next_of s) (ptr (free_large s)) G \<and> sorted_wrt (<) G \<and>
     (\<forall>g\<in>set G. okext s g) \<and> apart (map (ext s) G)"

text \<open>No block of the list ends where another one starts.\<close>

definition no_touch :: "kheap \<Rightarrow> u64 list \<Rightarrow> bool" where
  "no_touch s G \<longleftrightarrow> (\<forall>g\<in>set G. \<forall>h\<in>set G. unat g + unat (size_at s g) \<noteq> unat h)"

lemma no_touch_cong:
  "no_touch s G \<Longrightarrow> \<forall>g\<in>set G. size_at s' g = size_at s g \<Longrightarrow> no_touch s' G"
  by (simp add: no_touch_def)

lemma okext_okp: "okext s p \<Longrightarrow> okp p"
  by (auto simp: okext_def okp_def)

lemma ext_far: "okext s p \<Longrightarrow> okext s q \<Longrightarrow> dj (ext s p) (ext s q) \<Longrightarrow> far p q"
  by (auto simp: okext_def far_def dj_def ext_def)

text \<open>Going from one state of the list to the next: the blocks cover the same bytes, so whatever was
  apart from them stays so, and bytes outside the headers of the list are not touched.\<close>

definition covered :: "kheap \<Rightarrow> u64 \<Rightarrow> kheap \<Rightarrow> u64 list \<Rightarrow> bool" where
  "covered s p s' G' \<longleftrightarrow> (\<exists>g\<in>set G'. unat g \<le> unat p \<and>
     unat p + unat (size_at s p) \<le> unat g + unat (size_at s' g))"

definition step_ok :: "kheap \<Rightarrow> u64 list \<Rightarrow> kheap \<Rightarrow> u64 list \<Rightarrow> bool" where
  "step_ok s G s' G' \<longleftrightarrow> same_rest s s' \<and> set G' \<subseteq> set G \<and>
     (\<forall>R. (\<forall>y\<in>set R. 0 < snd y) \<longrightarrow> apart (map (ext s) G @ R) \<longrightarrow> apart (map (ext s') G' @ R)) \<and>
     (\<Sum>g\<leftarrow>G. unat (size_at s g)) = (\<Sum>g\<leftarrow>G'. unat (size_at s' g)) \<and>
     (\<forall>lo hi. (\<forall>g\<in>set G. lo \<le> unat g \<and> unat g + unat (size_at s g) \<le> hi) \<longrightarrow>
              (\<forall>g\<in>set G'. lo \<le> unat g \<and> unat g + unat (size_at s' g) \<le> hi)) \<and>
     (\<forall>a. (\<forall>g\<in>set G. off g a) \<longrightarrow> hmem s' a = hmem s a) \<and>
     (\<forall>g\<in>set G. covered s g s' G')"

lemma step_ok_refl: "step_ok s G s G"
  by (auto simp: step_ok_def covered_def)

lemma step_okD:
  assumes "step_ok s G s' G'"
  shows "same_rest s s'" "set G' \<subseteq> set G"
    "\<And>R. \<forall>y\<in>set R. 0 < snd y \<Longrightarrow> apart (map (ext s) G @ R) \<Longrightarrow> apart (map (ext s') G' @ R)"
    "(\<Sum>g\<leftarrow>G. unat (size_at s g)) = (\<Sum>g\<leftarrow>G'. unat (size_at s' g))"
    "\<And>lo hi. \<forall>g\<in>set G. lo \<le> unat g \<and> unat g + unat (size_at s g) \<le> hi \<Longrightarrow>
              \<forall>g\<in>set G'. lo \<le> unat g \<and> unat g + unat (size_at s' g) \<le> hi"
    "\<And>a. \<forall>g\<in>set G. off g a \<Longrightarrow> hmem s' a = hmem s a"
    "\<And>g. g \<in> set G \<Longrightarrow> covered s g s' G'"
  using assms unfolding step_ok_def by blast+

lemma step_okI:
  assumes "same_rest s s'" "set G' \<subseteq> set G"
    "\<And>R. \<forall>y\<in>set R. 0 < snd y \<Longrightarrow> apart (map (ext s) G @ R) \<Longrightarrow> apart (map (ext s') G' @ R)"
    "(\<Sum>g\<leftarrow>G. unat (size_at s g)) = (\<Sum>g\<leftarrow>G'. unat (size_at s' g))"
    "\<And>lo hi. \<forall>g\<in>set G. lo \<le> unat g \<and> unat g + unat (size_at s g) \<le> hi \<Longrightarrow>
              \<forall>g\<in>set G'. lo \<le> unat g \<and> unat g + unat (size_at s' g) \<le> hi"
    "\<And>a. \<forall>g\<in>set G. off g a \<Longrightarrow> hmem s' a = hmem s a"
    "\<And>g. g \<in> set G \<Longrightarrow> covered s g s' G'"
  shows "step_ok s G s' G'"
  using assms unfolding step_ok_def by blast

lemma step_ok_trans:
  assumes 1: "step_ok s G s1 G1" and 2: "step_ok s1 G1 s2 G2" shows "step_ok s G s2 G2"
proof (rule step_okI)
  note a = step_okD [OF 1] and b = step_okD [OF 2]
  show "same_rest s s2" by (rule same_rest_trans [OF a(1) b(1)])
  show "set G2 \<subseteq> set G" using a(2) b(2) by blast
  show "(\<Sum>g\<leftarrow>G. unat (size_at s g)) = (\<Sum>g\<leftarrow>G2. unat (size_at s2 g))" by (simp add: a(4) b(4))
  show "apart (map (ext s2) G2 @ R)" if "\<forall>y\<in>set R. 0 < snd y" "apart (map (ext s) G @ R)" for R
    by (rule b(3) [OF that(1) a(3) [OF that]])
  show "\<forall>g\<in>set G2. lo \<le> unat g \<and> unat g + unat (size_at s2 g) \<le> hi"
    if "\<forall>g\<in>set G. lo \<le> unat g \<and> unat g + unat (size_at s g) \<le> hi" for lo hi
    by (rule b(5) [OF a(5) [OF that]])
  show "hmem s2 x = hmem s x" if "\<forall>g\<in>set G. off g x" for x
    using a(6) [OF that] b(6) [of x] a(2) that by auto
  show "covered s g s2 G2" if "g \<in> set G" for g
  proof -
    from a(7) [OF that] obtain h where h: "h \<in> set G1" "unat h \<le> unat g"
      "unat g + unat (size_at s g) \<le> unat h + unat (size_at s1 h)" by (auto simp: covered_def)
    from b(7) [OF h(1)] obtain i where "i \<in> set G2" "unat i \<le> unat h"
      "unat h + unat (size_at s1 h) \<le> unat i + unat (size_at s2 i)" by (auto simp: covered_def)
    with h(2,3) show ?thesis unfolding covered_def by (intro bexI [of _ i]) auto
  qed
qed

section \<open>Inserting into the large list\<close>

lemma ptr_unptr [simp]: "ptr (unptr (hd_opt B)) = hd_opt B" if "0 \<notin> set B"
  using that by (cases B) (auto simp: ptr_def unptr_def hd_opt_def)

lemma ptr_nz: "p \<noteq> 0 \<Longrightarrow> ptr p = Some p"
  by (simp add: ptr_def)

lemma link_step:
  assumes ok: "large_ok s (A @ B)" and n: "okext s node"
    and ap: "apart (map (ext s) (node # A @ B))"
    and A: "\<forall>a\<in>set A. a < node" and B: "\<forall>b\<in>set B. node < b"
  defines "s2 \<equiv> link (last_opt None A) node (set_word0 node (unptr (hd_opt B)) s)"
  shows "large_ok s2 (A @ node # B)" "step_ok s (node # A @ B) s2 (A @ node # B)"
    "\<forall>g\<in>set (A @ node # B). size_at s2 g = size_at s g"
proof -
  have G: "chain (next_of s) (ptr (free_large s)) (A @ B)" "sorted_wrt (<) (A @ B)"
    "\<forall>g\<in>set (A @ B). okext s g" using ok by (simp_all add: large_ok_def)
  have all: "okext s g" "okp g" if "g \<in> set (node # A @ B)" for g
    using that G(3) n okext_okp by auto
  have d: "distinct (A @ B)" by (rule chain_distinct [OF G(1)])
  have nn: "node \<notin> set (A @ B)" using A B by auto
  have fa: "far node g" if "g \<in> set (A @ B)" for g
    using ext_far [of s node g] ap all that by auto
  have fab: "far g h" if "g \<in> set (A @ B)" "h \<in> set (A @ B)" "g \<noteq> h" for g h
    using apart_pair [of "ext s" "A @ B" g h] ext_far [of s g h] ap all that by simp
  have z: "0 \<notin> set B" using G(3) by (auto simp: okext_def)
  let ?s1 = "set_word0 node (unptr (hd_opt B)) s"
  have w: "word0 s2 g = (if g = node then unptr (hd_opt B)
                         else if A \<noteq> [] \<and> g = last A then node else word0 s g)"
    and sz: "size_at s2 g = size_at s g" if g: "g \<in> set (node # A @ B)" for g
  proof -
    have lA: "A \<noteq> [] \<Longrightarrow> last A \<in> set (A @ B)" by auto
    have f1: "node = g \<or> far node g" using fa g by auto
    have f2: "A \<noteq> [] \<Longrightarrow> last A = g \<or> far (last A) g" 
      using fab [of "last A" g] fa [of "last A"] far_sym [of node "last A"] lA g by (cases "g = node") auto
    note 1 = set_word0_at [OF all(2) all(2) [OF g] f1, of "unptr (hd_opt B)" s]
    show "size_at s2 g = size_at s g" "word0 s2 g = (if g = node then unptr (hd_opt B)
                         else if A \<noteq> [] \<and> g = last A then node else word0 s g)"
    proof (atomize (full), cases "A = []")
      case False
      note 2 = set_word0_at [OF all(2) all(2) [OF g] f2 [OF False], of node ?s1]
      show "size_at s2 g = size_at s g \<and> word0 s2 g = (if g = node then unptr (hd_opt B)
                         else if A \<noteq> [] \<and> g = last A then node else word0 s g)"
        using 1 2 lA [OF False] nn False by (auto simp: s2_def link_def last_opt_def)
    qed (use 1 in \<open>simp add: s2_def link_def last_opt_def\<close>)
  qed
  have nx: "next_of s2 g = (if g = node then hd_opt B else if A \<noteq> [] \<and> g = last A then Some node
      else next_of s g)" if "g \<in> set (node # A @ B)" for g
    using w [OF that] z n by (simp add: next_of_def ptr_nz okext_def)
  have fl: "ptr (free_large s2) = (if A = [] then Some node else ptr (free_large s))"
    using n by (auto simp: s2_def link_def last_opt_def ptr_def okext_def set_word0_def)
  have "chain (next_of s2) (if A = [] then Some node else ptr (free_large s)) (A @ node # B)"
    by (rule chain_insert [OF G(1) nn]) (use nx nn in auto)
  moreover have "sorted_wrt (<) (A @ node # B)" using G(2) A B by (auto simp: sorted_wrt_append)
  moreover have ex: "ext s2 g = ext s g" "okext s2 g = okext s g" if "g \<in> set (node # A @ B)" for g
    using sz [OF that] by (simp_all add: ext_def okext_def)
  then have me: "map (ext s2) (A @ node # B) = map (ext s) (A @ node # B)" by simp
  have pm: "apart (map (ext s) (node # A @ B) @ R) \<longleftrightarrow> apart (map (ext s) (A @ node # B) @ R)" for R
    by (rule apart_perm) simp
  ultimately show "large_ok s2 (A @ node # B)"
    unfolding large_ok_def fl me using all ex pm [of "[]"] ap by auto
  show "\<forall>g\<in>set (A @ node # B). size_at s2 g = size_at s g" using sz by auto
  have msz: "map (\<lambda>g. unat (size_at s2 g)) (A @ node # B) = map (\<lambda>g. unat (size_at s g)) (A @ node # B)"
    using sz by auto
  show "step_ok s (node # A @ B) s2 (A @ node # B)"
  proof (rule step_okI)
    show "same_rest s s2" unfolding s2_def by (rule same_rest_trans [of _ ?s1]) simp_all
    show "apart (map (ext s2) (A @ node # B) @ R)" if "apart (map (ext s) (node # A @ B) @ R)" for R
      using that unfolding me pm .
    show "(\<Sum>g\<leftarrow>node # A @ B. unat (size_at s g)) = (\<Sum>g\<leftarrow>A @ node # B. unat (size_at s2 g))"
      unfolding msz by simp
    show "hmem s2 a = hmem s a" if a: "\<forall>g\<in>set (node # A @ B). off g a" for a
      using set_off(1) [of node a] set_off(1) [of "last A" a] a
      by (cases "A = []") (auto simp: s2_def link_def last_opt_def)
  qed (use sz in \<open>auto simp: covered_def\<close>)
qed

definition merge_nodes :: "u64 \<Rightarrow> u64 \<Rightarrow> kheap \<Rightarrow> kheap" where
  "merge_nodes x y s = (let s1 = set_size x (size_at s x + size_at s y) s in set_word0 x (word0 s1 y) s1)"

lemma large_ok_facts:
  assumes "large_ok s G" "g \<in> set G"
  shows "okext s g" "okp g" "g \<noteq> 0" "h \<in> set G \<Longrightarrow> g \<noteq> h \<Longrightarrow> far g h"
  using assms okext_okp [of s g] apart_pair [of "ext s" G g h] ext_far [of s g h]
  by (auto simp: large_ok_def okext_def)

lemma merge_step:
  assumes ok: "large_ok s (A @ x # y # B)" and adj: "x + size_at s x = y"
  shows "large_ok (merge_nodes x y s) (A @ x # B)"
    "step_ok s (A @ x # y # B) (merge_nodes x y s) (A @ x # B)"
    "unat (size_at (merge_nodes x y s) x) = unat (size_at s x) + unat (size_at s y)"
    "\<forall>g\<in>set (A @ B). size_at (merge_nodes x y s) g = size_at s g"
proof -
  let ?G = "A @ x # y # B" and ?s1 = "set_size x (size_at s x + size_at s y) s" and ?s' = "merge_nodes x y s"
  have G: "chain (next_of s) (ptr (free_large s)) ?G" "sorted_wrt (<) ?G" "apart (map (ext s) ?G)"
    using ok by (simp_all add: large_ok_def)
  have d: "distinct ?G" by (rule chain_distinct [OF G(1)])
  note F = large_ok_facts [OF ok]
  have at: "x = g \<or> far x g" if "g \<in> set ?G" for g using F(4) [of x g] that by auto
  have ua: "unat x + unat (size_at s x) = unat y"
    using F(1) [of x] adj unat_add_no_wrap [of x "size_at s x"] by (auto simp: okext_def)
  have sum: "unat (size_at s x + size_at s y) = unat (size_at s x) + unat (size_at s y)"
    using F(1) [of y] ua by (intro unat_add_no_wrap) (auto simp: okext_def)
  have wy: "word0 ?s1 y = word0 s y" using set_size_at(2) [OF F(2) F(2) at, of y] by simp
  have sz: "size_at ?s' g = (if g = x then size_at s x + size_at s y else size_at s g)"
    and w: "word0 ?s' g = (if g = x then word0 s y else word0 s g)" if g: "g \<in> set ?G" for g
    using set_size_at [OF F(2) F(2) [OF g] at [OF g], of "size_at s x + size_at s y" s]
      set_word0_at [OF F(2) F(2) [OF g] at [OF g], of "word0 s y" ?s1]
    by (auto simp: merge_nodes_def wy)
  have nx: "next_of ?s' g = (if g = x then next_of s y else next_of s g)" if "g \<in> set ?G" for g
    using w [OF that] by (simp add: next_of_def)
  have "chain (next_of s) (ptr (free_large s)) ((A @ [x]) @ y # B)" using G(1) by simp
  then have "chain (next_of ?s') (if A @ [x] = [] then hd_opt B else ptr (free_large s)) ((A @ [x]) @ B)"
  proof (rule chain_delete)
    have "chain (next_of s) (next_of s y) B" using G(1) by (auto simp: chain_append)
    then show "next_of ?s' (last (A @ [x])) = hd_opt B" using nx [of x] chain_head by auto
  qed (use nx in auto)
  then have ch: "chain (next_of ?s') (ptr (free_large ?s')) (A @ x # B)" by (simp add: merge_nodes_def Let_def)
  have ex: "ext ?s' x = (unat x, unat (size_at s x) + unat (size_at s y))" using sz [of x] sum by (simp add: ext_def)
  have exo: "ext ?s' g = ext s g" if "g \<in> set (A @ B)" for g using sz [of g] that d by (auto simp: ext_def)
  have mA: "map (ext ?s') A = map (ext s) A" "map (ext ?s') B = map (ext s) B" using exo by simp_all
  have ap: "apart (map (ext ?s') (A @ x # B) @ R)" if R: "\<forall>r\<in>set R. 0 < snd r" and a: "apart (map (ext s) ?G @ R)" for R
  proof -
    let ?R = "map (ext s) A @ map (ext s) B @ R"
    have "mset (map (ext s) ?G @ R) = mset (ext s x # ext s y # ?R)" by simp
    with a have "apart (ext s x # ext s y # ?R)" using apart_perm by blast
    then have "apart ((unat x, unat (size_at s x)) # (unat x + unat (size_at s x), unat (size_at s y)) # ?R)"
      by (simp add: ext_def ua)
    moreover have "0 < snd (ext s g)" if "g \<in> set ?G" for g
      using F(1) [OF that] by (simp add: ext_def okext_def)
    then have "\<forall>r\<in>set ?R. 0 < snd r" using R by auto
    ultimately have "apart ((unat x, unat (size_at s x) + unat (size_at s y)) # ?R)" by (rule apart_merge)
    then have "apart (ext ?s' x # ?R)" by (simp only: ex)
    moreover have "mset (map (ext ?s') (A @ x # B) @ R) = mset (ext ?s' x # ?R)" by (simp add: mA)
    ultimately show ?thesis using apart_perm by blast
  qed
  have okx: "okext ?s' g" if "g \<in> set (A @ x # B)" for g
  proof (cases "g = x")
    case True
    then show ?thesis using sz [of x] sum F(1) [of x] F(1) [of y] ua by (auto simp: okext_def)
  next
    case False
    then show ?thesis using sz [of g] F(1) [of g] that by (auto simp: okext_def)
  qed
  show "large_ok ?s' (A @ x # B)"
    unfolding large_ok_def using ch G(2) okx ap [of "[]"] G(3) by (auto simp: sorted_wrt_append)
  show "unat (size_at ?s' x) = unat (size_at s x) + unat (size_at s y)" using sz [of x] sum by simp
  show szo: "\<forall>g\<in>set (A @ B). size_at ?s' g = size_at s g" using sz d by auto
  have mm: "map (\<lambda>g. unat (size_at ?s' g)) A = map (\<lambda>g. unat (size_at s g)) A"
    "map (\<lambda>g. unat (size_at ?s' g)) B = map (\<lambda>g. unat (size_at s g)) B" using szo by simp_all
  show "step_ok s ?G ?s' (A @ x # B)"
  proof (rule step_okI)
    show "same_rest s ?s'" unfolding merge_nodes_def Let_def by (rule same_rest_trans [of _ ?s1]) simp_all
    show "(\<Sum>g\<leftarrow>?G. unat (size_at s g)) = (\<Sum>g\<leftarrow>A @ x # B. unat (size_at ?s' g))"
      using sz [of x] sum by (simp add: mm)
    show "apart (map (ext ?s') (A @ x # B) @ R)"
      if "\<forall>r\<in>set R. 0 < snd r" "apart (map (ext s) ?G @ R)" for R by (rule ap [OF that])
    show "\<forall>g\<in>set (A @ x # B). lo \<le> unat g \<and> unat g + unat (size_at ?s' g) \<le> hi"
      if "\<forall>g\<in>set ?G. lo \<le> unat g \<and> unat g + unat (size_at s g) \<le> hi" for lo hi
      using that szo sz [of x] sum ua by auto
    show "hmem ?s' a = hmem s a" if "\<forall>g\<in>set ?G. off g a" for a
      using set_off(1,2) [of x a] that by (simp add: merge_nodes_def Let_def)
    show "covered s g ?s' (A @ x # B)" if g: "g \<in> set ?G" for g
    proof (cases "g = x \<or> g = y")
      case True
      then show ?thesis using sz [of x] sum ua by (auto simp: covered_def)
    next
      case False
      then have "g \<in> set (A @ B)" using g by auto
      then show ?thesis using szo by (auto simp: covered_def)
    qed
  qed auto
qed

lemma coalesce_next_merge:
  "coalesce_next node cur s =
     (case cur of None \<Rightarrow> s | Some c \<Rightarrow> if node + size_at s node = c then merge_nodes node c s else s)"
  by (simp add: coalesce_next_def merge_nodes_def Let_def split: option.split)

lemma coalesce_prev_merge:
  assumes "okp q"
  shows "coalesce_prev node (Some q) s =
     (if q + size_at s q = node
      then (let s2 = merge_nodes q node s
            in if word0 s2 q \<noteq> 0 \<and> q + size_at s2 q = word0 s2 q then merge_nodes q (word0 s2 q) s2 else s2)
      else s)"
proof -
  have "word0 (set_size q v s') q = word0 s' q" for v s'
    using set_size_at(2) [OF assms assms] by simp
  then show ?thesis
    by (simp add: coalesce_prev_def merge_nodes_def Let_def)
qed

lemma touch_iff:
  "okext s g \<Longrightarrow> g + size_at s g = h \<longleftrightarrow> unat g + unat (size_at s g) = unat h"
  using unat_add_no_wrap [of g "size_at s g"] by (auto simp: okext_def word_eq_unat)

lemma align_step:
  assumes ok: "large_ok s G" and n: "okext s node" and ap: "apart (map (ext s) (node # G))"
  shows "large_ok (set_align node v s) G" "step_ok s (node # G) (set_align node v s) (node # G)"
    "g \<in> set (node # G) \<Longrightarrow> size_at (set_align node v s) g = size_at s g"
proof -
  let ?s = "set_align node v s"
  have at: "okp g" "node = g \<or> far node g" if g: "g \<in> set (node # G)" for g
    using g okext_okp [OF n] large_ok_facts(1,2) [OF ok, of g] n ap ext_far [of s node g] by auto
  have sz: "size_at ?s g = size_at s g" "word0 ?s g = word0 s g" if "g \<in> set (node # G)" for g
    using set_align_at [OF okext_okp [OF n] at [OF that]] by simp_all
  show "size_at ?s g = size_at s g" if "g \<in> set (node # G)" using sz [OF that] by simp
  have ex: "map (ext ?s) (node # G) = map (ext s) (node # G)" using sz by (simp add: ext_def)
  have "chain (next_of ?s) p G \<longleftrightarrow> chain (next_of s) p G" for p
    by (rule chain_cong) (simp add: next_of_def sz)
  moreover have me: "map (ext ?s) G = map (ext s) G" using ex by simp
  ultimately show "large_ok ?s G"
    using ok sz by (simp add: large_ok_def okext_def me)
  show "step_ok s (node # G) ?s (node # G)"
  proof (rule step_okI)
    show "hmem ?s a = hmem s a" if "\<forall>g\<in>set (node # G). off g a" for a
      using set_off(3) [of node a] that by simp
    show "apart (map (ext ?s) (node # G) @ R)" if "apart (map (ext s) (node # G) @ R)" for R
      using that unfolding ex .
    have m: "map (\<lambda>g. unat (size_at ?s g)) G = map (\<lambda>g. unat (size_at s g)) G" using sz by simp
    show "(\<Sum>g\<leftarrow>node # G. unat (size_at s g)) = (\<Sum>g\<leftarrow>node # G. unat (size_at ?s g))"
      by (simp add: m sz)
  qed (use sz in \<open>auto simp: covered_def\<close>)
qed

lemma next_step:
  assumes ok: "large_ok s (A @ node # B)" and nt: "no_touch s (A @ B)"
  obtains B' where "large_ok (coalesce_next node (hd_opt B) s) (A @ node # B')"
    "step_ok s (A @ node # B) (coalesce_next node (hd_opt B) s) (A @ node # B')"
    "no_touch (coalesce_next node (hd_opt B) s) (A @ B')"
    "\<forall>h\<in>set (A @ B'). unat node + unat (size_at (coalesce_next node (hd_opt B) s) node) \<noteq> unat h"
proof (cases B)
  case Nil
  have "unat node + unat (size_at s node) \<noteq> unat h" if "h \<in> set A" for h
    using that ok by (auto simp: Nil large_ok_def sorted_wrt_append word_less_nat_alt)
  then show thesis
    using that [of "[]"] ok nt by (simp add: Nil hd_opt_def coalesce_next_merge step_ok_refl)
next
  case (Cons c B2)
  note F = large_ok_facts [OF ok]
  have okn: "okext s node" using F(1) [of node] by simp
  have srt: "\<forall>a\<in>set A. a < node" "node < c" "\<forall>b\<in>set B2. c < b"
    using ok by (auto simp: Cons large_ok_def sorted_wrt_append)
  show thesis
  proof (cases "node + size_at s node = c")
    case True
    note M = merge_step [OF ok [unfolded Cons] True]
    let ?s = "merge_nodes node c s"
    have e: "coalesce_next node (hd_opt B) s = ?s" using True by (simp add: Cons hd_opt_def coalesce_next_merge)
    have "unat node + unat (size_at s node) = unat c" using touch_iff [OF okn, of c] True by simp
    then have "unat node + unat (size_at ?s node) = unat c + unat (size_at s c)" using M(3) by simp
    with nt have "\<forall>h\<in>set (A @ B2). unat node + unat (size_at ?s node) \<noteq> unat h"
      by (auto simp: Cons no_touch_def)
    moreover have "no_touch ?s (A @ B2)" using nt M(4) by (auto simp: Cons no_touch_def)
    ultimately show thesis using that [of B2] M(1,2) unfolding e by (simp add: Cons)
  next
    case False
    have e: "coalesce_next node (hd_opt B) s = s" using False by (simp add: Cons hd_opt_def coalesce_next_merge)
    have nc: "unat node + unat (size_at s node) \<noteq> unat c" using touch_iff [OF okn] False by simp
    have "dj (ext s node) (ext s c)" using apart_pair [of "ext s" "A @ node # B" node c] ok srt
      by (auto simp: large_ok_def Cons)
    then have "unat node + unat (size_at s node) \<le> unat c"
      using srt(2) F(1) [of c] by (auto simp: dj_def ext_def word_less_nat_alt okext_def Cons)
    with nc srt have "\<forall>h\<in>set (A @ B). unat node + unat (size_at s node) \<noteq> unat h"
      by (fastforce simp: Cons word_less_nat_alt)
    then show thesis using that [of B] ok nt unfolding e by (simp add: step_ok_refl)
  qed
qed

lemma prev_step:
  assumes ok: "large_ok s (A @ node # B)" and nt: "no_touch s (A @ B)"
    and ne: "\<forall>h\<in>set (A @ B). unat node + unat (size_at s node) \<noteq> unat h"
  obtains G where "large_ok (coalesce_prev node (last_opt None A) s) G"
    "step_ok s (A @ node # B) (coalesce_prev node (last_opt None A) s) G"
    "no_touch (coalesce_prev node (last_opt None A) s) G"
proof (cases A rule: rev_cases)
  case Nil
  have "no_touch s (node # B)"
  proof -
    have "\<forall>b\<in>set B. node < b" "okext s node" using ok by (auto simp: Nil large_ok_def)
    then show ?thesis using nt ne by (fastforce simp: Nil no_touch_def okext_def word_less_nat_alt)
  qed
  then show thesis
    using that [of "node # B"] ok by (simp add: Nil last_opt_def coalesce_prev_def step_ok_refl)
next
  case (snoc A1 q)
  note F = large_ok_facts [OF ok]
  have okq: "okext s q" "okp q" and okn: "okext s node" using F(1,2) [of q] F(1) [of node] by (simp_all add: snoc)
  have srt: "\<forall>a\<in>set A1. a < q" "q < node" "\<forall>b\<in>set B. node < b"
    using ok by (auto simp: snoc large_ok_def sorted_wrt_append)
  show thesis
  proof (cases "q + size_at s q = node")
    case True
    have ok': "large_ok s (A1 @ q # node # B)" using ok by (simp add: snoc)
    note M = merge_step [OF ok' True]
    let ?s = "merge_nodes q node s"
    have "unat q + unat (size_at s q) = unat node" using touch_iff [OF okq(1), of node] True by simp
    then have qe: "unat q + unat (size_at ?s q) = unat node + unat (size_at s node)" using M(3) by simp
    have okq': "okext ?s q" using M(1) by (simp add: large_ok_def)
    have "chain (next_of ?s) (ptr (free_large ?s)) (A1 @ q # B)" using M(1) by (simp add: large_ok_def)
    then have "next_of ?s q = hd_opt B" using chain_head by (fastforce simp: chain_append)
    then have "word0 ?s q \<noteq> 0 \<Longrightarrow> word0 ?s q \<in> set B"
      by (cases B) (auto simp: next_of_def ptr_def hd_opt_def split: if_splits)
    then have "\<not> (word0 ?s q \<noteq> 0 \<and> q + size_at ?s q = word0 ?s q)"
      using touch_iff [OF okq'] qe ne by auto
    then have e: "coalesce_prev node (last_opt None A) s = ?s"
      using True coalesce_prev_merge [OF okq(2)] by (auto simp: snoc last_opt_def Let_def)
    have "no_touch ?s (A1 @ q # B)"
      using nt ne qe M(4) by (auto simp: no_touch_def snoc)
    then show thesis using that [of "A1 @ q # B"] M(1,2) unfolding e by (simp add: snoc)
  next
    case False
    have e: "coalesce_prev node (last_opt None A) s = s"
      using False coalesce_prev_merge [OF okq(2)] by (simp add: snoc last_opt_def)
    have nq: "unat q + unat (size_at s q) \<noteq> unat node" using touch_iff [OF okq(1)] False by simp
    have "unat a + unat (size_at s a) \<noteq> unat node" if a: "a \<in> set A1" for a
    proof -
      have "dj (ext s a) (ext s q)" using apart_pair [of "ext s" "A @ node # B" a q] ok srt(1) a
        by (auto simp: large_ok_def snoc)
      then show ?thesis using srt a okq F(1) [of a] by (fastforce simp: dj_def ext_def word_less_nat_alt okext_def snoc)
    qed
    moreover have "unat b + unat (size_at s b) \<noteq> unat node" if "b \<in> set B" for b
      using srt(3) that by (fastforce simp: word_less_nat_alt)
    ultimately have "no_touch s (A @ node # B)"
      using nt ne nq okn by (auto simp: no_touch_def snoc okext_def)
    then show thesis using that [of "A @ node # B"] ok unfolding e by (simp add: step_ok_refl)
  qed
qed

text \<open>Inserting a block keeps the list sorted, disjoint and without touching neighbours, and the
  list covers exactly the old bytes and those of the new block.\<close>

lemma insert_large_node_spec:
  assumes ok: "large_ok s G" and nt: "no_touch s G" and n: "okext s node" "is_canonical node"
    and ap: "apart (map (ext s) (node # G))"
  obtains s' G' where "insert_large_node node s = Ret s'" "large_ok s' G'" "no_touch s' G'"
    "step_ok s (node # G) s' G'"
proof -
  let ?s1 = "set_align node 16 s"
  let ?A = "takeWhile (\<lambda>c. \<not> \<not> c < node) G" and ?B = "dropWhile (\<lambda>c. \<not> \<not> c < node) G"
  note a = align_step [OF ok n(1) ap, where v = 16]
  have G: "G = ?A @ ?B" by simp
  have ok1: "large_ok ?s1 (?A @ ?B)" using a(1) by simp
  have n1: "okext ?s1 node" using n(1) a(3) by (simp add: okext_def)
  have ap1: "apart (map (ext ?s1) (node # ?A @ ?B))"
    using step_okD(3) [OF a(2), of "[]"] ap by simp
  have nt1: "no_touch ?s1 (?A @ ?B)" using nt a(3) by (simp add: no_touch_def)
  have nG: "node \<notin> set G" using ap n(1) by (auto simp: dj_def ext_def okext_def)
  have A: "\<forall>x\<in>set ?A. x < node" by (auto dest: set_takeWhileD)
  have B: "\<forall>x\<in>set ?B. node < x"
  proof (cases ?B)
    case (Cons b bs)
    then have "\<not> b < node" by (metis hd_dropWhile list.distinct(1) list.sel(1))
    moreover have "b \<noteq> node" using nG Cons by (metis list.set_intros(1) set_dropWhileD)
    moreover have "sorted_wrt (<) ?B" using ok G by (metis large_ok_def sorted_wrt_append)
    ultimately show ?thesis using Cons by fastforce
  next
    case Nil
    show ?thesis unfolding Nil by simp
  qed
  have w: "walk_prev (next_of ?s1) (\<lambda>c. \<not> c < node) None (ptr (free_large ?s1)) =
      Some (last_opt None ?A, hd_opt ?B)"
    by (rule walk_prev_chain) (use a(1) in \<open>simp add: large_ok_def\<close>)
  define s2 where "s2 = link (last_opt None ?A) node (set_word0 node (unptr (hd_opt ?B)) ?s1)"
  note l = link_step [OF ok1 n1 ap1 A B, folded s2_def]
  have nt2: "no_touch s2 (?A @ ?B)"
  proof (rule no_touch_cong [OF nt1])
    show "\<forall>g\<in>set (?A @ ?B). size_at s2 g = size_at ?s1 g"
      using l(3) unfolding set_append by (metis UnCI UnE list.set_intros(2))
  qed
  from next_step [OF l(1) nt2] obtain B' where
    N: "large_ok (coalesce_next node (hd_opt ?B) s2) (?A @ node # B')"
      "step_ok s2 (?A @ node # ?B) (coalesce_next node (hd_opt ?B) s2) (?A @ node # B')"
      "no_touch (coalesce_next node (hd_opt ?B) s2) (?A @ B')"
      "\<forall>h\<in>set (?A @ B'). unat node + unat (size_at (coalesce_next node (hd_opt ?B) s2) node) \<noteq> unat h" .
  from prev_step [OF N(1,3,4)] obtain G' where
    P: "large_ok (coalesce_prev node (last_opt None ?A) (coalesce_next node (hd_opt ?B) s2)) G'"
      "step_ok (coalesce_next node (hd_opt ?B) s2) (?A @ node # B')
         (coalesce_prev node (last_opt None ?A) (coalesce_next node (hd_opt ?B) s2)) G'"
      "no_touch (coalesce_prev node (last_opt None ?A) (coalesce_next node (hd_opt ?B) s2)) G'" .
  have "step_ok ?s1 (node # G) s2 (?A @ node # ?B)" using l(2) by simp
  then have "step_ok s (node # G) (coalesce_prev node (last_opt None ?A) (coalesce_next node (hd_opt ?B) s2)) G'"
    using step_ok_trans a(2) N(2) P(2) by meson
  moreover have "insert_large_node node s =
      Ret (coalesce_prev node (last_opt None ?A) (coalesce_next node (hd_opt ?B) s2))"
    using n w by (simp add: insert_large_node_def Let_def s2_def okext_def)
  ultimately show thesis using that P by blast
qed

text \<open>The effect of an operation on the large list in terms of extents: the blocks \<open>X\<close> and those of
  \<open>G\<close> become the blocks of \<open>G'\<close>, which lie inside them; bytes elsewhere are not touched.\<close>

definition clear :: "nat \<times> nat \<Rightarrow> u64 \<Rightarrow> bool" where
  "clear x a \<longleftrightarrow> unat a < fst x \<or> fst x + snd x \<le> unat a"

definition grown :: "kheap \<Rightarrow> kheap \<Rightarrow> (nat \<times> nat) list \<Rightarrow> u64 list \<Rightarrow> u64 list \<Rightarrow> bool" where
  "grown s s' X G G' \<longleftrightarrow> same_rest s s' \<and> large_ok s' G' \<and> no_touch s' G' \<and>
     (\<forall>R. (\<forall>y\<in>set R. 0 < snd y) \<longrightarrow> apart (X @ map (ext s) G @ R) \<longrightarrow> apart (map (ext s') G' @ R)) \<and>
     (\<forall>lo hi. (\<forall>x\<in>set (X @ map (ext s) G). lo \<le> fst x \<and> fst x + snd x \<le> hi) \<longrightarrow>
              (\<forall>g\<in>set G'. lo \<le> unat g \<and> unat g + unat (size_at s' g) \<le> hi)) \<and>
     (\<forall>a. (\<forall>x\<in>set (X @ map (ext s) G). clear x a) \<longrightarrow> hmem s' a = hmem s a)"

lemma grownD:
  assumes "grown s s' X G G'"
  shows "same_rest s s'" "large_ok s' G'" "no_touch s' G'"
    "\<And>R. \<forall>y\<in>set R. 0 < snd y \<Longrightarrow> apart (X @ map (ext s) G @ R) \<Longrightarrow> apart (map (ext s') G' @ R)"
    "\<And>lo hi. \<forall>x\<in>set (X @ map (ext s) G). lo \<le> fst x \<and> fst x + snd x \<le> hi \<Longrightarrow>
              \<forall>g\<in>set G'. lo \<le> unat g \<and> unat g + unat (size_at s' g) \<le> hi"
    "\<And>a. \<forall>x\<in>set (X @ map (ext s) G). clear x a \<Longrightarrow> hmem s' a = hmem s a"
  using assms unfolding grown_def by blast+

lemma grownI:
  assumes "same_rest s s'" "large_ok s' G'" "no_touch s' G'"
    "\<And>R. \<forall>y\<in>set R. 0 < snd y \<Longrightarrow> apart (X @ map (ext s) G @ R) \<Longrightarrow> apart (map (ext s') G' @ R)"
    "\<And>lo hi. \<forall>x\<in>set (X @ map (ext s) G). lo \<le> fst x \<and> fst x + snd x \<le> hi \<Longrightarrow>
              \<forall>g\<in>set G'. lo \<le> unat g \<and> unat g + unat (size_at s' g) \<le> hi"
    "\<And>a. \<forall>x\<in>set (X @ map (ext s) G). clear x a \<Longrightarrow> hmem s' a = hmem s a"
  shows "grown s s' X G G'"
  using assms unfolding grown_def by blast

lemma grown_refl:
  assumes "large_ok s G" "no_touch s G" shows "grown s s X G G"
proof (rule grownI)
  show "\<forall>g\<in>set G. lo \<le> unat g \<and> unat g + unat (size_at s g) \<le> hi"
    if h: "\<forall>x\<in>set (X @ map (ext s) G). lo \<le> fst x \<and> fst x + snd x \<le> hi" for lo hi
  proof
    fix g assume "g \<in> set G"
    then have "ext s g \<in> set (X @ map (ext s) G)" by simp
    from bspec [OF h this] show "lo \<le> unat g \<and> unat g + unat (size_at s g) \<le> hi" by (simp add: ext_def)
  qed
qed (use assms in auto)

lemma dj_far:
  assumes "dj x (unat q, 32)" "fst x = unat p" "32 \<le> snd x" shows "far p q"
  using assms by (auto simp: dj_def far_def)

lemma insert_grown:
  assumes ok: "large_ok s G" "no_touch s G" and n: "okext s node" "is_canonical node"
    and ap: "apart (ext s node # map (ext s) G)"
  obtains s' G' where "insert_large_node node s = Ret s'" "grown s s' [ext s node] G G'"
    "step_ok s (node # G) s' G'"
proof -
  from ap have ap': "apart (map (ext s) (node # G))" by simp
  from insert_large_node_spec [OF ok n ap'] obtain s' G' where
    I: "insert_large_node node s = Ret s'" "large_ok s' G'" "no_touch s' G'" "step_ok s (node # G) s' G'" .
  note S = step_okD [OF I(4)]
  have "off g a" if g: "g \<in> set (node # G)" and d: "\<forall>x\<in>set ([ext s node] @ map (ext s) G). clear x a" for g a
  proof -
    have e: "okext s g" using g n(1) large_ok_facts(1) [OF ok(1), of g] by auto
    have "clear (ext s g) a" using d g by auto
    with e show ?thesis using okext_okp [OF e] by (auto simp: off_def clear_def ext_def okext_def)
  qed
  note fr = this
  have "grown s s' [ext s node] G G'"
  proof (rule grownI)
    show "apart (map (ext s') G' @ R)"
      if "\<forall>y\<in>set R. 0 < snd y" "apart ([ext s node] @ map (ext s) G @ R)" for R
      using S(3) [OF that(1)] that(2) by simp
    show "\<forall>g\<in>set G'. lo \<le> unat g \<and> unat g + unat (size_at s' g) \<le> hi"
      if "\<forall>x\<in>set ([ext s node] @ map (ext s) G). lo \<le> fst x \<and> fst x + snd x \<le> hi" for lo hi
      using that by (intro S(5)) (simp add: ext_def)
    show "hmem s' a = hmem s a" if "\<forall>x\<in>set ([ext s node] @ map (ext s) G). clear x a" for a
      using fr that by (intro S(6)) blast
  qed (fact I(2) I(3) S(1))+
  from that [OF I(1) this I(4)] show thesis .
qed

lemma words_frame_large_ok:
  assumes "large_ok s G" "no_touch s G" "free_large s' = free_large s"
    and w: "\<forall>g\<in>set G. word0 s' g = word0 s g \<and> size_at s' g = size_at s g"
  shows "large_ok s' G" "no_touch s' G" "map (ext s') G = map (ext s) G"
proof -
  have "chain (next_of s') q G \<longleftrightarrow> chain (next_of s) q G" for q
    by (rule chain_cong) (simp add: next_of_def w)
  moreover show me: "map (ext s') G = map (ext s) G" using w by (simp add: ext_def)
  ultimately show "large_ok s' G" using assms(1,3) w by (simp add: large_ok_def okext_def me)
  show "no_touch s' G" using no_touch_cong [OF assms(2)] w by blast
qed

lemma dj_okp_far: "okp q \<Longrightarrow> dj (unat p, n) (unat q, 32) \<Longrightarrow> 32 \<le> n \<Longrightarrow> far p q"
  by (auto simp: dj_def far_def)

lemma fragment_grown:
  assumes ok: "large_ok s G" "no_touch s G"
    and a: "a \<noteq> 0" "is_canonical a" "unat a + unat sz < 2 ^ 64"
    and ap: "apart ((unat a, unat sz) # map (ext s) G)"
  obtains s' G' where "insert_large_fragment a sz s = Ret s'" "grown s s' [(unat a, unat sz)] G G'"
proof (cases "sz < large_split_min")
  case True
  have "grown s s [(unat a, unat sz)] G G"
    by (rule grownI) (use ok in \<open>auto simp: ext_def\<close>)
  with True show thesis by (intro that [of s]) (simp_all add: insert_large_fragment_def)
next
  case False
  then have sz: "64 \<le> unat sz" by (simp add: large_split_min_def HEAP_PAYLOAD_OFFSET_def word_less_nat_alt)
  let ?s = "set_size a sz s"
  have oka: "okp a" using a sz by (simp add: okp_def)
  have fg: "far a g" if "g \<in> set G" for g
    using ap that large_ok_facts(1,2) [OF ok(1) that] sz
    by (intro dj_okp_far [of g a "unat sz"]) (auto simp: dj_def ext_def okext_def)
  have w: "word0 ?s q = word0 s q \<and> size_at ?s q = size_at s q" if "okp q" "far a q" for q
    using set_size_at [OF oka that(1)] that(2) far_neq [OF that(2)] by auto
  have sa: "size_at ?s a = sz" using set_size_at(1) [OF oka oka] by simp
  have wG: "\<forall>g\<in>set G. word0 ?s g = word0 s g \<and> size_at ?s g = size_at s g"
    using w large_ok_facts(2) [OF ok(1)] fg by blast
  note L = words_frame_large_ok [OF ok free_large_set(2) wG]
  have ea: "ext ?s a = (unat a, unat sz)" by (simp add: ext_def sa)
  have "okext ?s a" using a sz by (simp add: okext_def sa)
  moreover have "apart (ext ?s a # map (ext ?s) G)" using ap by (simp only: ea L(3))
  ultimately obtain s' G' where I: "insert_large_node a ?s = Ret s'" "grown ?s s' [ext ?s a] G G'"
    using insert_grown [OF L(1,2) _ a(2)] by blast
  note D = grownD [OF I(2), unfolded ea L(3)]
  have "grown s s' [(unat a, unat sz)] G G'"
  proof (rule grownI)
    show "same_rest s s'" by (rule same_rest_trans [OF _ D(1)]) simp
    fix x assume x: "\<forall>y\<in>set ([(unat a, unat sz)] @ map (ext s) G). clear y x"
    then have "off a x" using oka sz by (auto simp: off_def clear_def)
    then show "hmem s' x = hmem s x" using D(6) [OF x] set_off(2) [of a x] by simp
  qed (fact D(2) D(3) D(4) D(5))+
  moreover have "insert_large_fragment a sz s = Ret s'"
    using False a(2) I(1) by (simp add: insert_large_fragment_def)
  ultimately show thesis by (intro that)
qed

section \<open>Carving a block out of the large list\<close>

lemma unlink_grown:
  assumes ok: "large_ok s (A @ x # B)" "no_touch s (A @ x # B)"
  defines "s1 \<equiv> link (last_opt None A) (word0 s x) s"
  shows "grown s s1 [] (A @ x # B) (A @ B)" "map (ext s1) (A @ B) = map (ext s) (A @ B)"
proof -
  let ?G = "A @ x # B"
  have c: "chain (next_of s) (ptr (free_large s)) ?G" using ok(1) by (simp add: large_ok_def)
  have d: "distinct ?G" by (rule chain_distinct [OF c])
  note F = large_ok_facts [OF ok(1)]
  have w: "word0 s1 q = (if A \<noteq> [] \<and> q = last A then word0 s x else word0 s q)"
    and sz: "size_at s1 q = size_at s q" if "okp q" "A \<noteq> [] \<longrightarrow> last A = q \<or> far (last A) q" for q
    using that set_word0_at [of "last A" q "word0 s x" s] F(2) [of "last A"]
    by (auto simp: s1_def link_def last_opt_def)
  have at: "okp g" "A \<noteq> [] \<longrightarrow> last A = g \<or> far (last A) g" if "g \<in> set ?G" for g
    using F(2) [OF that] F(4) [of "last A" g] that by (cases "last A = g"; auto)+
  have wG: "word0 s1 g = (if A \<noteq> [] \<and> g = last A then word0 s x else word0 s g)"
    "size_at s1 g = size_at s g" if "g \<in> set ?G" for g
    using w [OF at [OF that]] sz [OF at [OF that]] by simp_all
  show me: "map (ext s1) (A @ B) = map (ext s) (A @ B)" using wG by (auto simp: ext_def)
  have nx: "ptr (word0 s x) = hd_opt B"
    using c chain_head by (fastforce simp: chain_append next_of_def)
  have fl: "ptr (free_large s1) = (if A = [] then hd_opt B else ptr (free_large s))"
    using nx by (simp add: s1_def link_def last_opt_def)
  have "chain (next_of s1) (if A = [] then hd_opt B else ptr (free_large s)) (A @ B)"
    by (rule chain_delete [OF c]) (use wG nx in \<open>auto simp: next_of_def\<close>)
  then have "chain (next_of s1) (ptr (free_large s1)) (A @ B)" using fl by simp
  moreover have "sorted_wrt (<) (A @ B)" "apart (map (ext s) (A @ B))"
    using ok(1) by (auto simp: large_ok_def sorted_wrt_append)
  moreover have "\<forall>g\<in>set (A @ B). okext s1 g" using F(1) wG by (auto simp: okext_def)
  ultimately have lo: "large_ok s1 (A @ B)" unfolding large_ok_def me by blast
  have nt: "no_touch s1 (A @ B)" using ok(2) wG by (auto simp: no_touch_def)
  show "grown s s1 [] ?G (A @ B)"
  proof (rule grownI)
    show "same_rest s s1" by (simp add: s1_def)
    show "large_ok s1 (A @ B)" "no_touch s1 (A @ B)" by (rule lo nt)+
    show "apart (map (ext s1) (A @ B) @ R)" if "apart ([] @ map (ext s) ?G @ R)" for R
      using that unfolding me by auto
    show "\<forall>g\<in>set (A @ B). lo \<le> unat g \<and> unat g + unat (size_at s1 g) \<le> hi"
      if h: "\<forall>e\<in>set ([] @ map (ext s) ?G). lo \<le> fst e \<and> fst e + snd e \<le> hi" for lo hi
    proof
      fix g assume g: "g \<in> set (A @ B)"
      then have "ext s g \<in> set ([] @ map (ext s) ?G)" by auto
      with h have "lo \<le> fst (ext s g) \<and> fst (ext s g) + snd (ext s g) \<le> hi" by blast
      with g wG(2) [of g] show "lo \<le> unat g \<and> unat g + unat (size_at s1 g) \<le> hi" by (auto simp: ext_def)
    qed
    fix a assume a: "\<forall>e\<in>set ([] @ map (ext s) ?G). clear e a"
    have "off (last A) a" if A: "A \<noteq> []"
    proof -
      have l: "last A \<in> set ?G" using A by simp
      then have "clear (ext s (last A)) a" using a by (metis append_Nil image_eqI list.set_map)
      then show ?thesis using F(1,2) [OF l] by (auto simp: ext_def okext_def off_def clear_def)
    qed
    then show "hmem s1 a = hmem s a"
      using set_off(1) [of "last A" a] by (auto simp: s1_def link_def last_opt_def)
  qed
qed

lemma write_hdr_at:
  assumes "okp p" "okp q" "p = q \<or> far p q"
  shows "word0 (write_hdr p c z a s) q = (if q = p then c else word0 s q)"
    "size_at (write_hdr p c z a s) q = (if q = p then z else size_at s q)"
  using assms by (auto simp: write_hdr_def set_word0_at set_size_at set_align_at)

lemma write_hdr_fields [simp]:
  "free_large (write_hdr p c z a s) = free_large s" "free_lists (write_hdr p c z a s) = free_lists s"
  "heap_cur (write_hdr p c z a s) = heap_cur s" "heap_end (write_hdr p c z a s) = heap_end s"
  by (simp_all add: write_hdr_def set_word0_def set_size_def set_align_def)

lemma words_counters [simp]:
  "word0 (s\<lparr>total_allocs := x, large_reuses := y\<rparr>) q = word0 s q"
  "size_at (s\<lparr>total_allocs := x, large_reuses := y\<rparr>) q = size_at s q"
  "word0 (s\<lparr>total_allocs := x, large_allocs := y\<rparr>) q = word0 s q"
  "size_at (s\<lparr>total_allocs := x, large_allocs := y\<rparr>) q = size_at s q"
  "word0 (s\<lparr>total_allocs := x, slab_allocs := z\<rparr>) q = word0 s q"
  "size_at (s\<lparr>total_allocs := x, slab_allocs := z\<rparr>) q = size_at s q"
  "word0 (s\<lparr>heap_cur := x\<rparr>) q = word0 s q" "size_at (s\<lparr>heap_cur := x\<rparr>) q = size_at s q"
  "word0 (s\<lparr>total_frees := x\<rparr>) q = word0 s q" "size_at (s\<lparr>total_frees := x\<rparr>) q = size_at s q"
  "word0 (s\<lparr>free_lists := l, total_frees := x\<rparr>) q = word0 s q"
  "size_at (s\<lparr>free_lists := l, total_frees := x\<rparr>) q = size_at s q"
  "word0 (s\<lparr>hpmm := p, heap_end := x\<rparr>) q = word0 s q"
  "size_at (s\<lparr>hpmm := p, heap_end := x\<rparr>) q = size_at s q"
  by (simp_all add: word0_def size_at_def)

lemma same_rest_fields:
  assumes "same_rest s s'"
  shows "free_lists s' = free_lists s" "heap_cur s' = heap_cur s" "heap_end s' = heap_end s"
  using assms by (cases s; cases s'; simp add: same_rest_def)+

lemma apart_split3:
  assumes "apart ((a, m) # R)" "a \<le> b" "b + n \<le> a + m"
  shows "apart ((a, b - a) # (b, n) # (b + n, a + m - (b + n)) # R)"
  using assms by (fastforce simp: dj_def)

lemma canonical_high: "HEAP_BASE \<le> a \<Longrightarrow> is_canonical a"
proof -
  assume a: "HEAP_BASE \<le> a"
  have "unat (drop_bit 47 a) = unat a div 2 ^ 47" by (simp add: drop_bit_eq_div unat_div)
  moreover have "0xFFFF900000000000 \<le> unat a" using a by (simp add: HEAP_BASE_def word_le_nat_alt)
  moreover have "unat a < 2 ^ 64" using unat_lt_64 [of a] by simp
  ultimately have "unat (drop_bit 47 a) = 0x1FFFF"
    by (simp add: div_nat_eqI)
  then show ?thesis by (simp add: is_canonical_def Let_def word_eq_unat)
qed

lemma aligned_in_facts:
  assumes j: "j < 63" and ra: "ra = 2 ^ j" and nw: "unat node + 32 + 2 ^ j < 2 ^ 64"
  shows "unat node \<le> unat (aligned_in node ra)" "unat (aligned_in node ra) < unat node + 2 ^ j"
    "unat (aligned_in node ra + 32) = unat (aligned_in node ra) + 32"
proof -
  let ?v = "node + 32"
  have v: "unat ?v = unat node + 32" using nw by (subst unat_add_no_wrap) simp_all
  have b: "unat ?v + 2 ^ j - 1 < 2 ^ 64" using nw v by simp
  have j64: "j < 64" using j by simp
  note al = align_up_facts [OF j64 b]
  have e: "aligned_in node ra = align_up ?v (2 ^ j) - 32" by (simp add: aligned_in_def ra HEAP_PAYLOAD_OFFSET_def)
  have le: "(32 :: u64) \<le> align_up ?v (2 ^ j)" using al(1) v by (simp add: word_le_nat_alt)
  have u: "unat (aligned_in node ra) = unat (align_up ?v (2 ^ j)) - 32"
    unfolding e using le by (subst unat_sub_no_wrap) simp_all
  show "unat node \<le> unat (aligned_in node ra)" "unat (aligned_in node ra) < unat node + 2 ^ j"
    using al(1,2) u v by simp_all
  show "unat (aligned_in node ra + 32) = unat (aligned_in node ra) + 32"
    using u le unat_lt_64 [of "align_up ?v (2 ^ j)"] by (subst unat_add_no_wrap) (simp_all add: word_le_nat_alt)
qed

lemma dj_clear: "dj x y \<Longrightarrow> fst y \<le> unat a \<Longrightarrow> unat a < fst y + snd y \<Longrightarrow> clear x a"
  by (auto simp: dj_def clear_def)

lemma grown_bytes:
  assumes "grown s s' X G G'" "apart (X @ map (ext s) G @ R)" "r \<in> set R"
    "fst r \<le> unat a" "unat a < fst r + snd r"
  shows "hmem s' a = hmem s a"
proof (rule grownD(6) [OF assms(1)])
  have "apart ((X @ map (ext s) G) @ R)" using assms(2) by simp
  then have "\<forall>x\<in>set (X @ map (ext s) G). dj x r" using assms(3) unfolding apart_simps(3) by blast
  then show "\<forall>x\<in>set (X @ map (ext s) G). clear x a" using dj_clear assms(4,5) by blast
qed

lemma grown_alive:
  assumes "grown s s' X G G'" "apart (X @ map (ext s) G @ R)" "\<forall>y\<in>set R. 32 \<le> snd y"
    "(unat q, n) \<in> set R" "okp q"
  shows "word0 s' q = word0 s q \<and> size_at s' q = size_at s q"
proof (rule words_cong [OF assms(5)])
  fix a :: u64 assume "unat q \<le> unat a" "unat a < unat q + 32"
  moreover have "32 \<le> n" using assms(3,4) by auto
  ultimately show "hmem s' a = hmem s a" using grown_bytes [OF assms(1,2,4)] by simp
qed

lemma take_large_spec:
  assumes ok: "large_ok s (A @ node # B)" "no_touch s (A @ node # B)"
    and fit: "large_fits tn ra s node" and j: "j < 63" "ra = 2 ^ j"
    and nw: "unat node + unat (size_at s node) + 32 + 2 ^ j < 2 ^ 64" and tn: "32 < unat tn"
    and hb: "HEAP_BASE \<le> node"
    and R: "apart (map (ext s) (A @ node # B) @ R)" "\<forall>y\<in>set R. 32 \<le> snd y"
  obtains a s' G' where "take_large tn ra (last_opt None A) node s = Ret (a + 32, s')"
    "large_ok s' G'" "no_touch s' G'" "apart (map (ext s') G' @ (unat a, unat tn) # R)"
    "unat node \<le> unat a" "unat a + unat tn \<le> unat node + unat (size_at s node)"
    "unat (a + 32) = unat a + 32" "word0 s' a = LARGE_CLASS" "size_at s' a = tn"
    "\<forall>lo hi. (\<forall>g\<in>set (A @ node # B). lo \<le> unat g \<and> unat g + unat (size_at s g) \<le> hi) \<longrightarrow>
       (\<forall>g\<in>set G'. lo \<le> unat g \<and> unat g + unat (size_at s' g) \<le> hi)"
    "\<forall>r\<in>set R. \<forall>x. fst r \<le> unat x \<and> unat x < fst r + snd r \<longrightarrow> hmem s' x = hmem s x"
    "free_lists s' = free_lists s" "heap_cur s' = heap_cur s" "heap_end s' = heap_end s"
proof -
  define a where "a = aligned_in node ra"
  define e where "e = node + size_at s node"
  have nw1: "unat node + 32 + 2 ^ j < 2 ^ 64" using nw by simp
  note al = aligned_in_facts [OF j nw1, folded a_def]
  note okn = large_ok_facts(1) [OF ok(1), of node, simplified]
  have ue: "unat e = unat node + unat (size_at s node)"
    unfolding e_def using okn by (subst unat_add_no_wrap) (simp_all add: okext_def)
  have fit': "unat tn \<le> unat (size_at s node)" "a + tn \<le> e"
    using fit by (simp_all add: large_fits_def a_def e_def word_le_nat_alt)
  have ua: "unat (a + tn) = unat a + unat tn"
    using al(2) nw fit'(1) by (intro unat_add_no_wrap) simp
  then have ate: "unat a + unat tn \<le> unat e" using fit'(2) by (simp add: word_le_nat_alt)
  have uf: "unat (a - node) = unat a - unat node" "unat (e - (a + tn)) = unat e - (unat a + unat tn)"
    using al(1) fit'(2) by (simp_all add: unat_sub_no_wrap word_le_nat_alt ua)
  let ?b = "(unat a, unat tn)"
  let ?front = "(unat node, unat (a - node))" and ?rear = "(unat (a + tn), unat (e - (a + tn)))"
  have okA: "okp a" using al(1,3) unat_lt_64 [of "a + 32"] okn by (auto simp: okp_def okext_def unat_eq_0)
  have posR: "\<forall>y\<in>set R. 0 < snd y" using R(2) by fastforce
  define s1 where "s1 = link (last_opt None A) (word0 s node) s"
  note U = unlink_grown [OF ok, folded s1_def]
  have ap0: "apart (?front # ?b # ?rear # map (ext s1) (A @ B) @ R)"
  proof -
    have "mset (map (ext s) (A @ node # B) @ R) = mset (ext s node # map (ext s) (A @ B) @ R)" by simp
    with R(1) have "apart (ext s node # map (ext s) (A @ B) @ R)" using apart_perm by blast
    then have "apart ((unat node, unat (size_at s node)) # map (ext s1) (A @ B) @ R)"
      unfolding U(2) by (simp add: ext_def)
    from apart_split3 [OF this al(1), of "unat tn"] show ?thesis using ate by (simp only: uf ua ue)
  qed
  have "\<exists>s2 G2. (if a > node then insert_large_fragment node (a - node) s1 else Ret s1) = Ret s2 \<and>
      grown s1 s2 [?front] (A @ B) G2"
  proof (cases "a > node")
    case True
    have "apart (?front # map (ext s1) (A @ B))" using ap0 by auto
    moreover have "unat node + unat (a - node) < 2 ^ 64" using uf al(1) unat_lt_64 [of a] by simp
    moreover have "node \<noteq> 0" using okn by (simp add: okext_def)
    ultimately obtain s2 G2 where "insert_large_fragment node (a - node) s1 = Ret s2"
      "grown s1 s2 [?front] (A @ B) G2"
      using fragment_grown [OF grownD(2,3) [OF U(1)] _ canonical_high [OF hb]] by blast
    with True show ?thesis by auto
  next
    case False
    have "grown s1 s1 [?front] (A @ B) (A @ B)"
      by (rule grown_refl) (use grownD(2,3) [OF U(1)] in auto)
    with False show ?thesis by auto
  qed
  then obtain s2 G2 where s2: "(if a > node then insert_large_fragment node (a - node) s1 else Ret s1) = Ret s2"
    "grown s1 s2 [?front] (A @ B) G2" by blast
  have ap1: "apart (?rear # map (ext s2) G2 @ ?b # R)" if b: "0 < snd ?rear"
  proof -
    have "mset (?front # ?b # ?rear # map (ext s1) (A @ B) @ R) = mset ([?front] @ map (ext s1) (A @ B) @ (?rear # ?b # R))"
      by simp
    then have "apart ([?front] @ map (ext s1) (A @ B) @ (?rear # ?b # R))" using ap0 apart_perm by blast
    then have "apart (map (ext s2) G2 @ (?rear # ?b # R))"
      using b tn posR by (intro grownD(4) [OF s2(2)]) auto
    moreover have "mset (map (ext s2) G2 @ (?rear # ?b # R)) = mset (?rear # map (ext s2) G2 @ ?b # R)" by simp
    ultimately show ?thesis using apart_perm by blast
  qed
  have ap1': "apart (map (ext s2) G2 @ ?b # R)"
  proof -
    have "apart (?front # ?b # map (ext s1) (A @ B) @ R)" using ap0 by auto
    moreover have "mset (?front # ?b # map (ext s1) (A @ B) @ R) = mset ([?front] @ map (ext s1) (A @ B) @ (?b # R))" by simp
    ultimately have "apart ([?front] @ map (ext s1) (A @ B) @ (?b # R))" using apart_perm by blast
    then show ?thesis using tn posR by (intro grownD(4) [OF s2(2)]) auto
  qed
  have "\<exists>s3 G3. (if a + tn < e then insert_large_fragment (a + tn) (e - (a + tn)) s2 else Ret s2) = Ret s3 \<and>
      grown s2 s3 (if a + tn < e then [?rear] else []) G2 G3"
  proof (cases "a + tn < e")
    case True
    then have b: "0 < snd ?rear" using uf ua by (simp add: word_less_nat_alt)
    have "apart (?rear # map (ext s2) G2)" using ap1 [OF b] by auto
    moreover have "HEAP_BASE \<le> a + tn" using hb al(1) by (simp add: word_le_nat_alt ua)
    moreover have "a + tn \<noteq> 0"
    proof
      assume "a + tn = 0"
      then have "unat a + unat tn = 0" unfolding ua [symmetric] by simp
      with tn show False by linarith
    qed
    moreover have "unat (a + tn) + unat (e - (a + tn)) < 2 ^ 64"
      unfolding uf(2) ua using ate unat_lt_64 [of e] by simp
    ultimately obtain s3 G3 where "insert_large_fragment (a + tn) (e - (a + tn)) s2 = Ret s3"
      "grown s2 s3 [?rear] G2 G3"
      using fragment_grown [OF grownD(2,3) [OF s2(2)] _ canonical_high] by blast
    with True show ?thesis by auto
  next
    case False
    have "grown s2 s2 [] G2 G2"
      by (rule grown_refl) (use grownD(2,3) [OF s2(2)] in auto)
    with False show ?thesis by auto
  qed
  then obtain s3 G3 where s3: "(if a + tn < e then insert_large_fragment (a + tn) (e - (a + tn)) s2 else Ret s2) = Ret s3"
    "grown s2 s3 (if a + tn < e then [?rear] else []) G2 G3" by blast
  have ap2: "apart ((if a + tn < e then [?rear] else []) @ map (ext s2) G2 @ ?b # R)"
    using ap1 ap1' uf ua by (auto simp: word_less_nat_alt)
  have ap3: "apart (map (ext s3) G3 @ ?b # R)"
    using ap2 tn posR by (intro grownD(4) [OF s3(2)]) auto
  define s4 where "s4 = write_hdr a LARGE_CLASS tn ra s3"
  have fa: "far a q" if "okp q" "dj ?b (unat q, n)" "32 \<le> n" for q n
    using that tn by (auto simp: dj_def far_def)
  have G3a: "far a g" "okp g" if "g \<in> set G3" for g
    using large_ok_facts(1,2) [OF grownD(2) [OF s3(2)] that] ap3 that fa [of g "unat (size_at s3 g)"] dj_sym
    by (auto simp: ext_def okext_def)
  have w4: "\<forall>g\<in>set G3. word0 s4 g = word0 s3 g \<and> size_at s4 g = size_at s3 g"
  proof
    fix g assume "g \<in> set G3"
    note g = G3a [OF this]
    from write_hdr_at [OF okA g(2)] g(1) far_neq [OF g(1)]
    show "word0 s4 g = word0 s3 g \<and> size_at s4 g = size_at s3 g" by (simp add: s4_def)
  qed
  note L4 = words_frame_large_ok [OF grownD(2,3) [OF s3(2)] _ w4]
  have ev: "take_large tn ra (last_opt None A) node s =
      Ret (a + 32, s4\<lparr>total_allocs := total_allocs s4 + 1, large_reuses := large_reuses s4 + 1\<rparr>)"
    using s2(1) s3(1)
    by (simp add: take_large_def Let_def a_def [symmetric] e_def [symmetric] s1_def [symmetric] s4_def
        HEAP_PAYLOAD_OFFSET_def)
  let ?s' = "s4\<lparr>total_allocs := total_allocs s4 + 1, large_reuses := large_reuses s4 + 1\<rparr>"
  have fin: "\<forall>g\<in>set G3. word0 ?s' g = word0 s4 g \<and> size_at ?s' g = size_at s4 g" by simp
  have fl4: "free_large s4 = free_large s3" by (simp add: s4_def)
  note L5 = words_frame_large_ok [OF L4(1,2) [OF fl4] _ fin]
  have L5': "large_ok ?s' G3" "no_touch ?s' G3" "map (ext ?s') G3 = map (ext s3) G3"
    using L5 L4(3) [OF fl4] by simp_all
  show thesis
  proof (rule that [OF ev L5'(1,2)])
    show "apart (map (ext ?s') G3 @ ?b # R)" unfolding L5'(3) by (rule ap3)
    show "unat node \<le> unat a" by (rule al(1))
    show "unat a + unat tn \<le> unat node + unat (size_at s node)" using ate ue by simp
    show "unat (a + 32) = unat a + 32" by (rule al(3))
    show "word0 ?s' a = LARGE_CLASS" "size_at ?s' a = tn" using write_hdr_at [OF okA okA] by (simp_all add: s4_def)
    show "free_lists ?s' = free_lists s" "heap_cur ?s' = heap_cur s" "heap_end ?s' = heap_end s"
      using same_rest_fields [OF grownD(1) [OF U(1)]] same_rest_fields [OF grownD(1) [OF s2(2)]]
        same_rest_fields [OF grownD(1) [OF s3(2)]] by (simp_all add: s4_def)
    show "\<forall>r\<in>set R. \<forall>x. fst r \<le> unat x \<and> unat x < fst r + snd r \<longrightarrow> hmem ?s' x = hmem s x"
    proof (intro ballI allI impI)
      fix r and x :: u64 assume r: "r \<in> set R" and x: "fst r \<le> unat x \<and> unat x < fst r + snd r"
      have "dj ?b r" using ap3 r by auto
      then have "off a x" using x okA tn by (auto simp: dj_def off_def)
      then have "hmem ?s' x = hmem s3 x" by (simp add: s4_def write_hdr_def set_off)
      moreover have "hmem s3 x = hmem s2 x"
        by (rule grown_bytes [OF s3(2) ap2, of r]) (use r x in auto)
      moreover have "hmem s2 x = hmem s1 x"
      proof (rule grown_bytes [OF s2(2), of "?b # R" r])
        have "apart (?front # ?b # map (ext s1) (A @ B) @ R)" using ap0 by auto
        moreover have "mset (?front # ?b # map (ext s1) (A @ B) @ R) = mset ([?front] @ map (ext s1) (A @ B) @ (?b # R))" by simp
        ultimately show "apart ([?front] @ map (ext s1) (A @ B) @ (?b # R))" using apart_perm by blast
      qed (use r x in auto)
      moreover have "hmem s1 x = hmem s x"
        by (rule grown_bytes [OF U(1), of R r]) (use r x R in auto)
      ultimately show "hmem ?s' x = hmem s x" by simp
    qed
    show "\<forall>lo hi. (\<forall>g\<in>set (A @ node # B). lo \<le> unat g \<and> unat g + unat (size_at s g) \<le> hi) \<longrightarrow>
       (\<forall>g\<in>set G3. lo \<le> unat g \<and> unat g + unat (size_at ?s' g) \<le> hi)"
    proof (intro allI impI)
      fix lo hi assume h: "\<forall>g\<in>set (A @ node # B). lo \<le> unat g \<and> unat g + unat (size_at s g) \<le> hi"
      then have h0: "\<forall>x\<in>set ([] @ map (ext s) (A @ node # B)). lo \<le> fst x \<and> fst x + snd x \<le> hi" by (auto simp: ext_def)
      have n: "lo \<le> unat node" "unat e \<le> hi" using h ue by auto
      have h1: "\<forall>x\<in>set ([?front] @ map (ext s1) (A @ B)). lo \<le> fst x \<and> fst x + snd x \<le> hi"
        using grownD(5) [OF U(1) h0] n uf al(1) ate by (auto simp: ext_def)
      have h2: "\<forall>x\<in>set ((if a + tn < e then [?rear] else []) @ map (ext s2) G2). lo \<le> fst x \<and> fst x + snd x \<le> hi"
        using grownD(5) [OF s2(2) h1] n uf ua al(1) ate by (auto simp: ext_def)
      show "\<forall>g\<in>set G3. lo \<le> unat g \<and> unat g + unat (size_at ?s' g) \<le> hi"
        using grownD(5) [OF s3(2) h2] w4 by auto
    qed
  qed
qed

end
