(* ===== verification/Kheap_Inv.thy ===== *)
theory Kheap_Inv
  imports Kheap
begin

text \<open>
  The invariant of the kernel heap and its operations. The address space from \<open>HEAP_BASE\<close> to
  \<open>heap_cur\<close> holds pairwise disjoint blocks: those on the size-class lists, those on the large list
  and those handed out. \<open>kalloc\<close> and \<open>kfree\<close> keep the invariant, as do the writes of the owners of
  blocks behind the headers of their own blocks.
\<close>

section \<open>The invariant\<close>

type_synonym live = "u64 \<times> nat"

definition lext :: "live \<Rightarrow> nat \<times> nat" where "lext b = (unat (fst b), snd b)"

definition slab_exts :: "u64 list list \<Rightarrow> (nat \<times> nat) list" where
  "slab_exts F = concat (map (\<lambda>k. map (\<lambda>p. (unat p, unat (slab_classes ! k))) (F ! k)) [0..<8])"

definition blocks :: "kheap \<Rightarrow> u64 list list \<Rightarrow> u64 list \<Rightarrow> live list \<Rightarrow> (nat \<times> nat) list" where
  "blocks s F G L = slab_exts F @ map (ext s) G @ map lext L"

definition inside :: "kheap \<Rightarrow> nat \<times> nat \<Rightarrow> bool" where
  "inside s x \<longleftrightarrow> unat HEAP_BASE + 4096 \<le> fst x \<and> 32 \<le> snd x \<and> fst x + snd x \<le> unat (heap_cur s)"

text \<open>What the header of a block handed out may say: if it names the large list, its size field is
  the extent; if it names a size class, the block is at least as big as the class.\<close>

definition live_ok :: "kheap \<Rightarrow> live \<Rightarrow> bool" where
  "live_ok s b \<longleftrightarrow>
     (word0 s (fst b) = LARGE_CLASS \<longrightarrow> unat (size_at s (fst b)) = snd b) \<and>
     (word0 s (fst b) < 8 \<longrightarrow> unat (slab_classes ! unat (word0 s (fst b))) \<le> snd b)"

definition heap_inv :: "kheap \<Rightarrow> u64 list list \<Rightarrow> u64 list \<Rightarrow> live list \<Rightarrow> bool" where
  "heap_inv s F G L \<longleftrightarrow>
     length (free_lists s) = 8 \<and> length F = 8 \<and>
     (\<forall>k<8. chain (next_of s) (ptr (free_lists s ! k)) (F ! k)) \<and>
     large_ok s G \<and> no_touch s G \<and> apart (blocks s F G L) \<and>
     (\<forall>x\<in>set (blocks s F G L). inside s x) \<and> (\<forall>b\<in>set L. live_ok s b) \<and>
     unat HEAP_BASE + 4096 \<le> unat (heap_cur s) \<and> heap_cur s \<le> heap_end s"

lemma slab_classes_bounds: "k < 8 \<Longrightarrow> 64 \<le> unat (slab_classes ! k) \<and> unat (slab_classes ! k) \<le> 8192"
proof -
  assume "k < 8"
  then have "slab_classes ! k \<in> set slab_classes" by (intro nth_mem) (simp add: slab_classes_def)
  moreover have "\<forall>c\<in>set slab_classes. 64 \<le> unat c \<and> unat c \<le> 8192" by (simp add: slab_classes_def)
  ultimately show ?thesis by blast
qed

lemma slab_exts_set:
  "x \<in> set (slab_exts F) \<longleftrightarrow> (\<exists>k<8. \<exists>p\<in>set (F ! k). x = (unat p, unat (slab_classes ! k)))"
  by (auto simp: slab_exts_def)

lemma heap_invD:
  assumes "heap_inv s F G L"
  shows "length (free_lists s) = 8" "length F = 8"
    "\<And>k. k < 8 \<Longrightarrow> chain (next_of s) (ptr (free_lists s ! k)) (F ! k)"
    "large_ok s G" "no_touch s G" "apart (blocks s F G L)"
    "\<And>x. x \<in> set (blocks s F G L) \<Longrightarrow> inside s x" "\<And>b. b \<in> set L \<Longrightarrow> live_ok s b"
    "unat HEAP_BASE + 4096 \<le> unat (heap_cur s)" "heap_cur s \<le> heap_end s"
  using assms unfolding heap_inv_def by blast+

lemma heap_invI:
  assumes "length (free_lists s) = 8" "length F = 8"
    "\<And>k. k < 8 \<Longrightarrow> chain (next_of s) (ptr (free_lists s ! k)) (F ! k)"
    "large_ok s G" "no_touch s G" "apart (blocks s F G L)"
    "\<And>x. x \<in> set (blocks s F G L) \<Longrightarrow> inside s x" "\<And>b. b \<in> set L \<Longrightarrow> live_ok s b"
    "unat HEAP_BASE + 4096 \<le> unat (heap_cur s)" "heap_cur s \<le> heap_end s"
  shows "heap_inv s F G L"
  using assms unfolding heap_inv_def by blast

lemma inside_okp: "inside s (unat q, n) \<Longrightarrow> okp q"
  using unat_lt_64 [of "heap_cur s"] by (auto simp: inside_def okp_def HEAP_BASE_def)

lemma live_ok_cong:
  "word0 s' (fst b) = word0 s (fst b) \<Longrightarrow> size_at s' (fst b) = size_at s (fst b) \<Longrightarrow>
   live_ok s' b \<longleftrightarrow> live_ok s b"
  by (simp add: live_ok_def)

lemma in_blocks:
  "g \<in> set G \<Longrightarrow> ext s g \<in> set (blocks s F G L)"
  "b \<in> set L \<Longrightarrow> lext b \<in> set (blocks s F G L)"
  "k < 8 \<Longrightarrow> p \<in> set (F ! k) \<Longrightarrow> (unat p, unat (slab_classes ! k)) \<in> set (blocks s F G L)"
  by (auto simp: blocks_def slab_exts_set)

text \<open>Only the header words of blocks, the list heads and the bounds matter.\<close>

lemma heap_inv_frame:
  assumes inv: "heap_inv s F G L" and f: "free_lists s' = free_lists s" "free_large s' = free_large s"
    and c: "unat (heap_cur s) \<le> unat (heap_cur s')" "heap_cur s' \<le> heap_end s'"
    and w: "\<forall>q n. (unat q, n) \<in> set (blocks s F G L) \<longrightarrow>
       word0 s' q = word0 s q \<and> size_at s' q = size_at s q"
  shows "heap_inv s' F G L" and "blocks s' F G L = blocks s F G L"
proof -
  have wG: "\<forall>g\<in>set G. word0 s' g = word0 s g \<and> size_at s' g = size_at s g"
    using w in_blocks(1) by (metis ext_def)
  note wf = words_frame_large_ok [OF heap_invD(4,5) [OF inv] f(2) wG]
  show B: "blocks s' F G L = blocks s F G L" unfolding blocks_def wf(3) by simp
  show "heap_inv s' F G L"
  proof (rule heap_invI)
    show "chain (next_of s') (ptr (free_lists s' ! k)) (F ! k)" if k: "k < 8" for k
    proof -
      have "chain (next_of s') q (F ! k) \<longleftrightarrow> chain (next_of s) q (F ! k)" for q
      proof (rule chain_cong)
        fix x assume "x \<in> set (F ! k)"
        then have "(unat x, unat (slab_classes ! k)) \<in> set (blocks s F G L)" by (rule in_blocks(3) [OF k])
        with w show "next_of s' x = next_of s x" unfolding next_of_def by metis
      qed
      then show ?thesis using heap_invD(3) [OF inv k] by (simp add: f)
    qed
    show "inside s' x" if "x \<in> set (blocks s' F G L)" for x
      using heap_invD(7) [OF inv, of x] that c(1) unfolding B by (simp add: inside_def)
    show "live_ok s' b" if b: "b \<in> set L" for b
    proof -
      have "(unat (fst b), snd b) \<in> set (blocks s F G L)" using in_blocks(2) [OF b] by (simp add: lext_def)
      with w show ?thesis using heap_invD(8) [OF inv b] live_ok_cong by metis
    qed
  qed (use heap_invD [OF inv] f c B wf in auto)
qed

text \<open>A block above the old \<open>heap_cur\<close> is handed out.\<close>

lemma heap_inv_add_live:
  assumes inv: "heap_inv s F G L" and f: "free_lists s' = free_lists s" "free_large s' = free_large s"
    and p: "unat (heap_cur s) \<le> unat p" "unat p + n = unat (heap_cur s')" "32 \<le> n"
    and c: "heap_cur s' \<le> heap_end s'" and l: "live_ok s' (p, n)"
    and w: "\<And>q. okp q \<Longrightarrow> unat q + 32 \<le> unat (heap_cur s) \<Longrightarrow>
       word0 s' q = word0 s q \<and> size_at s' q = size_at s q"
  shows "heap_inv s' F G ((p, n) # L)"
proof -
  have w': "\<forall>q m. (unat q, m) \<in> set (blocks s F G L) \<longrightarrow> word0 s' q = word0 s q \<and> size_at s' q = size_at s q"
  proof (intro allI impI)
    fix q :: u64 and m assume "(unat q, m) \<in> set (blocks s F G L)"
    note i = heap_invD(7) [OF inv this]
    from w [OF inside_okp [OF i]] i show "word0 s' q = word0 s q \<and> size_at s' q = size_at s q"
      by (simp add: inside_def)
  qed
  have c': "unat (heap_cur s) \<le> unat (heap_cur s')" using p by simp
  note fr = heap_inv_frame [OF inv f c' c w']
  have m: "mset (blocks s' F G ((p, n) # L)) = mset ((unat p, n) # blocks s F G L)"
    unfolding fr(2) [symmetric] by (simp add: blocks_def lext_def)
  have d: "dj (unat p, n) y" if "y \<in> set (blocks s F G L)" for y
    using heap_invD(7) [OF inv that] p by (auto simp: inside_def dj_def)
  show ?thesis
  proof (rule heap_invI)
    show "apart (blocks s' F G ((p, n) # L))"
      unfolding apart_perm [OF m] using d heap_invD(6) [OF inv] by simp
    show "inside s' x" if x: "x \<in> set (blocks s' F G ((p, n) # L))" for x
    proof -
      from x m have "x = (unat p, n) \<or> x \<in> set (blocks s' F G L)"
        unfolding fr(2) by (metis set_ConsD set_mset_mset)
      then show ?thesis using heap_invD(7) [OF fr(1), of x] heap_invD(9) [OF inv] p by (auto simp: inside_def)
    qed
    show "live_ok s' b" if "b \<in> set ((p, n) # L)" for b
      using that l heap_invD(8) [OF fr(1), of b] by auto
  qed (use heap_invD [OF fr(1)] in auto)
qed

text \<open>No byte of the blocks \<open>L\<close> changes.\<close>

definition bytes_kept :: "kheap \<Rightarrow> kheap \<Rightarrow> live list \<Rightarrow> bool" where
  "bytes_kept s s' L \<longleftrightarrow>
     (\<forall>(b, m)\<in>set L. \<forall>a. unat b \<le> unat a \<and> unat a < unat b + m \<longrightarrow> hmem s' a = hmem s a)"

lemma bytes_keptI:
  assumes "\<And>b m a. (b, m) \<in> set L \<Longrightarrow> unat b \<le> unat a \<Longrightarrow> unat a < unat b + m \<Longrightarrow> hmem s' a = hmem s a"
  shows "bytes_kept s s' L"
  using assms by (fastforce simp: bytes_kept_def)

lemma bytes_kept_eq: "hmem s' = hmem s \<Longrightarrow> bytes_kept s s' L"
  by (simp add: bytes_kept_def)

lemma bytes_kept_smaller:
  assumes "list_all2 (\<lambda>w l. fst w = fst l \<and> snd w \<le> snd l) W L" "bytes_kept s s' L"
  shows "bytes_kept s s' W"
proof (rule bytes_keptI)
  fix b m and a :: u64 assume "(b, m) \<in> set W" and a: "unat b \<le> unat a" "unat a < unat b + m"
  then obtain i where i: "i < length W" "W ! i = (b, m)" by (metis in_set_conv_nth)
  with assms(1) have "L ! i \<in> set L" "fst (L ! i) = b" "m \<le> snd (L ! i)"
    by (auto simp: list_all2_conv_all_nth)
  then show "hmem s' a = hmem s a"
    using assms(2) a unfolding bytes_kept_def by (auto simp: case_prod_beta dest!: bspec)
qed

section \<open>Growing\<close>

lemma pmm_alloc_page_no_hang: "pmm_alloc_page p \<noteq> Hang"
  by (simp add: pmm_alloc_page_def Let_def split: option.split)

lemma bind_run_Hang_iff: "bind_run m f = Hang \<longleftrightarrow> m = Hang \<or> (\<exists>x. m = Ret x \<and> f x = Hang)"
  by (cases m) auto

lemma ensure_table_no_hang: "ensure_table t i f p \<noteq> Hang"
  by (auto simp: ensure_table_def split_2m_def Let_def pmm_alloc_page_no_hang bind_run_Hang_iff)

lemma map_next_page_no_hang: "map_next_page root s \<noteq> Hang"
  by (auto simp: map_next_page_def mmu_map_page_def walk_tables_def Let_def pmm_alloc_page_no_hang
      ensure_table_no_hang bind_run_Hang_iff split: if_splits)

lemma map_next_page_ret:
  "map_next_page root s = Ret s' \<Longrightarrow> \<exists>p. s' = s\<lparr>hpmm := p, heap_end := heap_end s + 4096\<rparr>"
  by (auto simp: map_next_page_def run_simps)

text \<open>The loop of \<open>ensure_space\<close> ends: every round raises \<open>heap_end\<close> by a page or panics.\<close>

lemma ensure_loop_total:
  assumes "unat a + unat n + 4096 < 2 ^ 64"
  shows "(\<exists>m c. ensure_loop root a n s = Some (Panic m c)) \<or>
    (\<exists>p e. ensure_loop root a n s = Some (Ret (s\<lparr>hpmm := p, heap_end := e\<rparr>)) \<and> a + n \<le> e)"
  using assms
proof (induction "2 ^ 64 - unat (heap_end s)" arbitrary: s rule: less_induct)
  case less
  have an: "unat (a + n) = unat a + unat n" using less.prems by (intro unat_add_no_wrap) simp
  show ?case
  proof (cases "a + n > heap_end s")
    case True
    show ?thesis
    proof (cases "map_next_page root s")
      case (Ret s1)
      then obtain p where s1: "s1 = s\<lparr>hpmm := p, heap_end := heap_end s + 4096\<rparr>"
        using map_next_page_ret by blast
      have "unat (heap_end s) < unat a + unat n" using True an by (simp add: word_less_nat_alt)
      then have "unat (heap_end s) + 4096 < 2 ^ 64" using less.prems by linarith
      then have "unat (heap_end s1) = unat (heap_end s) + 4096"
        by (simp add: s1 unat_add_no_wrap)
      then have "2 ^ 64 - unat (heap_end s1) < 2 ^ 64 - unat (heap_end s)"
        using unat_lt_64 [of "heap_end s"] by simp
      from less.hyps [OF this less.prems] show ?thesis
        using True by (subst (1 2) ensure_loop.simps) (auto simp: Ret s1)
    next
      case (Panic m c)
      then show ?thesis using True by (subst (1 2) ensure_loop.simps) simp
    next
      case Hang
      then show ?thesis using map_next_page_no_hang by blast
    qed
  next
    case False
    then show ?thesis by (subst (1 2) ensure_loop.simps) (auto intro!: exI [of _ "hpmm s"] exI [of _ "heap_end s"])
  qed
qed

lemma ensure_space_total:
  assumes "unat a + unat n + 4096 < 2 ^ 64"
  obtains (panic) m c where "ensure_space root a n s = Panic m c"
  | (ret) p e where "ensure_space root a n s = Ret (s\<lparr>hpmm := p, heap_end := e\<rparr>)" "a + n \<le> e"
  using ensure_loop_total [OF assms, of root s] unfolding ensure_space_def by force

section \<open>Allocation\<close>

definition class_exts :: "nat \<Rightarrow> u64 list \<Rightarrow> (nat \<times> nat) list" where
  "class_exts k xs = map (\<lambda>p. (unat p, unat (slab_classes ! k))) xs"

definition other_exts :: "nat \<Rightarrow> u64 list list \<Rightarrow> (nat \<times> nat) list" where
  "other_exts k F = concat (map (\<lambda>i. class_exts i (F ! i)) ([0..<k] @ [Suc k..<8]))"

lemma slab_exts_update:
  assumes k: "k < 8" "k < length F"
  shows "mset (slab_exts (F[k := xs])) = mset (class_exts k xs) + mset (other_exts k F)"
proof -
  have u: "[0..<8] = [0..<k] @ k # [Suc k..<8]"
    using k upt_add_eq_append [of 0 k "8 - k"] upt_conv_Cons [of k 8] by simp
  have e: "map (\<lambda>i. class_exts i (F[k := xs] ! i)) [0..<k] = map (\<lambda>i. class_exts i (F ! i)) [0..<k]"
    "map (\<lambda>i. class_exts i (F[k := xs] ! i)) [Suc k..<8] = map (\<lambda>i. class_exts i (F ! i)) [Suc k..<8]"
    by auto
  show ?thesis
    unfolding slab_exts_def other_exts_def class_exts_def [symmetric] u using k by (simp add: e)
qed

lemma slab_exts_at:
  "k < 8 \<Longrightarrow> k < length F \<Longrightarrow> mset (slab_exts F) = mset (class_exts k (F ! k)) + mset (other_exts k F)"
  using slab_exts_update [of k F "F ! k"] by simp

lemma not_class_word: "okp y \<Longrightarrow> HEAP_BASE \<le> y \<Longrightarrow> y \<noteq> LARGE_CLASS \<and> \<not> y < 8"
  by (auto simp: okp_def LARGE_CLASS_def HEAP_BASE_def word_le_nat_alt word_less_nat_alt)

lemma inside_base: "inside s (unat q, n) \<Longrightarrow> HEAP_BASE \<le> q"
  by (simp add: inside_def word_le_nat_alt)

lemma slab_member:
  assumes inv: "heap_inv s F G L" and k: "k < 8" and q: "q \<in> set (F ! k)"
  shows "okp q" "HEAP_BASE \<le> q" "inside s (unat q, unat (slab_classes ! k))"
proof -
  show i: "inside s (unat q, unat (slab_classes ! k))"
    by (rule heap_invD(7) [OF inv in_blocks(3) [of k q F s G L, OF k q]])
  show "okp q" "HEAP_BASE \<le> q" using inside_okp [OF i] inside_base [OF i] by simp_all
qed

text \<open>Taking a block off a size-class list.\<close>

lemma pop_slab:
  assumes inv: "heap_inv s F G L" and k: "k < 8" and nz: "free_lists s ! k \<noteq> 0"
    and s': "free_lists s' = (free_lists s)[k := word0 s (free_lists s ! k)]" "free_large s' = free_large s"
      "heap_cur s' = heap_cur s" "heap_end s' = heap_end s" "hmem s' = hmem s"
  shows "heap_inv s' (F[k := tl (F ! k)]) G ((free_lists s ! k, unat (slab_classes ! k)) # L)"
proof -
  let ?p = "free_lists s ! k" and ?c = "unat (slab_classes ! k)"
  have w [simp]: "word0 s' q = word0 s q" "size_at s' q = size_at s q" for q
    by (simp_all add: word0_def size_at_def s')
  have nx: "next_of s' = next_of s" "ext s' = ext s" by (auto simp: next_of_def ext_def)
  note D = heap_invD [OF inv]
  from D(3) [OF k] nz obtain xs where F: "F ! k = ?p # xs" and c: "chain (next_of s) (next_of s ?p) xs"
    by (cases "F ! k") (auto simp: ptr_def)
  have m: "mset (blocks s' (F[k := xs]) G ((?p, ?c) # L)) = mset (blocks s F G L)"
    unfolding blocks_def using slab_exts_update [of k F xs] slab_exts_at [of k F] k D(2)
    by (simp add: F class_exts_def lext_def nx)
  have hd: "word0 s ?p = 0 \<or> word0 s ?p \<in> set xs"
    using c by (cases xs) (auto simp: next_of_def ptr_def split: if_splits)
  have "heap_inv s' (F[k := xs]) G ((?p, ?c) # L)"
  proof (rule heap_invI)
    show "chain (next_of s') (ptr (free_lists s' ! i)) (F[k := xs] ! i)" if "i < 8" for i
      using D(3) [OF that] c that k D(1,2) by (cases "i = k") (simp_all add: nx s' next_of_def)
    show "apart (blocks s' (F[k := xs]) G ((?p, ?c) # L))" using D(6) apart_perm [OF m] by simp
    show "inside s' x" if "x \<in> set (blocks s' (F[k := xs]) G ((?p, ?c) # L))" for x
      using D(7) [of x] that m by (metis inside_def s'(3) set_mset_mset)
    show "live_ok s' b" if "b \<in> set ((?p, ?c) # L)" for b
    proof (cases "b = (?p, ?c)")
      case True
      show ?thesis
      proof (cases "word0 s ?p = 0")
        case True
        then show ?thesis using \<open>b = _\<close> slab_classes_bounds [OF k]
          by (simp add: live_ok_def LARGE_CLASS_def slab_classes_def)
      next
        case False
        then have "word0 s ?p \<in> set (F ! k)" using hd F by simp
        from not_class_word [OF slab_member(1,2) [OF inv k this]] show ?thesis
          using True by (simp add: live_ok_def)
      qed
    next
      case False
      then show ?thesis using D(8) that live_ok_cong [of s' b s] by auto
    qed
    show "large_ok s' G" "no_touch s' G"
      using words_frame_large_ok [OF D(4,5) s'(2)] by simp_all
  qed (use D s' in auto)
  then show ?thesis by (simp add: F)
qed

text \<open>A new block at the end of the heap.\<close>

lemma write_hdr_hmem: "hmem (write_hdr p c z a s) = wr64 (wr64 (wr64 (hmem s) p c) (p + 8) z) (p + 16) a"
  by (simp add: write_hdr_def set_word0_def set_size_def set_align_def)

lemma new_block:
  assumes inv: "heap_inv s F G L" and p: "unat (heap_cur s) \<le> unat p" "unat p + n = unat (heap_cur s')" "32 \<le> n"
    and c: "heap_cur s' \<le> heap_end s'" and f: "free_lists s' = free_lists s" "free_large s' = free_large s"
    and m: "hmem s' = hmem (write_hdr p ci z al s)"
    and h: "ci = LARGE_CLASS \<and> unat z = n \<or> ci < 8 \<and> unat (slab_classes ! unat ci) \<le> n"
  shows "heap_inv s' F G ((p, n) # L) \<and> bytes_kept s s' L"
proof
  have okp: "okp p"
    using p heap_invD(9) [OF inv] unat_lt_64 [of "heap_cur s'"] by (auto simp: okp_def HEAP_BASE_def)
  show "bytes_kept s s' L"
  proof (rule bytes_keptI)
    fix b k and a :: u64 assume b: "(b, k) \<in> set L" and a: "unat a < unat b + k"
    have "inside s (unat b, k)" using heap_invD(7) [OF inv in_blocks(2) [OF b]] by (simp add: lext_def)
    then have "off p a" using a p(1) okp by (simp add: inside_def off_def)
    then show "hmem s' a = hmem s a" by (simp add: m write_hdr_def set_off)
  qed
  show "heap_inv s' F G ((p, n) # L)"
  proof (rule heap_inv_add_live [OF inv f p c])
    have w: "word0 s' q = word0 (write_hdr p ci z al s) q" "size_at s' q = size_at (write_hdr p ci z al s) q" for q
      by (simp_all add: word0_def size_at_def m)
    show "live_ok s' (p, n)"
      using h write_hdr_at [OF okp okp] unfolding live_ok_def w by (auto simp: LARGE_CLASS_def)
    fix q assume q: "okp q" "unat q + 32 \<le> unat (heap_cur s)"
    then have f: "far p q" using p by (simp add: far_def)
    show "word0 s' q = word0 s q \<and> size_at s' q = size_at s q"
      using write_hdr_at [OF okp q(1)] f far_neq [OF f] unfolding w by simp
  qed
qed

lemma alloc_slab_spec:
  assumes inv: "heap_inv s F G L" and k: "k < 8" and j: "j < 63" "ra = 2 ^ j"
    and nw: "unat (heap_cur s) + 2 ^ j + 16384 < 2 ^ 64"
  shows "(\<exists>m c. alloc_slab root k ra s = Panic m c) \<or>
    (\<exists>b s' F'. alloc_slab root k ra s = Ret (b + 32, s') \<and> heap_inv s' F' G ((b, unat (slab_classes ! k)) # L) \<and>
       bytes_kept s s' L)"
proof (cases "free_lists s ! k = 0")
  case False
  then have "alloc_slab root k ra s = Ret (free_lists s ! k + 32,
      s\<lparr>free_lists := (free_lists s)[k := word0 s (free_lists s ! k)], total_allocs := total_allocs s + 1,
        slab_reuses := (slab_reuses s)[k := slab_reuses s ! k + 1]\<rparr>)"
    by (simp add: alloc_slab_def HEAP_PAYLOAD_OFFSET_def Let_def)
  moreover have "heap_inv (s\<lparr>free_lists := (free_lists s)[k := word0 s (free_lists s ! k)],
      total_allocs := total_allocs s + 1, slab_reuses := (slab_reuses s)[k := slab_reuses s ! k + 1]\<rparr>)
      (F[k := tl (F ! k)]) G ((free_lists s ! k, unat (slab_classes ! k)) # L)"
    by (rule pop_slab [OF inv k False]) simp_all
  ultimately show ?thesis using bytes_kept_eq [of _ s L] by fastforce
next
  case True
  define cur where "cur = align_up (heap_cur s) ra"
  let ?c = "slab_classes ! k" and ?s0 = "s\<lparr>heap_cur := cur\<rparr>"
  note cb = slab_classes_bounds [OF k]
  have j64: "j < 64" and nw1: "unat (heap_cur s) + 2 ^ j - 1 < 2 ^ 64" using j nw by simp_all
  note al = align_up_facts(1,2) [OF j64 nw1, folded j(2), folded cur_def]
  have uc: "unat (cur + ?c) = unat cur + unat ?c" using al cb nw by (intro unat_add_no_wrap) simp
  have fit: "unat cur + unat ?c + 4096 < 2 ^ 64" using al cb nw by linarith
  show ?thesis
  proof (cases rule: ensure_space_total [OF fit, where root = root and s = ?s0, case_names panic ret])
    case (panic m c)
    then show ?thesis using True by (simp add: alloc_slab_def Let_def cur_def)
  next
    case (ret p e)
    let ?s' = "(write_hdr cur (of_nat k) ?c ra (s\<lparr>hpmm := p, heap_cur := cur + ?c, heap_end := e\<rparr>))
      \<lparr>total_allocs := total_allocs s + 1, slab_allocs := (slab_allocs s)[k := slab_allocs s ! k + 1]\<rparr>"
    have "heap_inv ?s' F G ((cur, unat ?c) # L) \<and> bytes_kept s ?s' L"
    proof (rule new_block [OF inv al(1)])
      have "unat (of_nat k :: u64) = k" using k by (simp add: unat_of_nat_small)
      moreover have "(of_nat k :: u64) < 8" using k by (simp add: word_less_nat_alt unat_of_nat_small)
      ultimately show "(of_nat k :: u64) = LARGE_CLASS \<and> unat ?c = unat ?c \<or>
          (of_nat k :: u64) < 8 \<and> unat (slab_classes ! unat (of_nat k :: u64)) \<le> unat ?c" by simp
      show "hmem ?s' = hmem (write_hdr cur (of_nat k) ?c ra s)" by (simp add: write_hdr_hmem)
    qed (use uc ret(2) cb in simp_all)
    moreover have "alloc_slab root k ra s = Ret (cur + 32, ?s')"
      using True ret(1) by (simp add: alloc_slab_def Let_def cur_def HEAP_PAYLOAD_OFFSET_def write_hdr_def
          set_word0_def set_size_def set_align_def)
    ultimately show ?thesis by blast
  qed
qed

lemma alloc_bump_spec:
  assumes inv: "heap_inv s F G L" and j: "j < 63" "ra = 2 ^ j" and tn: "32 \<le> unat tn"
    and nw: "unat (heap_cur s) + unat tn + 2 ^ j + 16384 < 2 ^ 64"
  shows "(\<exists>m c. alloc_bump root tn ra s = Panic m c) \<or>
    (\<exists>b s'. alloc_bump root tn ra s = Ret (b + 32, s') \<and> heap_inv s' F G ((b, unat tn) # L) \<and>
       bytes_kept s s' L)"
proof -
  define cur where "cur = aligned_in (heap_cur s) ra"
  let ?s0 = "s\<lparr>heap_cur := cur\<rparr>"
  have nw1: "unat (heap_cur s) + 32 + 2 ^ j < 2 ^ 64" using nw by linarith
  note al = aligned_in_facts(1,2) [OF j nw1, folded cur_def]
  have uc: "unat (cur + tn) = unat cur + unat tn" using al nw by (intro unat_add_no_wrap) simp
  have fit: "unat cur + unat tn + 4096 < 2 ^ 64" using al nw by linarith
  show ?thesis
  proof (cases rule: ensure_space_total [OF fit, where root = root and s = ?s0, case_names panic ret])
    case (panic m c)
    then show ?thesis by (simp add: alloc_bump_def Let_def cur_def)
  next
    case (ret p e)
    let ?s' = "(write_hdr cur LARGE_CLASS tn ra (s\<lparr>hpmm := p, heap_cur := cur, heap_end := e\<rparr>))
      \<lparr>heap_cur := cur + tn, total_allocs := total_allocs s + 1, large_allocs := large_allocs s + 1\<rparr>"
    have "heap_inv ?s' F G ((cur, unat tn) # L) \<and> bytes_kept s ?s' L"
    proof (rule new_block [OF inv al(1)])
      show "hmem ?s' = hmem (write_hdr cur LARGE_CLASS tn ra s)" by (simp add: write_hdr_hmem)
    qed (use uc ret(2) tn in simp_all)
    moreover have "alloc_bump root tn ra s = Ret (cur + 32, ?s')"
      using ret(1) by (simp add: alloc_bump_def Let_def cur_def HEAP_PAYLOAD_OFFSET_def write_hdr_def
          set_word0_def set_size_def set_align_def)
    ultimately show ?thesis by blast
  qed
qed

text \<open>The large list and the blocks handed out change, the size-class lists do not.\<close>

lemma heap_inv_relarge:
  assumes inv: "heap_inv s F G L"
    and f: "free_lists s' = free_lists s" "heap_cur s' = heap_cur s" "heap_end s' = heap_end s"
    and g: "large_ok s' G'" "no_touch s' G'"
      "\<forall>g\<in>set G'. unat HEAP_BASE + 4096 \<le> unat g \<and> unat g + unat (size_at s' g) \<le> unat (heap_cur s)"
    and l: "\<forall>b\<in>set L'. live_ok s' b \<and> inside s (lext b)"
    and ap: "apart (map (ext s') G' @ slab_exts F @ map lext L')"
    and w: "\<forall>q n. (unat q, n) \<in> set (slab_exts F) \<longrightarrow> word0 s' q = word0 s q"
  shows "heap_inv s' F G' L'"
proof (rule heap_invI)
  note D = heap_invD [OF inv]
  have m: "mset (blocks s' F G' L') = mset (map (ext s') G' @ slab_exts F @ map lext L')"
    by (simp add: blocks_def)
  show "apart (blocks s' F G' L')" using ap apart_perm [OF m] by simp
  have ins: "inside s' y \<longleftrightarrow> inside s y" for y by (simp add: inside_def f)
  show "inside s' x" if "x \<in> set (blocks s' F G' L')" for x
  proof -
    from that consider (g) y where "y \<in> set G'" "x = ext s' y" | (s) "x \<in> set (slab_exts F)"
      | (l) b where "b \<in> set L'" "x = lext b"
      by (auto simp: blocks_def)
    then show ?thesis
    proof cases
      case g
      then show ?thesis using assms(7) large_ok_facts(1) [OF assms(5) g(1)]
        by (simp add: inside_def ext_def okext_def f)
    next
      case s
      then show ?thesis using D(7) by (simp add: blocks_def ins)
    next
      case l
      then show ?thesis using assms(8) by (simp add: ins)
    qed
  qed
  show "chain (next_of s') (ptr (free_lists s' ! k)) (F ! k)" if k: "k < 8" for k
  proof -
    have "chain (next_of s') q (F ! k) \<longleftrightarrow> chain (next_of s) q (F ! k)" for q
    proof (rule chain_cong)
      fix x assume "x \<in> set (F ! k)"
      then have "(unat x, unat (slab_classes ! k)) \<in> set (slab_exts F)" using k by (auto simp: slab_exts_set)
      with w show "next_of s' x = next_of s x" unfolding next_of_def by metis
    qed
    then show ?thesis using D(3) [OF k] by (simp add: f)
  qed
  show "length (free_lists s') = 8" "length F = 8" using D(1,2) f by simp_all
  show "unat HEAP_BASE + 4096 \<le> unat (heap_cur s')" "heap_cur s' \<le> heap_end s'" using D(9,10) f by simp_all
  show "live_ok s' b" if "b \<in> set L'" for b using l that by simp
qed (rule g)+

lemma take_large_inv:
  assumes inv: "heap_inv s F (A @ node # B) L" and fit: "large_fits tn ra s node"
    and j: "j < 63" "ra = 2 ^ j" and tn: "32 < unat tn"
    and nw: "unat (heap_cur s) + 2 ^ j + 16384 < 2 ^ 64"
  shows "\<exists>a s' G'. take_large tn ra (last_opt None A) node s = Ret (a + 32, s') \<and>
    heap_inv s' F G' ((a, unat tn) # L) \<and> bytes_kept s s' L"
proof -
  let ?G = "A @ node # B" and ?R = "slab_exts F @ map lext L"
  note D = heap_invD [OF inv]
  have iG: "inside s (unat g, unat (size_at s g))" if "g \<in> set ?G" for g
    using D(7) [OF in_blocks(1) [OF that]] by (simp add: ext_def)
  have m: "mset (map (ext s) ?G @ ?R) = mset (blocks s F ?G L)" by (simp add: blocks_def)
  have iR: "inside s y" if "y \<in> set ?R" for y using D(7) [of y] that by (auto simp: blocks_def)
  have 1: "unat node + unat (size_at s node) + 32 + 2 ^ j < 2 ^ 64"
    using iG [of node] nw by (simp add: inside_def)
  have 2: "HEAP_BASE \<le> node" using iG [of node] inside_base by simp
  have 3: "apart (map (ext s) ?G @ ?R)" using D(6) apart_perm [OF m] by simp
  have 4: "\<forall>y\<in>set ?R. 32 \<le> snd y" using iR by (simp add: inside_def)
  obtain a s' G' where T: "take_large tn ra (last_opt None A) node s = Ret (a + 32, s')"
    "large_ok s' G'" "no_touch s' G'" "apart (map (ext s') G' @ (unat a, unat tn) # ?R)"
    "unat node \<le> unat a" "unat a + unat tn \<le> unat node + unat (size_at s node)"
    "word0 s' a = LARGE_CLASS" "size_at s' a = tn"
    "\<forall>lo hi. (\<forall>g\<in>set ?G. lo \<le> unat g \<and> unat g + unat (size_at s g) \<le> hi) \<longrightarrow>
       (\<forall>g\<in>set G'. lo \<le> unat g \<and> unat g + unat (size_at s' g) \<le> hi)"
    "\<forall>r\<in>set ?R. \<forall>x. fst r \<le> unat x \<and> unat x < fst r + snd r \<longrightarrow> hmem s' x = hmem s x"
    "free_lists s' = free_lists s" "heap_cur s' = heap_cur s" "heap_end s' = heap_end s"
    by (rule take_large_spec [OF D(4,5) fit j 1 tn 2 3 4]) blast
  have w: "word0 s' q = word0 s q \<and> size_at s' q = size_at s q" if q: "(unat q, n) \<in> set ?R" for q n
  proof (rule words_cong [OF inside_okp [OF iR [OF q]]])
    fix x :: u64 assume "unat q \<le> unat x" "unat x < unat q + 32"
    then show "hmem s' x = hmem s x" using bspec [OF T(10) q] bspec [OF 4 q] by simp
  qed
  have "bytes_kept s s' L"
  proof (rule bytes_keptI)
    fix b m and x :: u64 assume b: "(b, m) \<in> set L" and x: "unat b \<le> unat x" "unat x < unat b + m"
    have "(unat b, m) \<in> set ?R" using b by (force simp: lext_def)
    from bspec [OF T(10) this] x show "hmem s' x = hmem s x" by simp
  qed
  moreover have "heap_inv s' F G' ((a, unat tn) # L)"
  proof (rule heap_inv_relarge [OF inv T(11-13) T(2,3)])
    have "unat HEAP_BASE + 4096 \<le> unat g \<and> unat g + unat (size_at s g) \<le> unat (heap_cur s)" if "g \<in> set ?G" for g
      using iG [OF that] by (simp add: inside_def)
    with T(9) show "\<forall>g\<in>set G'. unat HEAP_BASE + 4096 \<le> unat g \<and> unat g + unat (size_at s' g) \<le> unat (heap_cur s)"
      by blast
    show "\<forall>b\<in>set ((a, unat tn) # L). live_ok s' b \<and> inside s (lext b)"
    proof
      fix b assume "b \<in> set ((a, unat tn) # L)"
      then consider "b = (a, unat tn)" | "b \<in> set L" by auto
      then show "live_ok s' b \<and> inside s (lext b)"
      proof cases
        case 1
        then show ?thesis using iG [of node] T(5,6) tn
          by (simp add: live_ok_def T(7,8) LARGE_CLASS_def inside_def lext_def)
      next
        case 2
        then have "(unat (fst b), snd b) \<in> set ?R" by (force simp: lext_def)
        from w [OF this] iR [OF this] show ?thesis
          using D(8) [OF 2] live_ok_cong [of s' b s] by (simp add: lext_def)
      qed
    qed
    have "mset (map (ext s') G' @ slab_exts F @ map lext ((a, unat tn) # L)) =
        mset (map (ext s') G' @ (unat a, unat tn) # ?R)" by (simp add: lext_def)
    then show "apart (map (ext s') G' @ slab_exts F @ map lext ((a, unat tn) # L))" using T(4) apart_perm by blast
    show "\<forall>q k. (unat q, k) \<in> set (slab_exts F) \<longrightarrow> word0 s' q = word0 s q"
    proof (intro allI impI)
      fix q :: u64 and k assume "(unat q, k) \<in> set (slab_exts F)"
      then have "(unat q, k) \<in> set ?R" by simp
      from w [OF this] show "word0 s' q = word0 s q" by simp
    qed
  qed
  ultimately show ?thesis using T(1) by blast
qed

text \<open>The requests that do not wrap around: a power of two alignment and room above \<open>heap_cur\<close>.\<close>

definition req_align_of :: "u64 \<Rightarrow> u64" where
  "req_align_of align = (let a = (if align = 0 then 8 else align) in if a < 16 then 16 else a)"

definition req_ok :: "kheap \<Rightarrow> u64 \<Rightarrow> u64 \<Rightarrow> bool" where
  "req_ok s sz align \<longleftrightarrow> sz \<noteq> 0 \<and>
     (\<exists>j<63. req_align_of align = 2 ^ j \<and> unat (heap_cur s) + unat sz + 2 ^ j + 20000 < 2 ^ 64)"

text \<open>The requests whose block has room for the payload. A size class is chosen for the 24 bytes of the
  header and the payload, which starts 32 bytes into the block: a request for 24 to 31 bytes less
  than the size of its class is given a block that is too short.\<close>

definition payload_fits :: "u64 \<Rightarrow> u64 \<Rightarrow> bool" where
  "payload_fits sz align =
     (case pick_slab_class sz (if align = 0 then 8 else align) of
        None \<Rightarrow> True
      | Some k \<Rightarrow> unat sz + 32 \<le> unat (slab_classes ! k))"

lemma pick_slab_class_SomeD:
  assumes "pick_slab_class sz al = Some k" "unat sz + 24 < 2 ^ 64"
  shows "k < 8 \<and> unat sz + 24 \<le> unat (slab_classes ! k)"
proof -
  have "k < slab_count" "sz + 24 \<le> slab_classes ! k"
    using find_SomeD [OF assms(1) [unfolded pick_slab_class_def Let_def]]
    by (simp_all add: HEAP_HDR_SIZE_def)
  moreover have "slab_count = 8" by (simp add: slab_count_def slab_classes_def)
  moreover have "unat (sz + 24) = unat sz + 24" using assms(2) by (subst unat_add_no_wrap) simp_all
  ultimately show ?thesis by (simp add: word_le_nat_alt)
qed

lemma kalloc_unfold:
  "sz \<noteq> 0 \<Longrightarrow> kalloc root sz al s =
     bind_run (loop_run (walk_prev (next_of s) (large_fits (sz + 32) (req_align_of al) s) None (ptr (free_large s))))
       (\<lambda>(prev, cur). case cur of
          Some node \<Rightarrow> take_large (sz + 32) (req_align_of al) prev node s
        | None \<Rightarrow> (case pick_slab_class sz (if al = 0 then 8 else al) of
             Some k \<Rightarrow> alloc_slab root k (req_align_of al) s
           | None \<Rightarrow> alloc_bump root (sz + 32) (req_align_of al) s))"
  unfolding kalloc_def Let_def req_align_of_def HEAP_PAYLOAD_OFFSET_def by simp

lemma kalloc_spec:
  assumes inv: "heap_inv s F G L" and r: "req_ok s sz al" and fits: "payload_fits sz al"
  shows "(\<exists>m c. kalloc root sz al s = Panic m c) \<or>
    (\<exists>b n s' F' G'. kalloc root sz al s = Ret (b + 32, s') \<and> unat sz + 32 \<le> n \<and>
       heap_inv s' F' G' ((b, n) # L) \<and> bytes_kept s s' L)"
proof -
  obtain j where j: "j < 63" "req_align_of al = 2 ^ j" and sz: "sz \<noteq> 0"
    and nw: "unat (heap_cur s) + unat sz + 2 ^ j + 20000 < 2 ^ 64"
    using r unfolding req_ok_def by blast
  let ?tn = "sz + 32" and ?ra = "req_align_of al"
  have tn: "unat ?tn = unat sz + 32" using nw by (subst unat_add_no_wrap) simp_all
  have tn0: "32 < unat ?tn" using sz by (simp add: tn unat_gt_0)
  let ?A = "takeWhile (\<lambda>x. \<not> large_fits ?tn ?ra s x) G" and ?B = "dropWhile (\<lambda>x. \<not> large_fits ?tn ?ra s x) G"
  have w: "walk_prev (next_of s) (large_fits ?tn ?ra s) None (ptr (free_large s)) = Some (last_opt None ?A, hd_opt ?B)"
    using heap_invD(4) [OF inv] by (intro walk_prev_chain) (simp add: large_ok_def)
  have nw': "unat (heap_cur s) + 2 ^ j + 16384 < 2 ^ 64" using nw by linarith
  have K: "kalloc root sz al s =
      (case hd_opt ?B of Some node \<Rightarrow> take_large ?tn ?ra (last_opt None ?A) node s
       | None \<Rightarrow> (case pick_slab_class sz (if al = 0 then 8 else al) of
            Some k \<Rightarrow> alloc_slab root k ?ra s | None \<Rightarrow> alloc_bump root ?tn ?ra s))"
    using w by (simp add: kalloc_unfold [OF sz] loop_run_def)
  show ?thesis
  proof (cases ?B)
    case (Cons node B)
    have G: "G = ?A @ node # B" using Cons by (metis takeWhile_dropWhile_id)
    have fit: "large_fits ?tn ?ra s node" using Cons by (metis hd_dropWhile list.distinct(1) list.sel(1))
    have inv': "heap_inv s F (?A @ node # B) L" using inv G by simp
    obtain a s' G' where "take_large ?tn ?ra (last_opt None ?A) node s = Ret (a + 32, s')"
        "heap_inv s' F G' ((a, unat ?tn) # L)" "bytes_kept s s' L"
      using take_large_inv [OF inv' fit j tn0 nw'] by blast
    moreover have "hd_opt ?B = Some node" unfolding Cons by (simp add: hd_opt_def)
    ultimately have "kalloc root sz al s = Ret (a + 32, s')" "heap_inv s' F G' ((a, unat ?tn) # L)"
      "bytes_kept s s' L" using K by simp_all
    moreover have "unat sz + 32 \<le> unat ?tn" by (simp add: tn)
    ultimately show ?thesis by blast
  next
    case Nil
    have hB: "hd_opt ?B = None" unfolding Nil by (simp add: hd_opt_def)
    show ?thesis
    proof (cases "pick_slab_class sz (if al = 0 then 8 else al)")
      case (Some k)
      have "kalloc root sz al s = alloc_slab root k ?ra s" using K Some hB by simp
      moreover have "k < 8" using pick_slab_class_SomeD [OF Some] nw by linarith
      moreover have "unat sz + 32 \<le> unat (slab_classes ! k)"
        using fits unfolding payload_fits_def Some by simp
      moreover note alloc_slab_spec [OF inv _ j nw', of k root]
      ultimately show ?thesis by metis
    next
      case None
      have "kalloc root sz al s = alloc_bump root ?tn ?ra s" using K None hB by simp
      moreover have "(\<exists>m c. alloc_bump root ?tn ?ra s = Panic m c) \<or>
          (\<exists>b s'. alloc_bump root ?tn ?ra s = Ret (b + 32, s') \<and> heap_inv s' F G ((b, unat ?tn) # L) \<and>
             bytes_kept s s' L)"
      proof (rule alloc_bump_spec [OF inv j])
        show "32 \<le> unat ?tn" "unat (heap_cur s) + unat ?tn + 2 ^ j + 16384 < 2 ^ 64"
          using tn nw by linarith+
      qed
      moreover have "unat sz + 32 \<le> unat ?tn" by (simp add: tn)
      ultimately show ?thesis by metis
    qed
  qed
qed

section \<open>Release\<close>

lemma heap_inv_drop:
  assumes inv: "heap_inv s F G (L1 @ b # L2)" shows "heap_inv s F G (L1 @ L2)"
proof (rule heap_invI)
  note D = heap_invD [OF inv]
  have m: "mset (blocks s F G (L1 @ b # L2)) = mset (lext b # blocks s F G (L1 @ L2))" by (simp add: blocks_def)
  show "apart (blocks s F G (L1 @ L2))" using D(6) unfolding apart_perm [OF m] by simp
  show "inside s x" if "x \<in> set (blocks s F G (L1 @ L2))" for x
    using D(7) [of x] that by (auto simp: blocks_def)
  show "live_ok s c" if "c \<in> set (L1 @ L2)" for c using D(8) [of c] that by auto
qed (rule heap_invD [OF inv], assumption?)+

lemma free_large_inv:
  assumes inv: "heap_inv s F G (L1 @ (b, n) # L2)" and lc: "word0 s b = LARGE_CLASS"
  shows "\<exists>s' G'. insert_large_node b s = Ret s' \<and> heap_inv s' F G' (L1 @ L2) \<and>
    bytes_kept s s' (L1 @ L2) \<and> step_ok s (b # G) s' G'"
proof -
  note D = heap_invD [OF inv]
  let ?R = "slab_exts F @ map lext (L1 @ L2)"
  have ib: "inside s (unat b, n)" using D(7) [of "(unat b, n)"] by (simp add: blocks_def lext_def)
  have eb: "ext s b = (unat b, n)" using D(8) [of "(b, n)"] lc by (simp add: live_ok_def ext_def)
  have ok: "okext s b" "is_canonical b"
    using ib eb inside_okp [OF ib] canonical_high [OF inside_base [OF ib]] unat_lt_64 [of "heap_cur s"]
    by (auto simp: okext_def okp_def inside_def ext_def)
  have m: "mset ([ext s b] @ map (ext s) G @ ?R) = mset (blocks s F G (L1 @ (b, n) # L2))"
    by (simp add: blocks_def lext_def eb)
  have ap: "apart ([ext s b] @ map (ext s) G @ ?R)" using D(6) unfolding apart_perm [OF m] .
  have iR: "inside s y" if "y \<in> set ([ext s b] @ map (ext s) G @ ?R)" for y
    using D(7) [of y] that m by (metis set_mset_mset)
  have "apart (ext s b # map (ext s) G)" using ap by simp
  from insert_grown [OF D(4,5) ok this] obtain s' G' where
    S: "insert_large_node b s = Ret s'" and gr: "grown s s' [ext s b] G G'"
    and st: "step_ok s (b # G) s' G'" by blast
  have pos: "\<forall>y\<in>set ?R. 32 \<le> snd y" using iR by (simp add: inside_def)
  have w: "word0 s' q = word0 s q \<and> size_at s' q = size_at s q" if "(unat q, k) \<in> set ?R" for q k
  proof (rule grown_alive [OF gr ap pos that])
    show "okp q" using iR [of "(unat q, k)"] that by (intro inside_okp [of s q k]) auto
  qed
  have "bytes_kept s s' (L1 @ L2)"
  proof (rule bytes_keptI)
    fix c k and x :: u64 assume c: "(c, k) \<in> set (L1 @ L2)" and x: "unat c \<le> unat x" "unat x < unat c + k"
    have "(unat c, k) \<in> set ?R" using c by (force simp: lext_def)
    from grown_bytes [OF gr ap this] x show "hmem s' x = hmem s x" by simp
  qed
  note kept = this
  have "heap_inv s' F G' (L1 @ L2)"
  proof (rule heap_inv_relarge [OF inv same_rest_fields [OF grownD(1) [OF gr]] grownD(2,3) [OF gr]])
    have "\<forall>x\<in>set ([ext s b] @ map (ext s) G). unat HEAP_BASE + 4096 \<le> fst x \<and> fst x + snd x \<le> unat (heap_cur s)"
      using iR by (simp add: inside_def)
    from grownD(5) [OF gr this]
    show "\<forall>g\<in>set G'. unat HEAP_BASE + 4096 \<le> unat g \<and> unat g + unat (size_at s' g) \<le> unat (heap_cur s)" .
    show "\<forall>c\<in>set (L1 @ L2). live_ok s' c \<and> inside s (lext c)"
    proof
      fix c assume c: "c \<in> set (L1 @ L2)"
      then have "(unat (fst c), snd c) \<in> set ?R" by (force simp: lext_def)
      from w [OF this] iR [of "lext c"] c show "live_ok s' c \<and> inside s (lext c)"
        using D(8) [of c] live_ok_cong [of s' c s] by auto
    qed
    have "\<forall>y\<in>set ?R. 0 < snd y" using pos by fastforce
    from grownD(4) [OF gr this ap] show "apart (map (ext s') G' @ slab_exts F @ map lext (L1 @ L2))" .
    show "\<forall>q k. (unat q, k) \<in> set (slab_exts F) \<longrightarrow> word0 s' q = word0 s q"
    proof (intro allI impI)
      fix q :: u64 and k assume "(unat q, k) \<in> set (slab_exts F)"
      then have "(unat q, k) \<in> set ?R" by simp
      from w [OF this] show "word0 s' q = word0 s q" by simp
    qed
  qed
  with S kept st show ?thesis by blast
qed

lemma free_slab_inv:
  assumes inv: "heap_inv s F G (L1 @ (b, n) # L2)" and sc: "word0 s b < 8"
    and k: "k = unat (word0 s b)"
    and s': "hmem s' = hmem (set_word0 b (free_lists s ! k) s)" "free_lists s' = (free_lists s)[k := b]"
      "free_large s' = free_large s" "heap_cur s' = heap_cur s" "heap_end s' = heap_end s"
  shows "heap_inv s' (F[k := b # F ! k]) G (L1 @ L2) \<and> bytes_kept s s' (L1 @ L2)"
proof
  note D = heap_invD [OF inv]
  let ?c = "unat (slab_classes ! k)" and ?old = "blocks s F G (L1 @ L2)"
  have k8: "k < 8" using sc k by (simp add: word_less_nat_alt)
  have ib: "inside s (unat b, n)" using D(7) [of "(unat b, n)"] by (simp add: blocks_def lext_def)
  note okb = inside_okp [OF ib]
  have cn: "?c \<le> n" using D(8) [of "(b, n)"] sc k by (simp add: live_ok_def)
  have m: "mset (blocks s F G (L1 @ (b, n) # L2)) = mset ((unat b, n) # ?old)" by (simp add: blocks_def lext_def)
  have ap: "apart ((unat b, n) # ?old)" using D(6) unfolding apart_perm [OF m] .
  have io: "inside s x" if "x \<in> set ?old" for x using D(7) [of x] that by (auto simp: blocks_def)
  have w: "word0 s' q = word0 s q \<and> size_at s' q = size_at s q" if q: "(unat q, i) \<in> set ?old" for q i
  proof -
    note iq = io [OF q]
    have "dj (unat b, n) (unat q, i)" using ap q by simp
    then have f: "far b q" using ib iq by (auto simp: dj_def far_def inside_def)
    have "word0 s' q = word0 (set_word0 b (free_lists s ! k) s) q" "size_at s' q = size_at (set_word0 b (free_lists s ! k) s) q"
      unfolding word0_def size_at_def s'(1) by (rule refl)+
    then show ?thesis using set_word0_at [OF okb inside_okp [OF iq]] f far_neq [OF f] by simp
  qed
  show "bytes_kept s s' (L1 @ L2)"
  proof (rule bytes_keptI)
    fix c i and x :: u64 assume c: "(c, i) \<in> set (L1 @ L2)" and x: "unat c \<le> unat x" "unat x < unat c + i"
    have "(unat c, i) \<in> set ?old" using in_blocks(2) [OF c] by (simp add: lext_def)
    then have "dj (unat b, n) (unat c, i)" using ap by simp
    then have "off b x" using x ib okb by (auto simp: dj_def off_def inside_def)
    then show "hmem s' x = hmem s x" by (simp add: s'(1) set_off)
  qed
  have wb: "word0 s' b = free_lists s ! k"
    using set_word0_at(1) [OF okb okb, of "free_lists s ! k" s] by (simp add: word0_def s'(1))
  have wG: "\<forall>g\<in>set G. word0 s' g = word0 s g \<and> size_at s' g = size_at s g"
    using w in_blocks(1) by (metis ext_def)
  note large = words_frame_large_ok [OF D(4,5) s'(3) wG]
  have m': "mset (blocks s' (F[k := b # F ! k]) G (L1 @ L2)) = mset ((unat b, ?c) # ?old)"
    unfolding blocks_def large(3) using slab_exts_update [of k F "b # F ! k"] slab_exts_at [of k F] k8 D(2)
    by (simp add: class_exts_def)
  show "heap_inv s' (F[k := b # F ! k]) G (L1 @ L2)"
  proof (rule heap_invI)
    show "apart (blocks s' (F[k := b # F ! k]) G (L1 @ L2))"
      unfolding apart_perm [OF m'] by (rule apart_shrink [OF ap]) (use cn in auto)
    show "inside s' x" if x: "x \<in> set (blocks s' (F[k := b # F ! k]) G (L1 @ L2))" for x
    proof -
      from x m' have "x = (unat b, ?c) \<or> x \<in> set ?old" by (metis set_ConsD set_mset_mset)
      then show ?thesis using io [of x] ib cn slab_classes_bounds [OF k8] by (auto simp: inside_def s')
    qed
    show "live_ok s' c" if c: "c \<in> set (L1 @ L2)" for c
    proof -
      have "(unat (fst c), snd c) \<in> set ?old" using in_blocks(2) [OF c] by (simp add: lext_def)
      from w [OF this] show ?thesis using D(8) [of c] c live_ok_cong [of s' c s] by auto
    qed
    show "chain (next_of s') (ptr (free_lists s' ! i)) ((F[k := b # F ! k]) ! i)" if i: "i < 8" for i
    proof -
      have "chain (next_of s') q (F ! i) \<longleftrightarrow> chain (next_of s) q (F ! i)" for q
      proof (rule chain_cong)
        fix x assume "x \<in> set (F ! i)"
        then have "(unat x, unat (slab_classes ! i)) \<in> set ?old" by (rule in_blocks(3) [OF i])
        from w [OF this] show "next_of s' x = next_of s x" unfolding next_of_def by simp
      qed
      then have "chain (next_of s') (ptr (free_lists s ! i)) (F ! i)" using D(3) [OF i] by simp
      then show ?thesis using i k8 D(1,2) okb wb
        by (cases "i = k") (simp_all add: s'(2) ptr_nz okp_def next_of_def)
    qed
    show "length (free_lists s') = 8" "length (F[k := b # F ! k]) = 8" using D(1,2) s' by simp_all
    show "unat HEAP_BASE + 4096 \<le> unat (heap_cur s')" "heap_cur s' \<le> heap_end s'" using D(9,10) s' by simp_all
  qed (rule large)+
qed

lemma heap_inv_same:
  assumes inv: "heap_inv s F G L" shows "heap_inv (s\<lparr>total_frees := x\<rparr>) F G L"
  by (rule heap_inv_frame(1) [OF inv]) (use heap_invD(10) [OF inv] in simp_all)

text \<open>What the release of block \<open>b\<close> does, by the first word of its header: a block of the large list
  is merged into that list, a block with a class index becomes the head of the list of its class,
  anything else is left alone, as is every block while releases are disabled.\<close>

definition released :: "kheap \<Rightarrow> u64 \<Rightarrow> kheap \<Rightarrow> bool" where
  "released s b s' \<longleftrightarrow>
     (let idx = word0 s b
      in if \<not> frees_enabled s then s' = s
         else if idx = LARGE_CLASS
         then (\<exists>G G'. large_ok s G \<and> large_ok s' G' \<and> covered s b s' G' \<and>
                (\<Sum>g\<leftarrow>G'. unat (size_at s' g)) = unat (size_at s b) + (\<Sum>g\<leftarrow>G. unat (size_at s g))) \<and>
              free_lists s' = free_lists s \<and> total_frees s' = total_frees s + 1
         else if idx < 8
         then free_lists s' = (free_lists s)[unat idx := b] \<and> word0 s' b = free_lists s ! unat idx \<and>
              free_large s' = free_large s \<and> total_frees s' = total_frees s + 1
         else s' = s)"

lemma kfree_unfold:
  assumes inv: "heap_inv s F G (L1 @ (b, n) # L2)"
  shows "kfree (b + 32) s =
    (if \<not> frees_enabled s then Ret s
     else if word0 s b = LARGE_CLASS
     then bind_run (insert_large_node b s) (\<lambda>s1. Ret (s1\<lparr>total_frees := total_frees s1 + 1\<rparr>))
     else if word0 s b < 8
     then Ret ((set_word0 b (free_lists s ! unat (word0 s b)) s)
            \<lparr>free_lists := (free_lists s)[unat (word0 s b) := b], total_frees := total_frees s + 1\<rparr>)
     else Ret s)"
proof -
  have ib: "inside s (unat b, n)" using heap_invD(7) [OF inv, of "(unat b, n)"] by (simp add: blocks_def lext_def)
  note can = canonical_high [OF inside_base [OF ib]]
  have "unat (b + 32) = unat b + 32"
    using ib unat_lt_64 [of "heap_cur s"] by (subst unat_add_no_wrap) (simp_all add: inside_def)
  then have nz: "b + 32 \<noteq> 0" by (metis add_eq_0_iff_both_eq_0 unat_0 zero_neq_numeral)
  show ?thesis
    using nz can by (simp add: kfree_def Let_def HEAP_PAYLOAD_OFFSET_def slab_count_def slab_classes_def
        set_word0_def not_le)
qed

text \<open>Releasing a block handed out always returns, gives the block back and keeps the others.\<close>

lemma kfree_spec:
  assumes inv: "heap_inv s F G (L1 @ (b, n) # L2)"
  shows "\<exists>s' F' G'. kfree (b + 32) s = Ret s' \<and> heap_inv s' F' G' (L1 @ L2) \<and>
    bytes_kept s s' (L1 @ L2) \<and> released s b s'"
proof -
  have ib: "inside s (unat b, n)" using heap_invD(7) [OF inv, of "(unat b, n)"] by (simp add: blocks_def lext_def)
  note okb = inside_okp [OF ib]
  note drop = heap_inv_drop [OF inv] and K = kfree_unfold [OF inv]
  consider "\<not> frees_enabled s" | "frees_enabled s" "word0 s b = LARGE_CLASS"
    | "frees_enabled s" "word0 s b \<noteq> LARGE_CLASS" "\<not> word0 s b < 8"
    | "frees_enabled s" "word0 s b \<noteq> LARGE_CLASS" "word0 s b < 8" by blast
  then show ?thesis
  proof cases
    case 1
    then show ?thesis using drop K bytes_kept_eq [of s s "L1 @ L2"] by (auto simp: released_def)
  next
    case 2
    from free_large_inv [OF inv 2(2)] obtain s' G' where
      I: "insert_large_node b s = Ret s'" "heap_inv s' F G' (L1 @ L2)" "bytes_kept s s' (L1 @ L2)"
      and st: "step_ok s (b # G) s' G'" by blast
    let ?s' = "s'\<lparr>total_frees := total_frees s' + 1\<rparr>"
    have r: "released s b ?s'"
    proof -
      have "large_ok ?s' G'" using heap_invD(4) [OF heap_inv_same [OF I(2)]] .
      moreover have "(\<Sum>g\<leftarrow>G'. unat (size_at ?s' g)) = unat (size_at s b) + (\<Sum>g\<leftarrow>G. unat (size_at s g))"
        using step_okD(4) [OF st] by simp
      moreover have "covered s b ?s' G'" using step_okD(7) [OF st, of b] by (simp add: covered_def)
      moreover have "free_lists s' = free_lists s" "total_frees s' = total_frees s"
        using step_okD(1) [OF st] by (cases s; cases s'; simp add: same_rest_def)+
      ultimately show ?thesis using 2 heap_invD(4) [OF inv] by (auto simp: released_def Let_def)
    qed
    have "kfree (b + 32) s = Ret ?s'" using 2 I(1) K by simp
    moreover have "bytes_kept s ?s' (L1 @ L2)" using I(3) by (simp add: bytes_kept_def)
    ultimately show ?thesis using heap_inv_same [OF I(2)] r by blast
  next
    case 3
    then show ?thesis using drop K bytes_kept_eq [of s s "L1 @ L2"] by (auto simp: released_def)
  next
    case 4
    define k where "k = unat (word0 s b)"
    let ?s' = "(set_word0 b (free_lists s ! k) s)\<lparr>free_lists := (free_lists s)[k := b], total_frees := total_frees s + 1\<rparr>"
    have "kfree (b + 32) s = Ret ?s'" using 4 K by (simp add: k_def)
    moreover have "heap_inv ?s' (F[k := b # F ! k]) G (L1 @ L2) \<and> bytes_kept s ?s' (L1 @ L2)"
      by (rule free_slab_inv [OF inv 4(3) k_def]) (simp_all add: set_word0_def)
    moreover have "released s b ?s'"
      using 4 set_word0_at(1) [OF okb okb, of "free_lists s ! k" s]
      by (simp add: released_def Let_def k_def) (simp add: word0_def)
    ultimately show ?thesis by blast
  qed
qed

section \<open>The contract of the heap\<close>

text \<open>What the owners of blocks know: \<open>(b, m)\<close> in \<open>W\<close> stands for a block that starts at \<open>b\<close>
  (the payload pointer is \<open>b + 32\<close>) and has \<open>m\<close> bytes, the 32 of the header area and the
  payload. The heap may have set aside more than that.\<close>

definition heap_ok :: "kheap \<Rightarrow> live list \<Rightarrow> bool" where
  "heap_ok s W \<longleftrightarrow> (\<exists>F G L. heap_inv s F G L \<and> list_all2 (\<lambda>w l. fst w = fst l \<and> snd w \<le> snd l) W L)"

inductive heap_step :: "u64 \<Rightarrow> kheap \<times> live list \<Rightarrow> kheap \<times> live list \<Rightarrow> bool" for root where
  alloc: "req_ok s sz al \<Longrightarrow> payload_fits sz al \<Longrightarrow> kalloc root sz al s = Ret (p, s') \<Longrightarrow>
     w = (p - 32, 32 + unat sz) \<Longrightarrow>
     heap_step root (s, W) (s', w # W)"
| free: "kfree (b + 32) s = Ret s' \<Longrightarrow> heap_step root (s, W1 @ (b, m) # W2) (s', W1 @ W2)"
| write_payload: "(b, m) \<in> set W \<Longrightarrow> 32 \<le> i \<Longrightarrow> i < m \<Longrightarrow>
     s' = s\<lparr>hmem := (hmem s)(b + of_nat i := v)\<rparr> \<Longrightarrow> heap_step root (s, W) (s', W)"

lemma apart_smaller:
  assumes "list_all2 (\<lambda>w l. fst w = fst l \<and> snd w \<le> snd l) W L" "apart (map lext L)"
  shows "apart (map lext W)"
proof -
  have len: "length W = length L" by (rule list_all2_lengthD [OF assms(1)])
  have "dj (lext (W ! i)) (lext (W ! j))" if "i < j" "j < length W" for i j
  proof -
    have "fst (W ! i) = fst (L ! i) \<and> snd (W ! i) \<le> snd (L ! i)"
      "fst (W ! j) = fst (L ! j) \<and> snd (W ! j) \<le> snd (L ! j)"
      using list_all2_nthD [OF assms(1)] that by simp_all
    moreover have "dj (lext (L ! i)) (lext (L ! j))"
      using assms(2) that len by (simp add: apart_def sorted_wrt_iff_nth_less)
    ultimately show ?thesis unfolding dj_def lext_def by auto
  qed
  then show ?thesis by (simp add: apart_def sorted_wrt_iff_nth_less)
qed

lemma heap_ok_facts:
  assumes "heap_ok s W"
  shows "apart (map lext W)"
    "(b, m) \<in> set W \<Longrightarrow> unat HEAP_BASE + 4096 \<le> unat b \<and> unat b + m \<le> unat (heap_end s)"
proof -
  obtain F G L where inv: "heap_inv s F G L" and l: "list_all2 (\<lambda>w l. fst w = fst l \<and> snd w \<le> snd l) W L"
    using assms unfolding heap_ok_def by blast
  show "apart (map lext W)"
    using apart_smaller [OF l] heap_invD(6) [OF inv] by (simp add: blocks_def)
  assume "(b, m) \<in> set W"
  then obtain i where i: "i < length W" "W ! i = (b, m)" by (metis in_set_conv_nth)
  with l have L: "L ! i \<in> set L" "fst (L ! i) = b" "m \<le> snd (L ! i)"
    by (auto simp: list_all2_conv_all_nth)
  from heap_invD(7) [OF inv in_blocks(2) [OF L(1)]] heap_invD(10) [OF inv] L
  show "unat HEAP_BASE + 4096 \<le> unat b \<and> unat b + m \<le> unat (heap_end s)"
    by (simp add: inside_def lext_def word_le_nat_alt)
qed

lemma heap_ok_kalloc:
  assumes ok: "heap_ok s W" and r: "req_ok s sz al" "payload_fits sz al"
  shows "(\<exists>m c. kalloc root sz al s = Panic m c) \<or>
    (\<exists>p s'. kalloc root sz al s = Ret (p, s') \<and> heap_ok s' ((p - 32, 32 + unat sz) # W) \<and> bytes_kept s s' W)"
proof -
  obtain F G L where inv: "heap_inv s F G L" and l: "list_all2 (\<lambda>w l. fst w = fst l \<and> snd w \<le> snd l) W L"
    using ok unfolding heap_ok_def by blast
  show ?thesis
    using kalloc_spec [OF inv r, of root]
  proof (elim disjE exE conjE)
    fix b n s' F' G'
    assume k: "kalloc root sz al s = Ret (b + 32, s')" "unat sz + 32 \<le> n" "heap_inv s' F' G' ((b, n) # L)"
      "bytes_kept s s' L"
    have "heap_ok s' ((b + 32 - 32, 32 + unat sz) # W)"
      unfolding heap_ok_def
    proof (intro exI conjI)
      show "heap_inv s' F' G' ((b, n) # L)" by (rule k(3))
    qed (use l k in simp)
    with k(1) bytes_kept_smaller [OF l k(4)] show ?thesis by blast
  qed blast
qed

text \<open>The allocator's list of blocks behind the owners' one.\<close>

lemma heap_ok_split:
  assumes ok: "heap_ok s (W1 @ (b, m) # W2)"
  obtains F G L1 L2 n where "heap_inv s F G (L1 @ (b, n) # L2)"
    "list_all2 (\<lambda>w l. fst w = fst l \<and> snd w \<le> snd l) (W1 @ W2) (L1 @ L2)"
proof -
  obtain F G L where inv: "heap_inv s F G L"
    and l: "list_all2 (\<lambda>w l. fst w = fst l \<and> snd w \<le> snd l) (W1 @ (b, m) # W2) L"
    using ok unfolding heap_ok_def by blast
  from l obtain L1 L2 n where L: "L = L1 @ (b, n) # L2"
    and l1: "list_all2 (\<lambda>w l. fst w = fst l \<and> snd w \<le> snd l) W1 L1"
    and l2: "list_all2 (\<lambda>w l. fst w = fst l \<and> snd w \<le> snd l) W2 L2"
    by (auto simp: list_all2_append1 list_all2_Cons1)
  from that [OF inv [unfolded L] list_all2_appendI [OF l1 l2]] show thesis .
qed

lemma heap_ok_kfree:
  assumes ok: "heap_ok s (W1 @ (b, m) # W2)"
  shows "\<exists>s'. kfree (b + 32) s = Ret s' \<and> heap_ok s' (W1 @ W2) \<and> bytes_kept s s' (W1 @ W2) \<and> released s b s'"
proof -
  from heap_ok_split [OF ok] obtain F G L1 L2 n where inv: "heap_inv s F G (L1 @ (b, n) # L2)"
    and l: "list_all2 (\<lambda>w l. fst w = fst l \<and> snd w \<le> snd l) (W1 @ W2) (L1 @ L2)" .
  from kfree_spec [OF inv] obtain s' F' G' where
    "kfree (b + 32) s = Ret s'" "heap_inv s' F' G' (L1 @ L2)" "bytes_kept s s' (L1 @ L2)" "released s b s'" by blast
  with l bytes_kept_smaller [OF l] show ?thesis unfolding heap_ok_def by blast
qed

lemma rd64_update_other:
  assumes "unat q + 8 \<le> 2 ^ 64" "unat a < unat q \<or> unat q + 8 \<le> unat a"
  shows "rd64 (m(a := v)) q = rd64 m q"
proof -
  have "q + of_nat i \<noteq> a" if "i < 8" for i
  proof
    assume "q + of_nat i = a"
    moreover have "unat (q + of_nat i) = unat q + i"
      using that assms(1) by (subst unat_add_no_wrap) (simp_all add: unat_of_nat_small)
    ultimately show False using assms(2) that by auto
  qed
  then show ?thesis unfolding rd64_def by (intro arg_cong [where f = le_word] rd_bytes_cong) auto
qed

lemma heap_ok_write:
  assumes ok: "heap_ok s W" and w: "(b, m) \<in> set W" "32 \<le> i" "i < m"
  shows "heap_ok (s\<lparr>hmem := (hmem s)(b + of_nat i := v)\<rparr>) W"
proof -
  let ?s' = "s\<lparr>hmem := (hmem s)(b + of_nat i := v)\<rparr>"
  obtain F G L where inv: "heap_inv s F G L"
    and l: "list_all2 (\<lambda>w l. fst w = fst l \<and> snd w \<le> snd l) W L"
    using ok unfolding heap_ok_def by blast
  obtain k where "k < length W" "W ! k = (b, m)" using w(1) by (metis in_set_conv_nth)
  with l obtain n where L: "(b, n) \<in> set L" "m \<le> n"
    by (auto simp: list_all2_conv_all_nth) (metis fst_conv nth_mem prod.collapse snd_conv)
  have bn: "(unat b, n) \<in> set (blocks s F G L)" using in_blocks(2) [OF L(1)] by (simp add: lext_def)
  have ib: "inside s (unat b, n)" by (rule heap_invD(7) [OF inv bn])
  have ua: "unat (b + of_nat i) = unat b + i"
    using ib w L unat_lt_64 [of "heap_cur s"]
    by (subst unat_add_no_wrap) (simp_all add: inside_def unat_of_nat_small)
  have "heap_inv ?s' F G L"
  proof (rule heap_inv_frame(1) [OF inv])
    show "\<forall>q j. (unat q, j) \<in> set (blocks s F G L) \<longrightarrow> word0 ?s' q = word0 s q \<and> size_at ?s' q = size_at s q"
    proof (intro allI impI)
      fix q :: u64 and j assume q: "(unat q, j) \<in> set (blocks s F G L)"
      note iq = heap_invD(7) [OF inv q]
      have "(unat q, j) = (unat b, n) \<or> dj (unat q, j) (unat b, n)"
        using apart_pair [of id "blocks s F G L"] heap_invD(6) [OF inv] q bn by auto
      then have o: "unat b + i < unat q \<or> unat q + 32 \<le> unat b + i"
      proof
        assume "(unat q, j) = (unat b, n)"
        then show ?thesis using w(2) by simp
      next
        assume "dj (unat q, j) (unat b, n)"
        then have "unat q + j \<le> unat b \<or> unat b + n \<le> unat q" by (simp add: dj_def)
        moreover have "32 \<le> j" using iq by (simp add: inside_def)
        ultimately show ?thesis using w(2,3) L(2) by linarith
      qed
      note okq = inside_okp [OF iq]
      show "word0 ?s' q = word0 s q \<and> size_at ?s' q = size_at s q"
      proof
        show "word0 ?s' q = word0 s q" unfolding word0_def
          using rd64_update_other [of q "b + of_nat i" "hmem s" v] o okq by (auto simp: okp_def ua)
        show "size_at ?s' q = size_at s q" unfolding size_at_def
          using rd64_update_other [of "q + 8" "b + of_nat i" "hmem s" v] o okq okp_offset(1) [OF okq]
          by (auto simp: okp_def ua)
      qed
    qed
  qed (use heap_invD(10) [OF inv] in simp_all)
  with l show ?thesis unfolding heap_ok_def by blast
qed

lemma heap_step_ok:
  assumes "heap_step root sW sW'" "heap_ok (fst sW) (snd sW)" shows "heap_ok (fst sW') (snd sW')"
  using assms
proof (induction rule: heap_step.induct)
  case (alloc s sz al p s' w W)
  then show ?case using heap_ok_kalloc [of s W sz al root] by auto
next
  case (free b s s' W1 m W2)
  then show ?case using heap_ok_kfree [of s W1 b m W2] by auto
next
  case (write_payload b m W i s' s v)
  then show ?case using heap_ok_write by simp
qed

lemma heap_steps_ok:
  "(heap_step root)\<^sup>*\<^sup>* sW sW' \<Longrightarrow> heap_ok (fst sW) (snd sW) \<Longrightarrow> heap_ok (fst sW') (snd sW')"
  by (induction rule: rtranclp_induct) (auto dest: heap_step_ok)

lemma heap_ok_start:
  assumes "free_lists s = replicate 8 0" "free_large s = 0" "heap_cur s = HEAP_BASE + 4096"
    "heap_cur s \<le> heap_end s"
  shows "heap_ok s []"
proof -
  have b: "blocks s (replicate 8 []) [] [] = []" by (simp add: blocks_def slab_exts_def)
  have "heap_inv s (replicate 8 []) [] []"
  proof (rule heap_invI)
    show "chain (next_of s) (ptr (free_lists s ! k)) (replicate 8 [] ! k)" if "k < 8" for k
      using that assms(1) by (simp add: ptr_def)
    show "large_ok s []" "no_touch s []" using assms(2) by (simp_all add: large_ok_def no_touch_def ptr_def)
    show "apart (blocks s (replicate 8 []) [] [])" by (simp add: b)
    show "inside s x" if "x \<in> set (blocks s (replicate 8 []) [] [])" for x using that by (simp add: b)
    show "unat HEAP_BASE + 4096 \<le> unat (heap_cur s)" by (simp add: assms(3) HEAP_BASE_def)
  qed (use assms in simp_all)
  then show ?thesis unfolding heap_ok_def by blast
qed

section \<open>Allocations of a size class\<close>

text \<open>With an empty large list a request is served from its size class: the head of the class list, or
  a new block at the end of the heap.\<close>

lemma kalloc_class:
  assumes "sz \<noteq> 0" "free_large s = 0" "pick_slab_class sz (if al = 0 then 8 else al) = Some k"
  shows "kalloc root sz al s = alloc_slab root k (req_align_of al) s"
proof -
  have "walk_prev (next_of s) P None (ptr (free_large s)) = Some (None, None)" for P
    using walk_prev_chain [of "next_of s" "ptr (free_large s)" "[]" P None] assms(2)
    by (simp add: ptr_def last_opt_def hd_opt_def)
  then show ?thesis using assms by (simp add: kalloc_unfold loop_run_def)
qed

lemma class_align:
  assumes "pick_slab_class sz (if al = 0 then 8 else al) = Some k" "req_align_of al = 2 ^ j" "j < 63"
  shows "k < 8" "2 ^ j \<le> unat (slab_classes ! k)" "2 ^ j dvd unat (slab_classes ! k)"
proof -
  have f: "k < slab_count" "req_align_of al \<le> slab_classes ! k"
    using find_SomeD [OF assms(1) [unfolded pick_slab_class_def Let_def]]
    by (simp_all add: req_align_of_def Let_def)
  show k: "k < 8" using f(1) by (simp add: slab_count_def slab_classes_def)
  have "unat (2 ^ j :: u64) = 2 ^ j" using assms(3) by (intro unat_exp) simp
  then show le: "2 ^ j \<le> unat (slab_classes ! k)" using f(2) assms(2) by (simp add: word_le_nat_alt)
  have "\<forall>c\<in>set slab_classes. \<exists>i. unat c = 2 ^ i"
    unfolding slab_classes_def by (auto intro: exI [of _ 6] exI [of _ 7] exI [of _ 8] exI [of _ 9]
        exI [of _ 10] exI [of _ 11] exI [of _ 12] exI [of _ 13])
  moreover have "slab_classes ! k \<in> set slab_classes" using k by (intro nth_mem) (simp add: slab_classes_def)
  ultimately obtain i where i: "unat (slab_classes ! k) = 2 ^ i" by blast
  with le have "j \<le> i" by (simp add: power_increasing_iff)
  then show "2 ^ j dvd unat (slab_classes ! k)" unfolding i by (rule le_imp_power_dvd)
qed

lemma align_up_same:
  assumes "j < 64" "unat v + 2 ^ j - 1 < 2 ^ 64" "2 ^ j dvd unat v" shows "align_up v (2 ^ j) = v"
proof -
  have d: "2 ^ j dvd unat (align_up v (2 ^ j))" using align_up_facts(3) [OF assms(1,2)] by (simp add: dvd_eq_mod_eq_0)
  have "2 ^ j dvd unat (align_up v (2 ^ j)) - unat v" by (rule dvd_diff_nat [OF d assms(3)])
  moreover have "unat (align_up v (2 ^ j)) - unat v < 2 ^ j"
    using align_up_facts(1,2) [OF assms(1,2)] by simp
  ultimately have "unat (align_up v (2 ^ j)) - unat v = 0" using nat_dvd_not_less by blast
  then show ?thesis using align_up_facts(1) [OF assms(1,2)] by (simp add: word_eq_unat)
qed

text \<open>A new block of class \<open>k\<close> is at the end of the heap, rounded up to the alignment.\<close>

lemma new_slab_block:
  assumes "free_lists s ! k = 0" "k < 8" "j < 63" "ra = 2 ^ j" "alloc_slab root k ra s = Ret (a, s1)"
    and nw: "unat (heap_cur s) + 2 ^ j + 16384 < 2 ^ 64"
  shows "a = align_up (heap_cur s) ra + 32" "heap_cur s1 = align_up (heap_cur s) ra + slab_classes ! k"
    "free_large s1 = free_large s" "free_lists s1 = free_lists s"
proof -
  define cur where "cur = align_up (heap_cur s) ra"
  have j64: "j < 64" and nw1: "unat (heap_cur s) + 2 ^ j - 1 < 2 ^ 64" using assms(3) nw by simp_all
  note al = align_up_facts(2) [OF j64 nw1, folded assms(4), folded cur_def]
  have fit: "unat cur + unat (slab_classes ! k) + 4096 < 2 ^ 64"
    using al slab_classes_bounds [OF assms(2)] nw by linarith
  show "a = align_up (heap_cur s) ra + 32" "heap_cur s1 = align_up (heap_cur s) ra + slab_classes ! k"
    "free_large s1 = free_large s" "free_lists s1 = free_lists s"
    using assms(1,5)
    by (cases rule: ensure_space_total [OF fit, where root = root and s = "s\<lparr>heap_cur := cur\<rparr>", case_names panic ret];
        auto simp: alloc_slab_def Let_def cur_def HEAP_PAYLOAD_OFFSET_def)+
qed

lemma two_slab_blocks:
  assumes sz: "pick_slab_class sz (if al = 0 then 8 else al) = Some k"
    and r: "req_ok s sz al" "req_ok s1 sz al" and e: "free_large s = 0" "free_lists s ! k = 0"
    and a: "kalloc root sz al s = Ret (a, s1)" and b: "kalloc root sz al s1 = Ret (b, s2)"
  shows "unat (b - 32) = unat (a - 32) + unat (slab_classes ! k)" "unat a = unat (a - 32) + 32"
    "unat sz + 24 \<le> unat (slab_classes ! k)"
proof -
  obtain j where j: "j < 63" "req_align_of al = 2 ^ j" and nz: "sz \<noteq> 0"
    and nw: "unat (heap_cur s) + unat sz + 2 ^ j + 20000 < 2 ^ 64"
    using r(1) unfolding req_ok_def by blast
  obtain j' where j': "j' < 63" "req_align_of al = 2 ^ j'"
    and nw': "unat (heap_cur s1) + unat sz + 2 ^ j' + 20000 < 2 ^ 64"
    using r(2) unfolding req_ok_def by blast
  have "unat (req_align_of al) = 2 ^ j" "unat (req_align_of al) = 2 ^ j'"
    using j j' unat_exp [of j, where 'a = 64] unat_exp [of j', where 'a = 64] by simp_all
  then have "j' = j" by simp
  then have s1w: "unat (heap_cur s1) + 2 ^ j + 16384 < 2 ^ 64" using nw' by simp
  let ?c = "slab_classes ! k"
  note A = class_align [OF sz j(2,1)] and cb = slab_classes_bounds [OF class_align(1) [OF sz j(2,1)]]
  define cur where "cur = align_up (heap_cur s) (2 ^ j)"
  have j64: "j < 64" and nw1: "unat (heap_cur s) + 2 ^ j - 1 < 2 ^ 64"
    and s0w: "unat (heap_cur s) + 2 ^ j + 16384 < 2 ^ 64" using j nw by simp_all
  note al = align_up_facts [OF j64 nw1, folded cur_def]
  have "alloc_slab root k (2 ^ j) s = Ret (a, s1)" using a kalloc_class [OF nz e(1) sz] j(2) by simp
  note N = new_slab_block [OF e(2) A(1) j(1) refl this s0w, folded cur_def]
  have "alloc_slab root k (2 ^ j) s1 = Ret (b, s2)" using b kalloc_class [OF nz _ sz] j(2) e N(3) by simp
  note M = new_slab_block [OF _ A(1) j(1) refl this s1w]
  have uc: "unat (cur + ?c) = unat cur + unat ?c" using al cb nw by (intro unat_add_no_wrap) simp
  have "2 ^ j dvd unat cur" using al(3) by (simp add: dvd_eq_mod_eq_0)
  then have "2 ^ j dvd unat (heap_cur s1)" using A(3) by (simp add: N(2) uc)
  then have "align_up (heap_cur s1) (2 ^ j) = cur + ?c"
    using align_up_same [OF j64, of "heap_cur s1"] s1w N(2) by simp
  then have "b - 32 = cur + ?c" "a - 32 = cur" using M(1) e(2) N(1,4) by simp_all
  then show "unat (b - 32) = unat (a - 32) + unat (slab_classes ! k)" using uc by simp
  show "unat a = unat (a - 32) + 32"
    unfolding N(1) using al(2) nw by (simp add: unat_add_no_wrap)
  show "unat sz + 24 \<le> unat ?c" using pick_slab_class_SomeD [OF sz] nw by linarith
qed

text \<open>Releasing a block of class \<open>k\<close> and allocating from that class again gives the block back, with
  the old head of the list in place of its class index.\<close>

lemma slab_reuse:
  assumes ok: "heap_ok s (W1 @ (b, m) # W2)" and en: "frees_enabled s" and e: "free_large s = 0"
    and k: "word0 s b = of_nat k" "k < 8"
    and sz: "sz \<noteq> 0" "pick_slab_class sz (if al = 0 then 8 else al) = Some k"
  obtains s1 s2 where "kfree (b + 32) s = Ret s1" "free_lists s1 = (free_lists s)[k := b]"
    "kalloc root sz al s1 = Ret (b + 32, s2)" "free_lists s2 = free_lists s" "free_large s2 = 0"
    "frees_enabled s2" "word0 s2 b = free_lists s ! k" "b + 32 \<noteq> 0" "is_canonical b"
    "free_lists s ! k \<noteq> 0 \<Longrightarrow> free_lists s ! k \<noteq> LARGE_CLASS \<and> \<not> free_lists s ! k < 8"
proof -
  from heap_ok_split [OF ok] obtain F G L1 L2 n where inv: "heap_inv s F G (L1 @ (b, n) # L2)" .
  have ib: "inside s (unat b, n)" using heap_invD(7) [OF inv, of "(unat b, n)"] by (simp add: blocks_def lext_def)
  note okb = inside_okp [OF ib]
  have b0: "b \<noteq> 0" using okb by (simp add: okp_def)
  have uk: "unat (of_nat k :: u64) = k" using k(2) by (simp add: unat_of_nat_small)
  have kk: "word0 s b < 8" "word0 s b \<noteq> LARGE_CLASS" "unat (word0 s b) = k"
    using k uk by (auto simp: word_less_nat_alt LARGE_CLASS_def word_eq_unat)
  define s1 where "s1 = (set_word0 b (free_lists s ! k) s)\<lparr>free_lists := (free_lists s)[k := b], total_frees := total_frees s + 1\<rparr>"
  have f: "kfree (b + 32) s = Ret s1" using kfree_unfold [OF inv] en kk by (simp add: s1_def)
  have w1: "word0 s1 b = free_lists s ! k"
    using set_word0_at(1) [OF okb okb, of "free_lists s ! k" s] by (simp add: s1_def word0_def)
  have s1: "free_lists s1 = (free_lists s)[k := b]" "free_large s1 = 0" "frees_enabled s1"
    using e en by (simp_all add: s1_def set_word0_def)
  have l: "length (free_lists s) = 8" by (rule heap_invD(1) [OF inv])
  define s2 where "s2 = s1\<lparr>free_lists := (free_lists s1)[k := word0 s1 b], total_allocs := total_allocs s1 + 1,
        slab_reuses := (slab_reuses s1)[k := slab_reuses s1 ! k + 1]\<rparr>"
  have a: "kalloc root sz al s1 = Ret (b + 32, s2)"
    using kalloc_class [OF sz(1) s1(2) sz(2)] b0 k(2) l
    by (simp add: alloc_slab_def s1(1) HEAP_PAYLOAD_OFFSET_def Let_def s2_def)
  have "free_lists s2 = free_lists s" using s1(1) w1 by (simp add: s2_def)
  moreover have "word0 s2 b = free_lists s ! k" using w1 by (simp add: s2_def word0_def)
  moreover have "free_large s2 = 0" "frees_enabled s2" using s1 by (simp_all add: s2_def)
  moreover have "unat (b + 32) = unat b + 32"
    using ib unat_lt_64 [of "heap_cur s"] by (subst unat_add_no_wrap) (simp_all add: inside_def)
  then have "b + 32 \<noteq> 0" by (metis add_eq_0_iff_both_eq_0 unat_0 zero_neq_numeral)
  moreover have "free_lists s ! k \<noteq> LARGE_CLASS \<and> \<not> free_lists s ! k < 8" if "free_lists s ! k \<noteq> 0"
  proof -
    have "free_lists s ! k \<in> set (F ! k)"
      using heap_invD(3) [OF inv k(2)] that by (cases "F ! k") (auto simp: ptr_def)
    from not_class_word [OF slab_member(1,2) [OF inv k(2) this]] show ?thesis .
  qed
  ultimately show thesis
    using that [OF f s1(1) a] canonical_high [OF inside_base [OF ib]] by blast
qed

section \<open>Correctness of the heap\<close>

text \<open>A state as \<open>kheap_init\<close> leaves it, with a mapped page and releases enabled.\<close>

definition heap_demo :: kheap where
  "heap_demo = (kheap_start pmm_demo)\<lparr>heap_cur := HEAP_BASE + 4096, heap_end := HEAP_BASE + 8192,
     heap_ready := True, frees_enabled := True\<rparr>"

definition heap_demo1 :: kheap where "heap_demo1 = snd (the (ret_val (kalloc 0 96 8 heap_demo)))"

definition run_fst :: "('a \<times> 'b) run \<Rightarrow> 'a option" where "run_fst r = map_option fst (ret_val r)"

lemma heap_demo_ok: "heap_ok heap_demo []"
  by (rule heap_ok_start) (simp_all add: heap_demo_def kheap_start_def HEAP_BASE_def)

lemma heap_demo_req: "req_ok heap_demo 96 8"
  unfolding req_ok_def by (intro conjI exI [of _ 4])
    (simp_all add: req_align_of_def heap_demo_def kheap_start_def HEAP_BASE_def)

lemma heap_demo_fits: "payload_fits 96 8" by code_simp

lemma heap_demo_alloc: "kalloc 0 96 8 heap_demo = Ret (0xFFFF900000001020, heap_demo1)"
proof -
  have "run_fst (kalloc 0 96 8 heap_demo) = Some 0xFFFF900000001020" by code_simp
  then show ?thesis unfolding heap_demo1_def by (cases "kalloc 0 96 8 heap_demo") (auto simp: run_fst_def)
qed

lemma heap_demo1_ok: "heap_ok heap_demo1 ([] @ (0xFFFF900000001000, 128) # [])"
  using heap_ok_kalloc [OF heap_demo_ok heap_demo_req heap_demo_fits, of 0] by (simp add: heap_demo_alloc)

text \<open>(C1) An allocation returns a block, the 32 bytes of the header area and all bytes of the payload,
  that overlaps none of the blocks handed out before and lies in the mapped part of the heap; it
  keeps the heap consistent for all of them and changes none of their bytes. Or the kernel panics
  because the machine is out of pages or a page cannot be mapped; it never loops forever. The
  request has a nonzero size, a power of two as alignment, and size, alignment and \<open>heap_cur\<close> stay
  20000 bytes away from the end of the address space; its size class, if it has one, has room for
  32 bytes more than the size. The code gives the requests for 24 to 31 bytes less than a class a
  block that is too short.\<close>

theorem kalloc_fresh_block:
  assumes "heap_ok s W" "req_ok s sz al" "payload_fits sz al"
  shows "case kalloc root sz al s of
      Ret (p, s') \<Rightarrow> heap_ok s' ((p - 32, 32 + unat sz) # W) \<and> bytes_kept s s' W \<and>
        unat HEAP_BASE + 4096 \<le> unat (p - 32) \<and> unat (p - 32) + 32 + unat sz \<le> unat (heap_end s') \<and>
        (\<forall>(b, m)\<in>set W. unat (p - 32) + 32 + unat sz \<le> unat b \<or> unat b + m \<le> unat (p - 32))
    | Panic _ _ \<Rightarrow> True
    | Hang \<Rightarrow> False"
  using heap_ok_kalloc [OF assms, of root]
proof (elim disjE exE conjE)
  fix p s' assume k: "kalloc root sz al s = Ret (p, s')" and ok: "heap_ok s' ((p - 32, 32 + unat sz) # W)"
    and kept: "bytes_kept s s' W"
  have "\<forall>(b, m)\<in>set W. unat (p - 32) + 32 + unat sz \<le> unat b \<or> unat b + m \<le> unat (p - 32)"
    using heap_ok_facts(1) [OF ok] by (auto simp: lext_def dj_def)
  then show ?thesis
    using k ok kept heap_ok_facts(2) [OF ok, of "p - 32" "32 + unat sz"] by simp
qed simp

theorem kalloc_fresh_block_witness:
  "heap_ok heap_demo [] \<and> req_ok heap_demo 96 8 \<and> payload_fits 96 8 \<and>
   heap_ok heap_demo1 [(0xFFFF900000001000, 128)]"
  using kalloc_fresh_block [OF heap_demo_ok heap_demo_req heap_demo_fits, of 0] heap_demo_ok heap_demo_req
    heap_demo_fits
  by (simp add: heap_demo_alloc)

text \<open>(C21) Releasing a block handed out always returns. The blocks still handed out stay as they are:
  the heap is consistent for them and none of their bytes changes. The block itself is given back,
  by the first word of its header: a block of the large kind is then inside a block of the large
  list, whose bytes grow by exactly its size; a block with a class index is the new head of the list
  of that class and links to the old head. With any other word there, or before releases are
  enabled, nothing changes.\<close>

theorem kfree_keeps_heap:
  assumes "heap_ok s (W1 @ (b, m) # W2)"
  shows "\<exists>s'. kfree (b + 32) s = Ret s' \<and> heap_ok s' (W1 @ W2) \<and> bytes_kept s s' (W1 @ W2) \<and>
    (if \<not> frees_enabled s then s' = s
     else if word0 s b = LARGE_CLASS
     then (\<exists>G G'. large_ok s G \<and> large_ok s' G' \<and>
            (\<exists>g\<in>set G'. unat g \<le> unat b \<and>
               unat b + unat (size_at s b) \<le> unat g + unat (size_at s' g)) \<and>
            (\<Sum>g\<leftarrow>G'. unat (size_at s' g)) = unat (size_at s b) + (\<Sum>g\<leftarrow>G. unat (size_at s g))) \<and>
          free_lists s' = free_lists s \<and> total_frees s' = total_frees s + 1
     else if word0 s b < 8
     then free_lists s' = (free_lists s)[unat (word0 s b) := b] \<and>
          word0 s' b = free_lists s ! unat (word0 s b) \<and>
          free_large s' = free_large s \<and> total_frees s' = total_frees s + 1
     else s' = s)"
  using heap_ok_kfree [OF assms] unfolding released_def covered_def Let_def .

theorem kfree_keeps_heap_witness:
  "\<exists>s'. kfree (0xFFFF900000001000 + 32) heap_demo1 = Ret s' \<and> heap_ok s' [] \<and>
     free_lists s' ! 1 = 0xFFFF900000001000"
proof -
  have "word0 heap_demo1 0xFFFF900000001000 = 1" "frees_enabled heap_demo1" "length (free_lists heap_demo1) = 8"
    by code_simp+
  with kfree_keeps_heap [OF heap_demo1_ok] show ?thesis by (auto simp: LARGE_CLASS_def)
qed

text \<open>(C5) After any sequence of allocations, releases and writes of owners to any byte of their
  payloads, all blocks handed out, header area and payload, are pairwise disjoint and lie in the
  mapped heap. The allocations are those with a nonzero size, a power of two as alignment, no
  wrap-around at the end of the address space, and a size class, if any, with room for 32 bytes
  more than the size.\<close>

theorem heap_reachable_disjoint:
  assumes "heap_ok s0 W0" "(heap_step root)\<^sup>*\<^sup>* (s0, W0) (s, W)"
  shows "(\<forall>i<length W. \<forall>j<length W. i \<noteq> j \<longrightarrow>
      unat (fst (W ! i)) + snd (W ! i) \<le> unat (fst (W ! j)) \<or>
      unat (fst (W ! j)) + snd (W ! j) \<le> unat (fst (W ! i))) \<and>
    (\<forall>(b, m)\<in>set W. unat HEAP_BASE + 4096 \<le> unat b \<and> unat b + m \<le> unat (heap_end s))"
proof -
  have ok: "heap_ok s W" using heap_steps_ok [OF assms(2)] assms(1) by simp
  have "sorted_wrt dj (map lext W)" using heap_ok_facts(1) [OF ok] by (simp add: apart_def)
  then have d: "i < j \<Longrightarrow> j < length W \<Longrightarrow> dj (lext (W ! i)) (lext (W ! j))" for i j
    by (simp add: sorted_wrt_iff_nth_less)
  have "dj (lext (W ! i)) (lext (W ! j))" if "i < length W" "j < length W" "i \<noteq> j" for i j
    using d [of i j] d [of j i] that dj_sym by (metis nat_neq_iff)
  then show ?thesis using heap_ok_facts(2) [OF ok] by (auto simp: dj_def lext_def)
qed

theorem heap_reachable_disjoint_witness:
  "heap_step 0 (heap_demo, []) (heap_demo1, [(0xFFFF900000001000, 128)]) \<and>
   unat (heap_end heap_demo1) \<ge> unat (0xFFFF900000001000 :: u64) + 128"
proof
  show st: "heap_step 0 (heap_demo, []) (heap_demo1, [(0xFFFF900000001000, 128)])"
    by (rule heap_step.alloc [OF heap_demo_req heap_demo_fits heap_demo_alloc]) simp
  from heap_reachable_disjoint [OF heap_demo_ok r_into_rtranclp [of "heap_step 0", OF st]]
  show "unat (heap_end heap_demo1) \<ge> unat (0xFFFF900000001000 :: u64) + 128" by simp
qed

text \<open>(C29) A slab block can be too small for its payload: the class is chosen with the 24 byte header
  size, but the payload starts 32 bytes into the block. Whenever a class has less than 32 bytes more
  than the request, two allocations in a row from the end of the heap give overlapping blocks: the
  second block starts inside the payload of the first, whose last bytes (at most eight) are the
  class index in the header of the second.\<close>

theorem slab_payload_overflow:
  assumes "pick_slab_class sz (if al = 0 then 8 else al) = Some k"
    "unat (slab_classes ! k) < unat sz + 32"
    "req_ok s sz al" "req_ok s1 sz al" "free_large s = 0" "free_lists s ! k = 0"
    "kalloc root sz al s = Ret (a, s1)" "kalloc root sz al s1 = Ret (b, s2)"
  shows "unat a \<le> unat (b - 32) \<and> unat (b - 32) < unat a + unat sz \<and>
    unat a + unat sz \<le> unat (b - 32) + 8"
proof -
  note T = two_slab_blocks [OF assms(1,3-8)]
  have "32 \<le> unat (slab_classes ! k)" using T(3) pick_slab_class_SomeD [OF assms(1)] slab_classes_bounds [of k]
      assms(3) by (auto simp: req_ok_def)
  then show ?thesis using T assms(2) by linarith
qed

theorem slab_payload_overflow_witness:
  "\<exists>a s1 b s2. kalloc 0 40 8 heap_demo = Ret (a, s1) \<and> kalloc 0 40 8 s1 = Ret (b, s2) \<and>
     unat (b - 32) < unat a + 40"
proof -
  define r where "r = kalloc 0 40 8 heap_demo"
  define s1 where "s1 = snd (the (ret_val r))"
  define r2 where "r2 = kalloc 0 40 8 s1"
  have 1: "run_fst r = Some 0xFFFF900000001020" unfolding r_def by code_simp
  have 2: "run_fst r2 = Some 0xFFFF900000001060" unfolding r2_def s1_def r_def by code_simp
  have c: "heap_cur s1 = 0xFFFF900000001040" unfolding s1_def r_def by code_simp
  have r: "kalloc 0 40 8 heap_demo = Ret (0xFFFF900000001020, s1)"
    using 1 by (cases r) (auto simp: run_fst_def s1_def r_def)
  have r2: "kalloc 0 40 8 s1 = Ret (0xFFFF900000001060, snd (the (ret_val r2)))"
    using 2 by (cases r2) (auto simp: run_fst_def r2_def)
  have q: "req_ok heap_demo 40 8" "req_ok s1 40 8"
    unfolding req_ok_def by (intro conjI exI [of _ 4];
      simp add: req_align_of_def c heap_demo_def kheap_start_def HEAP_BASE_def)+
  have p: "pick_slab_class 40 (if (8 :: u64) = 0 then 8 else 8) = Some 0" by code_simp
  have e: "free_large heap_demo = 0" "free_lists heap_demo ! 0 = 0"
    by (simp_all add: heap_demo_def kheap_start_def)
  from slab_payload_overflow [OF p _ q e r r2] r r2 show ?thesis by (auto simp: slab_classes_def)
qed

text \<open>(C30) Reusing a slab block does not write its header again, so its class index is the list pointer
  left in it: a block of class \<open>k\<close> that is released, allocated again and released again does not
  come back to the list of its class. If that list was empty otherwise, the block ends on the list
  of the smallest class; if not, it ends on no list and is lost.\<close>

theorem slab_reuse_loses_class:
  assumes "heap_ok s (W1 @ (b, m) # W2)" "frees_enabled s" "free_large s = 0"
    "word0 s b = of_nat k" "k < 8"
    "sz \<noteq> 0" "pick_slab_class sz (if al = 0 then 8 else al) = Some k"
  shows "\<exists>s1 s2 s3. kfree (b + 32) s = Ret s1 \<and> free_lists s1 = (free_lists s)[k := b] \<and>
    kalloc root sz al s1 = Ret (b + 32, s2) \<and> free_lists s2 = free_lists s \<and>
    kfree (b + 32) s2 = Ret s3 \<and> free_large s3 = 0 \<and>
    free_lists s3 = (if free_lists s ! k = 0 then (free_lists s)[0 := b] else free_lists s)"
proof -
  obtain s1 s2 where R: "kfree (b + 32) s = Ret s1" "free_lists s1 = (free_lists s)[k := b]"
    "kalloc root sz al s1 = Ret (b + 32, s2)" "free_lists s2 = free_lists s" "free_large s2 = 0"
    "frees_enabled s2" "word0 s2 b = free_lists s ! k" "b + 32 \<noteq> 0" "is_canonical b"
    "free_lists s ! k \<noteq> 0 \<Longrightarrow> free_lists s ! k \<noteq> LARGE_CLASS \<and> \<not> free_lists s ! k < 8"
    by (rule slab_reuse [OF assms]) blast
  have K: "kfree (b + 32) s2 = Ret (if free_lists s ! k = 0 then (set_word0 b (free_lists s ! 0) s2)
      \<lparr>free_lists := (free_lists s)[0 := b], total_frees := total_frees s2 + 1\<rparr> else s2)"
    using R(4-10) by (simp add: kfree_def Let_def HEAP_PAYLOAD_OFFSET_def slab_count_def slab_classes_def
        set_word0_def LARGE_CLASS_def not_less)
  show ?thesis
  proof (intro exI conjI)
    show "kfree (b + 32) s = Ret s1" "kalloc root sz al s1 = Ret (b + 32, s2)" by (rule R)+
    show "kfree (b + 32) s2 = Ret (if free_lists s ! k = 0 then (set_word0 b (free_lists s ! 0) s2)
      \<lparr>free_lists := (free_lists s)[0 := b], total_frees := total_frees s2 + 1\<rparr> else s2)" by (rule K)
  qed (use R in \<open>simp_all add: set_word0_def\<close>)
qed

theorem slab_reuse_loses_class_witness:
  "\<exists>s1 s2 s3. kfree (0xFFFF900000001000 + 32) heap_demo1 = Ret s1 \<and>
     kalloc 0 96 8 s1 = Ret (0xFFFF900000001000 + 32, s2) \<and>
     kfree (0xFFFF900000001000 + 32) s2 = Ret s3 \<and>
     free_lists s3 = [0xFFFF900000001000, 0, 0, 0, 0, 0, 0, 0]"
proof -
  have d: "frees_enabled heap_demo1" "free_large heap_demo1 = 0"
    "word0 heap_demo1 0xFFFF900000001000 = of_nat 1"
    "pick_slab_class 96 (if (8 :: u64) = 0 then 8 else 8) = Some 1" by code_simp+
  have f: "free_lists heap_demo1 = [0, 0, 0, 0, 0, 0, 0, 0]" by code_simp
  from slab_reuse_loses_class [OF heap_demo1_ok d(1-3) _ _ d(4), of 0] show ?thesis by (auto simp: f)
qed

text \<open>(C28) Putting a block on the large list keeps the list sorted by address and its blocks disjoint,
  merges the block with both neighbours (no block of the list ends where another one starts), and
  conserves the number of free bytes.\<close>

theorem insert_large_node_coalesces:
  assumes "large_ok s G" "no_touch s G" "okext s node" "is_canonical node"
    "apart (map (ext s) (node # G))"
  shows "\<exists>s' G'. insert_large_node node s = Ret s' \<and> large_ok s' G' \<and> no_touch s' G' \<and>
    (\<Sum>g\<leftarrow>G'. unat (size_at s' g)) = unat (size_at s node) + (\<Sum>g\<leftarrow>G. unat (size_at s g))"
proof -
  obtain s' G' where "insert_large_node node s = Ret s'" "large_ok s' G'" "no_touch s' G'"
    and st: "step_ok s (node # G) s' G'"
    by (rule insert_large_node_spec [OF assms])
  moreover have "(\<Sum>g\<leftarrow>G'. unat (size_at s' g)) = (\<Sum>g\<leftarrow>node # G. unat (size_at s g))"
    using st unfolding step_ok_def by simp
  ultimately show ?thesis by auto
qed

definition heap_demo2 :: kheap where "heap_demo2 = set_size 0xFFFF900000001000 128 heap_demo"

theorem insert_large_node_coalesces_witness:
  "\<exists>s' G'. insert_large_node 0xFFFF900000001000 heap_demo2 = Ret s' \<and> large_ok s' G' \<and> no_touch s' G' \<and>
    (\<Sum>g\<leftarrow>G'. unat (size_at s' g)) = 128"
proof -
  have sz: "size_at heap_demo2 0xFFFF900000001000 = 128" by code_simp
  have l: "large_ok heap_demo2 []" "no_touch heap_demo2 []"
    by (simp_all add: large_ok_def no_touch_def ptr_def heap_demo2_def set_size_def heap_demo_def kheap_start_def)
  have o: "okext heap_demo2 0xFFFF900000001000" "is_canonical 0xFFFF900000001000"
    using sz by (simp_all add: okext_def) code_simp
  from insert_large_node_coalesces [OF l o] show ?thesis by (simp add: sz)
qed

text \<open>Initialising the heap leaves it consistent, empty and ready, or panics; it never hangs.\<close>

theorem kheap_init_establishes:
  "case kheap_init root (kheap_start p) of
     Ret s \<Rightarrow> heap_ok s [] \<and> kheap_is_ready s = 1 \<and> heap_end s = HEAP_BASE + 8192
   | Panic _ _ \<Rightarrow> True
   | Hang \<Rightarrow> False"
proof (cases "map_next_page root ((kheap_start p)\<lparr>heap_cur := HEAP_BASE + 4096, heap_end := HEAP_BASE + 4096\<rparr>)")
  case (Ret s1)
  from map_next_page_ret [OF this] obtain p' where
    s1: "s1 = ((kheap_start p)\<lparr>heap_cur := HEAP_BASE + 4096, heap_end := HEAP_BASE + 4096\<rparr>)
      \<lparr>hpmm := p', heap_end := HEAP_BASE + 4096 + 4096\<rparr>" by auto
  have "heap_ok (s1\<lparr>heap_ready := True\<rparr>) []"
    by (rule heap_ok_start) (simp_all add: s1 kheap_start_def HEAP_BASE_def)
  then show ?thesis using Ret by (simp add: kheap_init_def kheap_is_ready_def s1 HEAP_BASE_def)
next
  case (Panic m c)
  then show ?thesis by (simp add: kheap_init_def)
qed (use map_next_page_no_hang in simp)

end
