(* ===== verification/Kernel_Base.thy ===== *)
theory Kernel_Base
  imports Neptune_Prelude
begin

text \<open>
  What the file system and system call components share: the error codes of kernel/syscall.h, the
  C string helpers every file carries a copy of (a C string is the list of its characters before
  the terminating NUL), and the loop that writes a list of lines into a bounded buffer.
\<close>

section \<open>Error codes\<close>

definition SYSCALL_OK :: int where "SYSCALL_OK = 0"
definition SYSCALL_EINVAL :: int where "SYSCALL_EINVAL = 1"
definition SYSCALL_ENOENT :: int where "SYSCALL_ENOENT = 2"
definition SYSCALL_EBADF :: int where "SYSCALL_EBADF = 3"
definition SYSCALL_E2BIG :: int where "SYSCALL_E2BIG = 4"
definition SYSCALL_ENOMEM :: int where "SYSCALL_ENOMEM = 5"
definition SYSCALL_EIO :: int where "SYSCALL_EIO = 6"
definition SYSCALL_ERANGE :: int where "SYSCALL_ERANGE = 7"

named_theorems errno_defs \<open>the values of the error codes\<close>

declare SYSCALL_OK_def [errno_defs] SYSCALL_EINVAL_def [errno_defs] SYSCALL_ENOENT_def [errno_defs]
  SYSCALL_EBADF_def [errno_defs] SYSCALL_E2BIG_def [errno_defs] SYSCALL_ENOMEM_def [errno_defs]
  SYSCALL_EIO_def [errno_defs] SYSCALL_ERANGE_def [errno_defs]

section \<open>Strings\<close>

fun str_len :: "string \<Rightarrow> nat" where
  "str_len [] = 0"
| "str_len (c # s) = Suc (str_len s)"

fun streq :: "string \<Rightarrow> string \<Rightarrow> bool" where
  "streq (a # as) (b # bs) = (if a \<noteq> b then False else streq as bs)"
| "streq [] [] = True"
| "streq [] (b # bs) = False"
| "streq (a # as) [] = False"

fun starts_with :: "string \<Rightarrow> string \<Rightarrow> bool" where
  "starts_with s [] = True"
| "starts_with [] (p # ps) = False"
| "starts_with (c # s) (p # ps) = (if c \<noteq> p then False else starts_with s ps)"

lemma str_len_length [simp]: "str_len s = length s"
  by (induction s) auto

lemma streq_eq [simp]: "streq a b \<longleftrightarrow> a = b"
  by (induction a b rule: streq.induct) auto

lemma starts_with_append: "starts_with s p \<longleftrightarrow> (\<exists>r. s = p @ r)"
  by (induction s p rule: starts_with.induct) auto

section \<open>Lists of lines in a bounded buffer\<close>

text \<open>The result says what is in the buffer and whether the writer returned early.\<close>

fun emit :: "nat \<Rightarrow> string \<Rightarrow> string \<Rightarrow> string \<times> bool" where
  "emit len out [] = (out, False)"
| "emit len out (c # cs) = (if length out + 1 \<ge> len then (out, True) else emit len (out @ [c]) cs)"

fun emit_lines :: "nat \<Rightarrow> string \<Rightarrow> string list \<Rightarrow> string" where
  "emit_lines len out [] = out"
| "emit_lines len out (p # ps) =
     (case emit len out (p @ [CHR 0x0A]) of
        (out', True) \<Rightarrow> out'
      | (out', False) \<Rightarrow> emit_lines len out' ps)"

lemma emit_spec:
  "length out \<le> len - 1 \<Longrightarrow> emit len out cs =
     (take (len - 1) (out @ cs), \<not> length (out @ cs) \<le> len - 1)"
  by (induction len out cs rule: emit.induct) auto

text \<open>The buffer receives the longest prefix of all lines that leaves room for one more byte.\<close>

lemma emit_lines_spec:
  "length out \<le> len - 1 \<Longrightarrow>
     emit_lines len out ps = take (len - 1) (out @ concat (map (\<lambda>p. p @ [CHR 0x0A]) ps))"
proof (induction ps arbitrary: out)
  case (Cons p ps)
  show ?case
  proof (cases "length (out @ p @ [CHR 0x0A]) \<le> len - 1")
    case True
    then have "emit len out (p @ [CHR 0x0A]) = (out @ p @ [CHR 0x0A], False)"
      using emit_spec [OF Cons.prems, of "p @ [CHR 0x0A]"] by simp
    with Cons.IH [of "out @ p @ [CHR 0x0A]"] True show ?thesis by simp
  next
    case False
    then have "emit len out (p @ [CHR 0x0A]) = (take (len - 1) (out @ p @ [CHR 0x0A]), True)"
      using emit_spec [OF Cons.prems, of "p @ [CHR 0x0A]"] by simp
    with False show ?thesis by simp
  qed
qed simp

end
