(* ===== verification/Pipe.thy ===== *)
theory Pipe
  imports Kernel_Base
begin

text \<open>
  Pipes, kernel/pipe.c: a ring buffer with reader and writer counts. A call to \<open>pipe_read_impl\<close> or
  \<open>pipe_write_impl\<close> holds the lock of the pipe, and gives it up only to yield while it waits; so a
  call is a sequence of locked sections, and the calls of several threads interleave section by
  section. The pipe and buffer that the code checks for null are arguments here, since the callers in kernel/vfs.c
  pass neither as null. The counts of open ends are integers: each is the number of file
  objects of that end (\<open>vfs_pipe_ends\<close> in \<open>Vfs\<close>), which does not reach the width of an int.
\<close>

section \<open>State\<close>

definition PIPE_SIZE :: u32 where "PIPE_SIZE = 4096"

record pipe =
  pbuf :: "u8 list"
  read_pos :: u32
  write_pos :: u32
  used :: u32
  readers :: int
  writers :: int

text \<open>\<open>mem\<close> says whether \<open>kalloc_zero\<close> delivers memory.\<close>

definition pipe_alloc_struct :: "bool \<Rightarrow> pipe option" where
  "pipe_alloc_struct mem =
     (if mem then Some \<lparr>pbuf = replicate 4096 0, read_pos = 0, write_pos = 0, used = 0, readers = 1, writers = 1\<rparr>
      else None)"

section \<open>The copy loops\<close>

text \<open>The first argument is \<open>len - read\<close>, resp. the bytes from \<open>in[written]\<close> on.\<close>

fun pipe_drain :: "nat \<Rightarrow> pipe \<Rightarrow> u8 list \<times> pipe" where
  "pipe_drain 0 p = ([], p)"
| "pipe_drain (Suc n) p =
     (if used p > 0
      then (let out = pbuf p ! unat (read_pos p);
                (rest, p') = pipe_drain n (p\<lparr>read_pos := (read_pos p + 1) mod PIPE_SIZE, used := used p - 1\<rparr>)
            in (out # rest, p'))
      else ([], p))"

fun pipe_fill :: "u8 list \<Rightarrow> pipe \<Rightarrow> nat \<times> pipe" where
  "pipe_fill [] p = (0, p)"
| "pipe_fill (b # bs) p =
     (if used p < PIPE_SIZE
      then (let (n, p') = pipe_fill bs (p\<lparr>pbuf := (pbuf p)[unat (write_pos p) := b],
                  write_pos := (write_pos p + 1) mod PIPE_SIZE, used := used p + 1\<rparr>)
            in (Suc n, p'))
      else (0, p))"

section \<open>Calls as sequences of locked sections\<close>

datatype pipe_call =
    Read_call u64
  | Write_start "u8 list"
  | Write_call "u8 list" nat
  | Done int "u8 list"

text \<open>One section of \<open>pipe_read_impl\<close>: from taking the lock to releasing it, either to return or to
  yield and try again.\<close>

definition pipe_read_impl :: "u64 \<Rightarrow> pipe \<Rightarrow> pipe_call \<times> pipe" where
  "pipe_read_impl len p =
     (if used p = 0
      then (if writers p = 0 then (Done 0 [], p) else (Read_call len, p))
      else (let (out, p') = pipe_drain (unat len) p in (Done (int (length out)) out, p')))"

text \<open>One section of the loop of \<open>pipe_write_impl\<close>, and the first section with the check for a
  broken pipe.\<close>

definition pipe_write_loop :: "u8 list \<Rightarrow> nat \<Rightarrow> pipe \<Rightarrow> pipe_call \<times> pipe" where
  "pipe_write_loop data written p =
     (let (n, p') = pipe_fill (drop written data) p; written' = written + n
      in if written' \<ge> length data then (Done (int written') [], p')
         else if readers p' = 0 then (Done (- SYSCALL_EIO) [], p')
         else (Write_call data written', p'))"

definition pipe_write_impl :: "u8 list \<Rightarrow> pipe \<Rightarrow> pipe_call \<times> pipe" where
  "pipe_write_impl data p =
     (if readers p = 0 then (Done (- SYSCALL_EIO) [], p) else pipe_write_loop data 0 p)"

text \<open>Closing one end; the result says whether the pipe is freed.\<close>

definition pipe_close_impl :: "bool \<Rightarrow> pipe \<Rightarrow> pipe \<times> bool" where
  "pipe_close_impl is_writer p =
     (let p' = (if is_writer then p\<lparr>writers := writers p - 1\<rparr> else p\<lparr>readers := readers p - 1\<rparr>)
      in (p', readers p' = 0 \<and> writers p' = 0))"

fun pipe_section :: "pipe_call \<Rightarrow> pipe \<Rightarrow> pipe_call \<times> pipe" where
  "pipe_section (Read_call len) p = pipe_read_impl len p"
| "pipe_section (Write_start data) p = pipe_write_impl data p"
| "pipe_section (Write_call data w) p = pipe_write_loop data w p"
| "pipe_section (Done r out) p = (Done r out, p)"

section \<open>The ring as a queue\<close>

definition pipe_inv :: "pipe \<Rightarrow> bool" where
  "pipe_inv p \<longleftrightarrow> length (pbuf p) = 4096 \<and> unat (read_pos p) < 4096 \<and> unat (used p) \<le> 4096 \<and>
     unat (write_pos p) = (unat (read_pos p) + unat (used p)) mod 4096"

definition pipe_abs :: "pipe \<Rightarrow> u8 list" where
  "pipe_abs p = map (\<lambda>i. pbuf p ! ((unat (read_pos p) + i) mod 4096)) [0..<unat (used p)]"

lemma unat_mod_size: "unat (x mod PIPE_SIZE) = unat x mod 4096"
  by (simp add: unat_mod PIPE_SIZE_def)

lemma unat_incr_pos: "unat x < 4096 \<Longrightarrow> unat ((x + 1) mod PIPE_SIZE) = (unat x + 1) mod 4096" for x :: u32
  by (simp add: unat_mod_size unat_add_no_wrap)

lemma length_pipe_abs [simp]: "length (pipe_abs p) = unat (used p)"
  by (simp add: pipe_abs_def)

text \<open>Taking one byte out.\<close>

lemma pipe_pop:
  assumes inv: "pipe_inv p" and u: "used p > 0"
  defines "p' \<equiv> p\<lparr>read_pos := (read_pos p + 1) mod PIPE_SIZE, used := used p - 1\<rparr>"
  shows "pipe_inv p'" "pipe_abs p = pbuf p ! unat (read_pos p) # pipe_abs p'"
proof -
  from u obtain k where k: "unat (used p) = Suc k" by (metis unat_gt_0 gr0_implies_Suc word_neq_0_conv)
  have uk: "unat (used p - 1) = k" using k u by (simp add: unat_sub_no_wrap word_le_nat_alt)
  have r: "unat (read_pos p') = (unat (read_pos p) + 1) mod 4096"
    using inv by (simp add: p'_def pipe_inv_def unat_incr_pos)
  show "pipe_inv p'"
    using inv k uk r by (simp add: pipe_inv_def p'_def mod_simps)
  have "pipe_abs p = pbuf p ! unat (read_pos p) # map (\<lambda>i. pbuf p ! ((unat (read_pos p) + Suc i) mod 4096)) [0..<k]"
    using inv unfolding pipe_abs_def k by (simp add: upt_conv_Cons map_Suc_upt [symmetric] pipe_inv_def del: upt_Suc)
  also have "map (\<lambda>i. pbuf p ! ((unat (read_pos p) + Suc i) mod 4096)) [0..<k] = pipe_abs p'"
    unfolding pipe_abs_def r by (simp add: p'_def uk mod_simps)
  finally show "pipe_abs p = pbuf p ! unat (read_pos p) # pipe_abs p'" .
qed

text \<open>Putting one byte in.\<close>

lemma pipe_push:
  fixes b :: u8
  assumes inv: "pipe_inv p" and u: "used p < PIPE_SIZE"
  defines "p' \<equiv> p\<lparr>pbuf := (pbuf p)[unat (write_pos p) := b], write_pos := (write_pos p + 1) mod PIPE_SIZE, used := used p + 1\<rparr>"
  shows "pipe_inv p'" "pipe_abs p' = pipe_abs p @ [b]"
proof -
  have k: "unat (used p) < 4096" using u by (simp add: word_less_nat_alt PIPE_SIZE_def)
  have uk: "unat (used p + 1) = Suc (unat (used p))" using k by (simp add: unat_add_no_wrap)
  have wl: "unat (write_pos p) < 4096" using inv by (simp add: pipe_inv_def)
  have w: "unat (write_pos p') = (unat (write_pos p) + 1) mod 4096"
    using wl by (simp add: p'_def unat_incr_pos)
  show "pipe_inv p'"
    using inv k uk w by (simp add: pipe_inv_def p'_def mod_simps)
  have ne: "(unat (read_pos p) + unat (used p)) mod 4096 \<noteq> (unat (read_pos p) + i) mod 4096" if "i < unat (used p)" for i
  proof
    assume "(unat (read_pos p) + unat (used p)) mod 4096 = (unat (read_pos p) + i) mod 4096"
    then have "unat (used p) mod 4096 = i mod 4096" by (simp add: nat_mod_eq_iff)
    then show False using that k by simp
  qed
  then show "pipe_abs p' = pipe_abs p @ [b]"
    using inv k by (auto simp: pipe_abs_def p'_def uk pipe_inv_def ne)
qed

lemma pipe_drain_spec:
  "pipe_inv p \<Longrightarrow> case pipe_drain n p of (out, p') \<Rightarrow> pipe_inv p' \<and> out = take n (pipe_abs p) \<and>
     pipe_abs p' = drop n (pipe_abs p) \<and> readers p' = readers p \<and> writers p' = writers p"
proof (induction n arbitrary: p)
  case (Suc n)
  show ?case
  proof (cases "used p > 0")
    case True
    let ?p' = "p\<lparr>read_pos := (read_pos p + 1) mod PIPE_SIZE, used := used p - 1\<rparr>"
    note pop = pipe_pop [OF Suc.prems True]
    from Suc.IH [OF pop(1)] show ?thesis using True pop(2) by (auto split: prod.splits)
  next
    case False
    then have "used p = 0" using word_neq_0_conv by blast
    then have "pipe_abs p = []" by (simp add: pipe_abs_def)
    with False Suc.prems show ?thesis by simp
  qed
qed simp

lemma pipe_fill_spec:
  "pipe_inv p \<Longrightarrow> case pipe_fill bs p of (n, p') \<Rightarrow> pipe_inv p' \<and>
     n = min (length bs) (4096 - length (pipe_abs p)) \<and> pipe_abs p' = pipe_abs p @ take n bs \<and>
     readers p' = readers p \<and> writers p' = writers p"
proof (induction bs arbitrary: p)
  case (Cons b bs)
  show ?case
  proof (cases "used p < PIPE_SIZE")
    case True
    let ?p' = "p\<lparr>pbuf := (pbuf p)[unat (write_pos p) := b], write_pos := (write_pos p + 1) mod PIPE_SIZE, used := used p + 1\<rparr>"
    note push = pipe_push [OF Cons.prems True, of b]
    have l: "length (pipe_abs ?p') = Suc (length (pipe_abs p))" unfolding push(2) by simp
    obtain n p' where f: "pipe_fill bs ?p' = (n, p')" by fastforce
    have "unat (used p) < 4096" using True by (simp add: word_less_nat_alt PIPE_SIZE_def)
    with Cons.IH [OF push(1)] f l push(2) True show ?thesis by (auto simp: min_def)
  next
    case False
    then have "unat (used p) = 4096"
      using Cons.prems by (simp add: word_less_nat_alt PIPE_SIZE_def pipe_inv_def)
    with False Cons.prems show ?thesis by simp
  qed
qed (simp add: pipe_inv_def)

lemma pipe_alloc_inv: "pipe_alloc_struct True = Some p \<Longrightarrow> pipe_inv p \<and> pipe_abs p = []"
  by (auto simp: pipe_alloc_struct_def pipe_inv_def pipe_abs_def)

section \<open>Interleaved calls\<close>

text \<open>What a section put into the pipe and took out of it, read off the call before and after: bytes
  a writer has written, bytes a reader returned.\<close>

fun delivered :: "pipe_call \<Rightarrow> u8 list" where
  "delivered (Done r out) = out"
| "delivered _ = []"

text \<open>The system: the pipe, the calls in progress, all bytes that entered the pipe and all bytes that
  were handed to readers, in this order. A step runs one locked section of one call.\<close>

record pipe_sys =
  the_pipe :: pipe
  calls :: "pipe_call list"
  sent :: "u8 list"
  received :: "u8 list"

definition accepted :: "pipe \<Rightarrow> pipe_call \<Rightarrow> u8 list" where
  "accepted p c =
     (case c of
        Write_start data \<Rightarrow> if readers p = 0 then [] else take (fst (pipe_fill data p)) data
      | Write_call data w \<Rightarrow> take (fst (pipe_fill (drop w data) p)) (drop w data)
      | _ \<Rightarrow> [])"

inductive pipe_step :: "pipe_sys \<Rightarrow> pipe_sys \<Rightarrow> bool" where
  run: "i < length (calls s) \<Longrightarrow> \<not> (\<exists>r out. calls s ! i = Done r out) \<Longrightarrow>
     pipe_section (calls s ! i) (the_pipe s) = (c', p') \<Longrightarrow>
     s' = s\<lparr>the_pipe := p', calls := (calls s)[i := c'],
            sent := sent s @ accepted (the_pipe s) (calls s ! i), received := received s @ delivered c'\<rparr> \<Longrightarrow>
     pipe_step s s'"
| enter: "\<not> (\<exists>r out. c = Done r out) \<Longrightarrow> c \<noteq> Write_call d w \<Longrightarrow> pipe_step s (s\<lparr>calls := calls s @ [c]\<rparr>)"
| close: "pipe_close_impl is_writer (the_pipe s) = (p', freed) \<Longrightarrow> pipe_step s (s\<lparr>the_pipe := p'\<rparr>)"

text \<open>One section moves bytes between the call and the queue and nothing else.\<close>

lemma pipe_section_spec:
  assumes inv: "pipe_inv p" and nd: "\<not> (\<exists>r out. c = Done r out)" and s: "pipe_section c p = (c', p')"
  shows "pipe_inv p' \<and> pipe_abs p @ accepted p c = delivered c' @ pipe_abs p'"
proof (cases c)
  case (Read_call len)
  show ?thesis
  proof (cases "used p = 0")
    case True
    then show ?thesis using s inv Read_call
      by (auto simp: pipe_read_impl_def accepted_def split: if_splits)
  next
    case False
    then show ?thesis using s pipe_drain_spec [OF inv, of "unat len"] Read_call
      by (auto simp: pipe_read_impl_def accepted_def split: prod.splits)
  qed
next
  case (Write_start data)
  then show ?thesis using s inv pipe_fill_spec [OF inv, of data]
    by (auto simp: pipe_write_impl_def pipe_write_loop_def accepted_def Let_def split: prod.splits if_splits)
next
  case (Write_call data w)
  then show ?thesis using s inv pipe_fill_spec [OF inv, of "drop w data"]
    by (auto simp: pipe_write_loop_def accepted_def Let_def split: prod.splits if_splits)
qed (use nd in auto)

lemma pipe_close_abs:
  "pipe_close_impl w p = (p', f) \<Longrightarrow> pipe_abs p' = pipe_abs p \<and> (pipe_inv p' \<longleftrightarrow> pipe_inv p)"
  by (auto simp: pipe_close_impl_def Let_def pipe_abs_def pipe_inv_def split: if_splits)

lemma pipe_step_fifo:
  assumes "pipe_step s s'" "pipe_inv (the_pipe s)" "sent s = received s @ pipe_abs (the_pipe s)"
  shows "pipe_inv (the_pipe s') \<and> sent s' = received s' @ pipe_abs (the_pipe s')"
  using assms
proof (induction rule: pipe_step.induct)
  case (run i s c' p' s')
  then show ?case using pipe_section_spec [of "the_pipe s" "calls s ! i" c' p'] by simp
next
  case (close w s p' f)
  then show ?case using pipe_close_abs by fastforce
qed simp

text \<open>(C3) First in, first out, without loss: however the locked sections of any number of readers
  and writers interleave, also with ends being closed, the bytes handed to readers so far followed by
  the bytes in the ring are exactly the bytes that writers put in, in the same order.\<close>

theorem pipe_fifo:
  assumes "pipe_alloc_struct True = Some p"
    "pipe_step\<^sup>*\<^sup>* \<lparr>the_pipe = p, calls = [], sent = [], received = []\<rparr> s"
  shows "sent s = received s @ pipe_abs (the_pipe s) \<and> length (pipe_abs (the_pipe s)) \<le> 4096"
proof -
  have "pipe_inv (the_pipe s) \<and> sent s = received s @ pipe_abs (the_pipe s)"
    using assms(2) by (induction rule: rtranclp_induct) (use pipe_alloc_inv [OF assms(1)] pipe_step_fifo in auto)
  then show ?thesis by (simp add: pipe_inv_def)
qed

theorem pipe_fifo_witness:
  "\<exists>p s. pipe_alloc_struct True = Some p \<and> calls s = [Done 2 []] \<and>
     pipe_step\<^sup>*\<^sup>* \<lparr>the_pipe = p, calls = [], sent = [], received = []\<rparr> s \<and> pipe_abs (the_pipe s) = [7, 8]"
proof -
  let ?p = "\<lparr>pbuf = replicate 4096 0, read_pos = 0, write_pos = 0, used = 0, readers = 1, writers = 1\<rparr> :: pipe"
  let ?s0 = "\<lparr>the_pipe = ?p, calls = [], sent = [], received = []\<rparr> :: pipe_sys"
  let ?s1 = "?s0\<lparr>calls := calls ?s0 @ [Write_start [7, 8]]\<rparr>"
  let ?s2 = "?s1\<lparr>the_pipe := snd (pipe_section (Write_start [7, 8]) ?p), calls := [Done 2 []], sent := [7, 8]\<rparr>"
  have a: "pipe_alloc_struct True = Some ?p" by (simp add: pipe_alloc_struct_def)
  have 1: "pipe_step ?s0 ?s1" by (rule pipe_step.enter) auto
  have 2: "pipe_step ?s1 ?s2"
    by (rule pipe_step.run [of 0]) (auto simp: PIPE_SIZE_def pipe_write_impl_def pipe_write_loop_def accepted_def Let_def)
  have 3: "pipe_step\<^sup>*\<^sup>* ?s0 ?s2" 
    by (rule rtranclp_trans [OF r_into_rtranclp [of pipe_step, OF 1] r_into_rtranclp [of pipe_step, OF 2]])
  have 4: "pipe_abs (the_pipe ?s2) = [7, 8]" using pipe_fifo [OF a 3] by simp
  show ?thesis
  proof (intro exI conjI)
    show "calls ?s2 = [Done 2 []]" by simp
  qed (rule a 3 4)+
qed

section \<open>Refinement of a bounded queue\<close>

text \<open>The contract of a pipe: a queue of at most 4096 bytes with the numbers of open ends.\<close>

definition queue_read :: "u64 \<Rightarrow> u8 list \<times> int \<times> int \<Rightarrow> pipe_call \<times> u8 list \<times> int \<times> int" where
  "queue_read len = (\<lambda>(q, r, w).
     if q = [] then (if w = 0 then Done 0 [] else Read_call len, q, r, w)
     else (Done (int (min (unat len) (length q))) (take (unat len) q), drop (unat len) q, r, w))"

definition queue_write :: "u8 list \<Rightarrow> nat \<Rightarrow> u8 list \<times> int \<times> int \<Rightarrow> pipe_call \<times> u8 list \<times> int \<times> int" where
  "queue_write data k = (\<lambda>(q, r, w).
     let n = min (length data - k) (4096 - length q)
     in (if length data \<le> k + n then Done (int (k + n)) []
         else if r = 0 then Done (- 6) [] else Write_call data (k + n),
         q @ take n (drop k data), r, w))"

fun queue_section :: "pipe_call \<Rightarrow> u8 list \<times> int \<times> int \<Rightarrow> pipe_call \<times> u8 list \<times> int \<times> int" where
  "queue_section (Read_call len) v = queue_read len v"
| "queue_section (Write_start data) v = (if fst (snd v) = 0 then (Done (- 6) [], v) else queue_write data 0 v)"
| "queue_section (Write_call data k) v = queue_write data k v"
| "queue_section (Done r out) v = (Done r out, v)"

definition pipe_view :: "pipe \<Rightarrow> u8 list \<times> int \<times> int" where
  "pipe_view p = (pipe_abs p, readers p, writers p)"

lemma pipe_abs_Nil_iff: "pipe_abs p = [] \<longleftrightarrow> used p = 0"
  by (auto simp: pipe_abs_def unat_eq_0)

lemma pipe_write_loop_view:
  "pipe_inv p \<Longrightarrow> map_prod id pipe_view (pipe_write_loop data k p) = queue_write data k (pipe_view p)"
  using pipe_fill_spec [of p "drop k data"]
  by (auto simp: pipe_write_loop_def queue_write_def pipe_view_def Let_def errno_defs split: prod.splits)

text \<open>(C22) Every locked section of the ring buffer implementation behaves like the bounded queue:
  reads take the oldest bytes, writes append as many bytes as fit, an empty pipe gives end of file
  when no writer is left and makes the reader wait otherwise, a full pipe makes the writer wait and
  fails when no reader is left.\<close>

theorem pipe_refines_queue:
  assumes "pipe_inv p"
  shows "map_prod id pipe_view (pipe_section c p) = queue_section c (pipe_view p) \<and>
    pipe_inv (snd (pipe_section c p))"
proof
  show "pipe_inv (snd (pipe_section c p))"
  proof (cases "\<exists>r out. c = Done r out")
    case True
    then show ?thesis using assms by auto
  next
    case False
    then show ?thesis using pipe_section_spec [OF assms False] by (metis prod.collapse)
  qed
  show "map_prod id pipe_view (pipe_section c p) = queue_section c (pipe_view p)"
  proof (cases c)
    case (Read_call len)
    then show ?thesis using pipe_drain_spec [OF assms, of "unat len"] pipe_abs_Nil_iff [of p]
      by (auto simp: pipe_read_impl_def queue_read_def pipe_view_def min_def split: prod.splits)
  next
    case (Write_start data)
    then show ?thesis using pipe_write_loop_view [OF assms, of data 0]
      by (simp add: pipe_write_impl_def pipe_view_def errno_defs)
  qed (use pipe_write_loop_view [OF assms] in simp_all)
qed

theorem pipe_refines_queue_witness:
  "\<exists>p. pipe_alloc_struct True = Some p \<and>
     map_prod id pipe_view (pipe_section (Write_start [1, 2, 3]) p) = (Done 3 [], [1, 2, 3], 1, 1)"
proof -
  obtain p where p: "pipe_alloc_struct True = Some p" by (simp add: pipe_alloc_struct_def)
  note i = pipe_alloc_inv [OF p]
  have "readers p = 1" "writers p = 1" using p by (auto simp: pipe_alloc_struct_def)
  with i pipe_refines_queue [of p "Write_start [1, 2, 3]"] p show ?thesis
    by (auto simp: pipe_view_def queue_write_def Let_def)
qed

end
