(* ===== verification/Memfs.thy ===== *)
theory Memfs
  imports Kernel_Base
begin

text \<open>
  The two memory file systems. kernel/fs.c serves the program images linked into the kernel; the
  images themselves (kernel/user\_images.c) are a parameter. kernel/ramfs.c keeps up to 32 files that
  grow on writes. A file buffer of \<open>capacity\<close> bytes is the list of its bytes; \<open>mem\<close> says whether
  \<open>kalloc\<close> of so many bytes delivers memory. The code handles a null result, so both outcomes are modelled; the heap of
  theory \<open>Kheap\<close> panics instead when memory runs out, and then the call does not return at all.
\<close>

section \<open>The read-only image file system\<close>

record memfs_file =
  mpath :: string
  mdata :: "u8 list"

definition memfs_paths :: "string list" where
  "memfs_paths = [''/bin/hello'', ''/bin/shell'', ''/bin/init'', ''/bin/echo'', ''/bin/ls'', ''/bin/cat'', ''/bin/fuzz'']"

text \<open>The table that \<open>memfs_init\<close> fills; \<open>images i\<close> is the image of entry \<open>i\<close>.\<close>

definition memfs_init :: "(nat \<Rightarrow> u8 list) \<Rightarrow> memfs_file list" where
  "memfs_init images = map (\<lambda>i. \<lparr>mpath = memfs_paths ! i, mdata = images i\<rparr>) [0..<length memfs_paths]"

definition memfs_lookup :: "(nat \<Rightarrow> u8 list) \<Rightarrow> string \<Rightarrow> nat option" where
  "memfs_lookup images path =
     List.find (\<lambda>i. streq (mpath (memfs_init images ! i)) path) [0..<length (memfs_init images)]"

text \<open>The bytes copied to the caller's buffer; their number is the result.\<close>

definition memfs_read :: "memfs_file \<Rightarrow> u64 \<Rightarrow> u64 \<Rightarrow> u8 list" where
  "memfs_read file offset len =
     (if len = 0 then []
      else if offset \<ge> of_nat (length (mdata file)) then []
      else (let remaining = of_nat (length (mdata file)) - offset;
                len' = (if len > remaining then remaining else len)
            in map (\<lambda>i. mdata file ! (unat offset + i)) [0..<unat len']))"

definition memfs_list :: "(nat \<Rightarrow> u8 list) \<Rightarrow> u64 \<Rightarrow> string" where
  "memfs_list images len =
     (if len = 0 then [] else emit_lines (unat len) [] (map mpath (memfs_init images)))"

section \<open>The writable file system\<close>

definition RAMFS_MAX_FILES :: nat where "RAMFS_MAX_FILES = 32"
definition RAMFS_PATH_MAX :: nat where "RAMFS_PATH_MAX = 64"
definition RAMFS_GROW_STEP :: u64 where "RAMFS_GROW_STEP = 64"

record ramfs_file =
  rpath :: string
  rdata :: "u8 list"
  rsize :: u64
  capacity :: u64
  rused :: bool

type_synonym ramfs = "ramfs_file list"

definition ramfs_files :: ramfs where
  "ramfs_files = replicate RAMFS_MAX_FILES \<lparr>rpath = [], rdata = [], rsize = 0, capacity = 0, rused = False\<rparr>"

definition copy_path :: "string \<Rightarrow> string" where
  "copy_path src = take (RAMFS_PATH_MAX - 1) src"

text \<open>The loop that looks for a large enough capacity; it may run forever.\<close>

partial_function (option) grow_cap :: "u64 \<Rightarrow> u64 \<Rightarrow> u64 option" where
  "grow_cap need new_cap = (if new_cap < need then grow_cap need (new_cap + RAMFS_GROW_STEP) else Some new_cap)"

declare grow_cap.simps [code]

text \<open>\<open>Ret (0, file')\<close> or \<open>Ret (-1, file)\<close>; \<open>Hang\<close> when the loop never ends.\<close>

definition ramfs_expand :: "(u64 \<Rightarrow> bool) \<Rightarrow> u64 \<Rightarrow> ramfs_file \<Rightarrow> (int \<times> ramfs_file) run" where
  "ramfs_expand mem need file =
     (if need \<le> capacity file then Ret (0, file)
      else bind_run (loop_run (grow_cap need (if capacity file = 0 then RAMFS_GROW_STEP else capacity file)))
        (\<lambda>new_cap.
           if \<not> mem new_cap then Ret (-1, file)
           else Ret (0, file\<lparr>rdata := take (unat (rsize file)) (rdata file) @
                         replicate (unat new_cap - unat (rsize file)) 0,
                       capacity := new_cap\<rparr>)))"

definition ramfs_open :: "string \<Rightarrow> ramfs \<Rightarrow> (nat option) \<times> ramfs" where
  "ramfs_open path fs =
     (if take 1 path \<noteq> ''/'' then (None, fs)
      else if str_len path \<ge> RAMFS_PATH_MAX then (None, fs)
      else case List.find (\<lambda>i. rused (fs ! i) \<and> streq (rpath (fs ! i)) path) [0..<RAMFS_MAX_FILES] of
             Some i \<Rightarrow> (Some i, fs)
           | None \<Rightarrow>
               (case List.find (\<lambda>i. \<not> rused (fs ! i)) [0..<RAMFS_MAX_FILES] of
                  Some i \<Rightarrow> (Some i, fs[i := \<lparr>rpath = copy_path path, rdata = [], rsize = 0, capacity = 0, rused = True\<rparr>])
                | None \<Rightarrow> (None, fs)))"

definition ramfs_read :: "ramfs_file \<Rightarrow> u64 \<Rightarrow> u64 \<Rightarrow> u8 list \<times> u64" where
  "ramfs_read file offset len =
     (if len = 0 then ([], offset)
      else if offset \<ge> rsize file then ([], offset)
      else (let remaining = rsize file - offset;
                len' = (if len > remaining then remaining else len)
            in (map (\<lambda>i. rdata file ! (unat offset + i)) [0..<unat len'], offset + len')))"

text \<open>Storing \<open>src\<close> into the buffer from index \<open>k\<close> on.\<close>

fun store_bytes :: "nat \<Rightarrow> u8 list \<Rightarrow> u8 list \<Rightarrow> u8 list" where
  "store_bytes k [] buf = buf"
| "store_bytes k (b # src) buf = store_bytes (Suc k) src (buf[k := b])"

text \<open>The result value, the new offset and the file; \<open>len\<close> is the length of \<open>src\<close>.\<close>

definition ramfs_write :: "(u64 \<Rightarrow> bool) \<Rightarrow> ramfs_file \<Rightarrow> u64 \<Rightarrow> u8 list \<Rightarrow> (int \<times> u64 \<times> ramfs_file) run" where
  "ramfs_write mem file offset src =
     (let len = of_nat (length src); end_pos = offset + len
      in if len = 0 then Ret (0, offset, file)
         else if end_pos < offset then Ret (-1, offset, file)
         else bind_run (ramfs_expand mem end_pos file) (\<lambda>(r, f).
           if r \<noteq> 0 then Ret (-1, offset, f)
           else Ret (int (length src), end_pos,
                  f\<lparr>rdata := store_bytes (unat offset) src (rdata f),
                    rsize := (if end_pos > rsize f then end_pos else rsize f)\<rparr>)))"

definition ramfs_list :: "ramfs \<Rightarrow> u64 \<Rightarrow> string" where
  "ramfs_list fs len =
     (if len = 0 then [] else emit_lines (unat len) [] (map rpath (filter rused fs)))"

section \<open>Growing a file\<close>

lemma mult64_le: "x mod 64 = 0 \<Longrightarrow> x < 2 ^ 64 \<Longrightarrow> x \<le> 2 ^ 64 - 64" for x :: nat
  by (auto elim!: dvdE simp: mod_eq_0_iff_dvd)

lemma unat_add_64: "unat (c + 64) mod 64 = unat c mod 64" for c :: u64
proof -
  have "unat (c + 64) = (unat c + 64) mod 2 ^ 64" by (simp add: unat_word_ariths)
  then show ?thesis by (simp add: mod_mod_cancel)
qed

lemma grow_cap_Some:
  assumes "unat c mod 64 = 0" "unat need \<le> 2 ^ 64 - 64"
  shows "\<exists>r. grow_cap need c = Some r \<and> need \<le> r \<and> c \<le> r \<and> unat r mod 64 = 0"
  using assms
proof (induction "2 ^ 64 - unat c" arbitrary: c rule: less_induct)
  case less
  show ?case
  proof (cases "c < need")
    case True
    then have "unat c < unat need" by (simp add: word_less_nat_alt)
    then have u: "unat (c + 64) = unat c + 64"
      using less.prems by (subst unat_add_no_wrap) auto
    have "2 ^ 64 - unat (c + 64) < 2 ^ 64 - unat c" using u unat_lt_64 [of c] by simp
    from less.hyps [OF this] less.prems obtain r where
      "grow_cap need (c + 64) = Some r" "need \<le> r" "c + 64 \<le> r" "unat r mod 64 = 0"
      using unat_add_64 by metis
    moreover have "c \<le> c + 64" using u by (simp add: word_le_nat_alt)
    ultimately show ?thesis
      using True by (subst grow_cap.simps) (auto simp: RAMFS_GROW_STEP_def)
  next
    case False
    then show ?thesis using less.prems by (subst grow_cap.simps) auto
  qed
qed

lemma grow_cap_diverges:
  assumes "grow_cap need c = Some r"
  shows "unat c mod 64 = 0 \<longrightarrow> unat need \<le> 2 ^ 64 - 64"
proof (rule grow_cap.raw_induct [where P = "\<lambda>need c r. unat c mod 64 = 0 \<longrightarrow> unat need \<le> 2 ^ 64 - 64", OF _ assms])
  fix f :: "u64 \<Rightarrow> u64 \<Rightarrow> u64 option" and need c r
  assume IH: "\<And>need c r. f need c = Some r \<Longrightarrow> unat c mod 64 = 0 \<longrightarrow> unat need \<le> 2 ^ 64 - 64"
    and eq: "(if c < need then f need (c + RAMFS_GROW_STEP) else Some c) = Some r"
  show "unat c mod 64 = 0 \<longrightarrow> unat need \<le> 2 ^ 64 - 64"
  proof (cases "c < need")
    case True
    then have "f need (c + 64) = Some r" using eq by (simp add: RAMFS_GROW_STEP_def)
    from IH [OF this] show ?thesis by (simp add: unat_add_64)
  next
    case False
    show ?thesis
    proof
      assume "unat c mod 64 = 0"
      then have "unat c \<le> 2 ^ 64 - 64" by (rule mult64_le) (simp add: unat_lt_64)
      with False show "unat need \<le> 2 ^ 64 - 64"
        by (simp add: word_less_nat_alt)
    qed
  qed
qed

section \<open>Files as byte sequences\<close>

definition ramfs_inv :: "ramfs_file \<Rightarrow> bool" where
  "ramfs_inv f \<longleftrightarrow> length (rdata f) = unat (capacity f) \<and> rsize f \<le> capacity f \<and>
     unat (capacity f) mod 64 = 0 \<and> (\<forall>i<length (rdata f). unat (rsize f) \<le> i \<longrightarrow> rdata f ! i = 0)"

definition ramfs_abs :: "ramfs_file \<Rightarrow> u8 list" where
  "ramfs_abs f = take (unat (rsize f)) (rdata f)"

text \<open>Writing to a byte sequence: a gap before the written part is filled with zeros.\<close>

definition write_at :: "nat \<Rightarrow> u8 list \<Rightarrow> u8 list \<Rightarrow> u8 list" where
  "write_at k src c = take k (c @ replicate (k - length c) 0) @ src @ drop (k + length src) c"

lemma store_bytes_eq:
  "k + length src \<le> length buf \<Longrightarrow> store_bytes k src buf = take k buf @ src @ drop (k + length src) buf"
proof (induction k src buf rule: store_bytes.induct)
  case (2 k b src buf)
  then have "store_bytes (Suc k) src (buf[k := b]) = take (Suc k) (buf[k := b]) @ src @ drop (Suc k + length src) (buf[k := b])"
    by simp
  also have "take (Suc k) (buf[k := b]) = take k buf @ [b]" using 2(2) by (simp add: take_Suc_conv_app_nth)
  finally show ?case using 2(2) by simp
qed simp

lemma nth_splice:
  assumes "k + length src \<le> i" "i < length d"
  shows "(take k d @ src @ drop (k + length src) d) ! i = d ! i"
proof -
  have "i = length (take k d @ src) + (i - (k + length src))" using assms by simp
  then have "((take k d @ src) @ drop (k + length src) d) ! i = drop (k + length src) d ! (i - (k + length src))"
    by (metis nth_append_length_plus)
  then show ?thesis using assms by simp
qed

lemma splice_padded:
  fixes c src :: "u8 list"
  assumes "k + length src \<le> length c + d"
  shows "take (max (length c) (k + length src))
      (take k (c @ replicate d 0) @ src @ drop (k + length src) (c @ replicate d 0)) = write_at k src c"
proof (cases "k \<le> length c")
  case True
  then show ?thesis by (auto simp: write_at_def max_def)
next
  case False
  then have "min (k - length c) d = k - length c" using assms by simp
  with False show ?thesis by (simp add: write_at_def max_def)
qed

lemma ramfs_inv_padded:
  assumes "ramfs_inv f" shows "rdata f = ramfs_abs f @ replicate (length (rdata f) - unat (rsize f)) 0"
proof (rule nth_equalityI)
  have "unat (rsize f) \<le> length (rdata f)" using assms by (simp add: ramfs_inv_def word_le_nat_alt)
  then show "length (rdata f) = length (ramfs_abs f @ replicate (length (rdata f) - unat (rsize f)) 0)"
    by (simp add: ramfs_abs_def)
  fix i assume "i < length (rdata f)"
  with assms show "rdata f ! i = (ramfs_abs f @ replicate (length (rdata f) - unat (rsize f)) 0) ! i"
    by (auto simp: ramfs_abs_def nth_append ramfs_inv_def)
qed

lemma length_ramfs_abs: "ramfs_inv f \<Longrightarrow> length (ramfs_abs f) = unat (rsize f)"
  by (simp add: ramfs_abs_def ramfs_inv_def word_le_nat_alt)

lemma ramfs_expand_spec:
  assumes inv: "ramfs_inv f" and need: "unat need \<le> 2 ^ 64 - 64" and m: "\<forall>c. mem c"
  shows "\<exists>f'. ramfs_expand mem need f = Ret (0, f') \<and> ramfs_inv f' \<and> ramfs_abs f' = ramfs_abs f \<and>
    rsize f' = rsize f \<and> need \<le> capacity f' \<and> rpath f' = rpath f \<and> rused f' = rused f"
proof (cases "need \<le> capacity f")
  case True
  then show ?thesis using inv by (simp add: ramfs_expand_def)
next
  case False
  define c where "c = (if capacity f = 0 then 64 else capacity f)"
  have "unat c mod 64 = 0" using inv by (simp add: ramfs_inv_def c_def)
  from grow_cap_Some [OF this need] obtain r where
    r: "grow_cap need c = Some r" "need \<le> r" "c \<le> r" "unat r mod 64 = 0" by (elim exE conjE)
  have rs: "unat (rsize f) \<le> unat r" using inv r(2) False by (simp add: ramfs_inv_def word_le_nat_alt)
  have le: "unat (rsize f) \<le> length (rdata f)" using inv by (simp add: ramfs_inv_def word_le_nat_alt)
  let ?f' = "f\<lparr>rdata := take (unat (rsize f)) (rdata f) @ replicate (unat r - unat (rsize f)) 0, capacity := r\<rparr>"
  have "ramfs_expand mem need f = Ret (0, ?f')"
    unfolding ramfs_expand_def RAMFS_GROW_STEP_def c_def [symmetric] using False r(1) m by simp
  moreover have "ramfs_inv ?f'"
    using rs le r(4) by (auto simp: ramfs_inv_def word_le_nat_alt nth_append)
  moreover have "ramfs_abs ?f' = ramfs_abs f" using le by (simp add: ramfs_abs_def)
  ultimately show ?thesis using r(2) by auto
qed

lemma ramfs_write_spec:
  assumes inv: "ramfs_inv f" and fit: "unat offset + length src \<le> 2 ^ 64 - 64" and ne: "src \<noteq> []"
    and m: "\<forall>c. mem c"
  shows "\<exists>f'. ramfs_write mem f offset src = Ret (int (length src), offset + of_nat (length src), f') \<and>
    ramfs_inv f' \<and> ramfs_abs f' = write_at (unat offset) src (ramfs_abs f)"
proof -
  let ?n = "length src" and ?e = "offset + of_nat (length src)"
  have un: "unat (of_nat ?n :: u64) = ?n" using fit by (simp add: unat_of_nat_small)
  have ue: "unat ?e = unat offset + ?n" using fit un by (subst unat_add_no_wrap) auto
  have nz: "(of_nat ?n :: u64) \<noteq> 0" using ne un by (metis length_0_conv unat_0)
  have nl: "\<not> ?e < offset" by (simp add: word_less_nat_alt ue)
  obtain g where g: "ramfs_expand mem ?e f = Ret (0, g)" "ramfs_inv g" "ramfs_abs g = ramfs_abs f"
    "rsize g = rsize f" "?e \<le> capacity g"
    using ramfs_expand_spec [OF inv _ m, of ?e] fit ue by auto
  define d where "d = length (rdata g) - unat (rsize g)"
  have lg: "unat offset + ?n \<le> length (rdata g)" using g(2,5) ue by (simp add: ramfs_inv_def word_le_nat_alt)
  have pad: "rdata g = ramfs_abs f @ replicate d 0" using ramfs_inv_padded [OF g(2)] g(3) by (simp add: d_def)
  have la: "length (ramfs_abs f) = unat (rsize f)" by (rule length_ramfs_abs [OF inv])
  let ?data = "store_bytes (unat offset) src (rdata g)"
  let ?f' = "g\<lparr>rdata := ?data, rsize := (if ?e > rsize g then ?e else rsize g)\<rparr>"
  have sb: "?data = take (unat offset) (rdata g) @ src @ drop (unat offset + ?n) (rdata g)"
    by (rule store_bytes_eq [OF lg])
  have us: "unat (rsize ?f') = max (unat (rsize f)) (unat offset + ?n)"
    by (simp add: g(4) word_less_nat_alt ue)
  have ev: "ramfs_write mem f offset src = Ret (int ?n, ?e, ?f')"
    using nz nl g(1) by (simp add: ramfs_write_def Let_def)
  have "ramfs_inv ?f'"
    unfolding ramfs_inv_def
  proof (intro conjI allI impI)
    show "length (rdata ?f') = unat (capacity ?f')" using g(2) lg by (simp add: sb ramfs_inv_def)
    show "rsize ?f' \<le> capacity ?f'" using g(2,5) by (simp add: ramfs_inv_def)
    show "unat (capacity ?f') mod 64 = 0" using g(2) by (simp add: ramfs_inv_def)
    fix i assume i: "i < length (rdata ?f')" "unat (rsize ?f') \<le> i"
    then have j: "unat offset + ?n \<le> i" "unat (rsize f) \<le> i" "i < length (rdata g)" using us lg by (simp_all add: sb)
    have "?data ! i = rdata g ! i" unfolding sb by (rule nth_splice [OF j(1,3)])
    then show "rdata ?f' ! i = 0" using j g(2) by (simp add: ramfs_inv_def g(4))
  qed
  moreover have "ramfs_abs ?f' = write_at (unat offset) src (ramfs_abs f)"
  proof -
    have "ramfs_abs ?f' = take (max (unat (rsize f)) (unat offset + ?n)) ?data" using us by (simp add: ramfs_abs_def)
    also have "\<dots> = write_at (unat offset) src (ramfs_abs f)"
    proof -
      have dl: "unat offset + ?n \<le> length (ramfs_abs f) + d" using lg pad by simp
      show ?thesis
        unfolding sb unfolding pad la [symmetric] by (rule splice_padded [OF dl])
    qed
    finally show ?thesis .
  qed
  ultimately show ?thesis using ev by blast
qed

lemma map_nth_slice: "k + n \<le> length xs \<Longrightarrow> map (\<lambda>i. xs ! (k + i)) [0..<n] = take n (drop k xs)"
  by (rule nth_equalityI) auto

lemma ramfs_read_spec:
  assumes inv: "ramfs_inv f"
  shows "fst (ramfs_read f offset len) = take (unat len) (drop (unat offset) (ramfs_abs f))"
    "unat (snd (ramfs_read f offset len)) = unat offset + length (fst (ramfs_read f offset len))"
proof -
  have le: "unat (rsize f) \<le> length (rdata f)" using inv by (simp add: ramfs_inv_def word_le_nat_alt)
  have "fst (ramfs_read f offset len) = take (unat len) (drop (unat offset) (ramfs_abs f)) \<and>
    unat (snd (ramfs_read f offset len)) = unat offset + length (fst (ramfs_read f offset len))"
  proof (cases "len = 0 \<or> offset \<ge> rsize f")
    case True
    then show ?thesis using le by (auto simp: ramfs_read_def ramfs_abs_def word_le_nat_alt)
  next
    case False
    let ?r = "rsize f - offset" and ?l = "if len > rsize f - offset then rsize f - offset else len"
    have o: "unat offset < unat (rsize f)" using False by (simp add: word_le_nat_alt not_le)
    have ur: "unat ?r = unat (rsize f) - unat offset" using o by (simp add: unat_sub_no_wrap word_le_nat_alt)
    have ul: "unat ?l = min (unat len) (unat (rsize f) - unat offset)" using ur by (simp add: word_less_nat_alt)
    have uo: "unat (offset + ?l) = unat offset + unat ?l"
      using ul o unat_lt_64 [of "rsize f"] by (intro unat_add_no_wrap) simp
    have "ramfs_read f offset len = (map (\<lambda>i. rdata f ! (unat offset + i)) [0..<unat ?l], offset + ?l)"
      using False by (simp add: ramfs_read_def Let_def)
    moreover have "map (\<lambda>i. rdata f ! (unat offset + i)) [0..<unat ?l] = take (unat len) (drop (unat offset) (ramfs_abs f))"
      using map_nth_slice [of "unat offset" "unat ?l" "rdata f"] le o
      unfolding ul by (simp add: ramfs_abs_def drop_take)
    moreover have "length (take (unat len) (drop (unat offset) (ramfs_abs f))) = unat ?l"
      unfolding ul using le o by (simp add: ramfs_abs_def)
    ultimately show ?thesis using uo by simp
  qed
  then show "fst (ramfs_read f offset len) = take (unat len) (drop (unat offset) (ramfs_abs f))"
    "unat (snd (ramfs_read f offset len)) = unat offset + length (fst (ramfs_read f offset len))" by simp_all
qed

lemma memfs_read_spec:
  assumes "length (mdata f) < 2 ^ 64"
  shows "memfs_read f offset len = take (unat len) (drop (unat offset) (mdata f))"
proof -
  let ?n = "of_nat (length (mdata f)) :: u64"
  have un: "unat ?n = length (mdata f)" using assms by (simp add: unat_of_nat_small)
  show ?thesis
  proof (cases "len = 0 \<or> offset \<ge> ?n")
    case True
    then show ?thesis using un by (auto simp: memfs_read_def word_le_nat_alt)
  next
    case False
    have o: "unat offset < length (mdata f)" using False un by (simp add: word_le_nat_alt not_le)
    have ur: "unat (?n - offset) = length (mdata f) - unat offset" using o un by (simp add: unat_sub_no_wrap word_le_nat_alt)
    let ?l = "if len > ?n - offset then ?n - offset else len"
    have ul: "unat ?l = min (unat len) (length (mdata f) - unat offset)" using ur by (simp add: word_less_nat_alt)
    have "memfs_read f offset len = map (\<lambda>i. mdata f ! (unat offset + i)) [0..<unat ?l]"
      using False by (simp add: memfs_read_def Let_def)
    also have "\<dots> = take (unat ?l) (drop (unat offset) (mdata f))"
      using o unfolding ul by (intro map_nth_slice) simp
    also have "\<dots> = take (unat len) (drop (unat offset) (mdata f))" unfolding ul by (simp add: min_def)
    finally show ?thesis .
  qed
qed

section \<open>Correctness\<close>

definition empty_file :: ramfs_file where
  "empty_file = \<lparr>rpath = ''/a'', rdata = [], rsize = 0, capacity = 0, rused = True\<rparr>"

lemma empty_file_inv: "ramfs_inv empty_file" "ramfs_abs empty_file = []"
  by (simp_all add: ramfs_inv_def ramfs_abs_def empty_file_def)

text \<open>(C16) A write that ends at most 64 bytes below the end of the address range succeeds, keeps the
  file well formed and changes its contents like a write to a byte sequence: the bytes from the
  offset on are replaced, the file grows if needed and a gap reads as zeros.\<close>

theorem ramfs_write_refines:
  assumes "ramfs_inv f" "unat offset + length src \<le> 2 ^ 64 - 64" "src \<noteq> []" "\<forall>c. mem c"
  shows "\<exists>f'. ramfs_write mem f offset src = Ret (int (length src), offset + of_nat (length src), f') \<and>
    ramfs_inv f' \<and> ramfs_abs f' = write_at (unat offset) src (ramfs_abs f)"
  by (rule ramfs_write_spec [OF assms])

theorem ramfs_write_refines_witness:
  "\<exists>f'. ramfs_write (\<lambda>_. True) empty_file 3 [1, 2] = Ret (2, 5, f') \<and> ramfs_abs f' = [0, 0, 0, 1, 2]"
proof -
  have "write_at 3 [1, 2] [] = [0, 0, 0, 1, 2]" by (simp add: write_at_def numeral_3_eq_3)
  with ramfs_write_refines [OF empty_file_inv(1), of 3 "[1, 2]" "\<lambda>_. True"] show ?thesis
    by (auto simp: empty_file_inv(2))
qed

text \<open>(C31) What is written is read back: a read of as many bytes at the same offset returns them, and
  the read offset advances past them.\<close>

theorem ramfs_write_read:
  assumes "ramfs_inv f" "unat offset + length src \<le> 2 ^ 64 - 64" "src \<noteq> []" "\<forall>c. mem c"
    and "ramfs_write mem f offset src = Ret (r, offset', f')"
  shows "ramfs_read f' offset (of_nat (length src)) = (src, offset')"
proof -
  from ramfs_write_spec [OF assms(1-4)] assms(5)
  have f': "ramfs_inv f'" "ramfs_abs f' = write_at (unat offset) src (ramfs_abs f)"
    and o': "offset' = offset + of_nat (length src)" by auto
  have un: "unat (of_nat (length src) :: u64) = length src" using assms(2) by (simp add: unat_of_nat_small)
  have "drop (unat offset) (ramfs_abs f') = src @ drop (unat offset + length src) (ramfs_abs f)"
    unfolding f'(2) write_at_def by simp
  then have 1: "fst (ramfs_read f' offset (of_nat (length src))) = src"
    using ramfs_read_spec(1) [OF f'(1), of offset "of_nat (length src)"] un by simp
  have "unat (snd (ramfs_read f' offset (of_nat (length src)))) = unat offset + length src"
    using ramfs_read_spec(2) [OF f'(1), of offset "of_nat (length src)"] 1 by simp
  also have "\<dots> = unat offset'" unfolding o' using un assms(2) by (subst unat_add_no_wrap) auto
  finally show ?thesis using 1 by (metis prod.collapse word_eq_unat)
qed

theorem ramfs_write_read_witness:
  "\<exists>r o' f'. ramfs_write (\<lambda>_. True) empty_file 3 [1, 2] = Ret (r, o', f') \<and> ramfs_read f' 3 2 = ([1, 2], o')"
proof -
  obtain f' where f': "ramfs_write (\<lambda>_. True) empty_file 3 [1, 2] = Ret (2, 5, f')"
    using ramfs_write_spec [OF empty_file_inv(1), of 3 "[1, 2]" "\<lambda>_. True"] by auto
  with ramfs_write_read [OF empty_file_inv(1) _ _ _ f'] show ?thesis by auto
qed

text \<open>(C32) The search for a new capacity ends for every write except those that end in the last 63
  bytes of the address range: there the capacity wraps around and the kernel loops forever.\<close>

theorem ramfs_write_hangs_iff:
  assumes "ramfs_inv f" "src \<noteq> []" "unat offset + length src < 2 ^ 64"
  shows "ramfs_write mem f offset src = Hang \<longleftrightarrow> unat offset + length src > 2 ^ 64 - 64"
proof -
  let ?e = "offset + of_nat (length src)"
  have un: "unat (of_nat (length src) :: u64) = length src" using assms(3) by (simp add: unat_of_nat_small)
  have ue: "unat ?e = unat offset + length src" using assms(3) un by (subst unat_add_no_wrap) auto
  have nz: "(of_nat (length src) :: u64) \<noteq> 0" using assms(2) un by (metis length_0_conv unat_0)
  have W: "ramfs_write mem f offset src = Hang \<longleftrightarrow> ramfs_expand mem ?e f = Hang"
    using nz ue by (cases "ramfs_expand mem ?e f") (auto simp: ramfs_write_def Let_def word_less_nat_alt split: if_splits)
  define c where "c = (if capacity f = 0 then RAMFS_GROW_STEP else capacity f)"
  have c: "unat c mod 64 = 0" using assms(1) by (simp add: ramfs_inv_def c_def RAMFS_GROW_STEP_def)
  have cap: "unat (capacity f) \<le> 2 ^ 64 - 64"
    using assms(1) by (intro mult64_le) (simp_all add: ramfs_inv_def unat_lt_64)
  have E: "ramfs_expand mem ?e f = Hang \<longleftrightarrow> \<not> ?e \<le> capacity f \<and> grow_cap ?e c = None"
    unfolding ramfs_expand_def c_def [symmetric] by (cases "grow_cap ?e c") auto
  show ?thesis
  proof (cases "unat offset + length src > 2 ^ 64 - 64")
    case True
    then have "grow_cap ?e c = None" using grow_cap_diverges [of ?e c] c ue by (cases "grow_cap ?e c") auto
    then show ?thesis using True W E ue cap by (simp add: word_le_nat_alt)
  next
    case False
    then have "unat ?e \<le> 2 ^ 64 - 64" using ue by simp
    from grow_cap_Some [OF c this] False W E show ?thesis by auto
  qed
qed

theorem ramfs_write_hangs_iff_witness:
  "ramfs_write (\<lambda>_. True) empty_file (- 32) [1] = Hang \<and> ramfs_write (\<lambda>_. True) empty_file 32 [1] \<noteq> Hang"
  using ramfs_write_hangs_iff [OF empty_file_inv(1), of "[1]" "- 32" "\<lambda>_. True"]
    ramfs_write_hangs_iff [OF empty_file_inv(1), of "[1]" 32 "\<lambda>_. True"] by simp

section \<open>Directories\<close>

definition ramfs_dir_inv :: "ramfs \<Rightarrow> bool" where
  "ramfs_dir_inv fs \<longleftrightarrow> length fs = 32 \<and>
     (\<forall>i<32. \<forall>j<32. rused (fs ! i) \<and> rused (fs ! j) \<and> rpath (fs ! i) = rpath (fs ! j) \<longrightarrow> i = j)"

lemma find_first:
  assumes "i < n" "P i" "\<And>j. j < n \<Longrightarrow> P j \<Longrightarrow> j = i" shows "List.find P [0..<n] = Some i"
proof -
  have "List.find P [0..<n] \<noteq> None" using assms by (auto simp: find_None_iff)
  then obtain j where j: "List.find P [0..<n] = Some j" by blast
  from find_SomeD [OF this] assms(3) [of j] show ?thesis using j by simp
qed

text \<open>Opening a path gives the file of that path: a new empty one in a free slot if the path is
  not open yet, the same one every time otherwise. Other files keep their contents, and no two files
  in use have the same path. An open fails only for a path that is not absolute or too long or when
  all 32 slots are in use.\<close>

theorem ramfs_open_stable:
  assumes inv: "ramfs_dir_inv fs" and r: "ramfs_open path fs = (res, fs')"
  shows "ramfs_dir_inv fs' \<and>
    (case res of
       Some i \<Rightarrow> i < 32 \<and> rused (fs' ! i) \<and> rpath (fs' ! i) = path \<and> ramfs_open path fs' = (Some i, fs') \<and>
         (\<forall>j<32. j \<noteq> i \<longrightarrow> fs' ! j = fs ! j) \<and> (rused (fs ! i) \<longrightarrow> fs' = fs)
     | None \<Rightarrow> fs' = fs \<and> (take 1 path \<noteq> ''/'' \<or> length path \<ge> 64 \<or> (\<forall>j<32. rused (fs ! j))))"
proof -
  have len: "length fs = 32" using inv by (simp add: ramfs_dir_inv_def)
  define used where "used = (\<lambda>(fs :: ramfs) i. rused (fs ! i) \<and> rpath (fs ! i) = path)"
  consider (bad) "take 1 path \<noteq> ''/'' \<or> length path \<ge> 64"
    | (found) i where "\<not> (take 1 path \<noteq> ''/'' \<or> length path \<ge> 64)" "List.find (used fs) [0..<32] = Some i"
    | (full) "\<not> (take 1 path \<noteq> ''/'' \<or> length path \<ge> 64)" "List.find (used fs) [0..<32] = None"
        "List.find (\<lambda>i. \<not> rused (fs ! i)) [0..<32] = None"
    | (new) i where "\<not> (take 1 path \<noteq> ''/'' \<or> length path \<ge> 64)" "List.find (used fs) [0..<32] = None"
        "List.find (\<lambda>i. \<not> rused (fs ! i)) [0..<32] = Some i"
    by fastforce
  then show ?thesis
  proof cases
    case bad
    then show ?thesis using r inv by (auto simp: ramfs_open_def RAMFS_PATH_MAX_def split: if_splits)
  next
    case found
    have "i < 32 \<and> used fs i" using find_SomeD [OF found(2)] by simp
    moreover have "res = Some i" "fs' = fs"
      using r found by (auto simp: ramfs_open_def RAMFS_PATH_MAX_def RAMFS_MAX_FILES_def used_def)
    ultimately show ?thesis using r inv by (simp add: used_def)
  next
    case full
    then have "\<forall>j<32. rused (fs ! j)" by (auto simp: find_None_iff)
    moreover have "res = None" "fs' = fs"
      using r full by (auto simp: ramfs_open_def RAMFS_PATH_MAX_def RAMFS_MAX_FILES_def used_def)
    ultimately show ?thesis using inv by simp
  next
    case new
    have i: "i < 32 \<and> \<not> rused (fs ! i)" using find_SomeD [OF new(3)] by simp
    have no: "\<forall>j<32. \<not> used fs j" using new(2) by (auto simp: find_None_iff)
    let ?f = "\<lparr>rpath = path, rdata = [], rsize = 0, capacity = 0, rused = True\<rparr>"
    have cp: "copy_path path = path" using new(1) by (simp add: copy_path_def RAMFS_PATH_MAX_def)
    have rs: "res = Some i" "fs' = fs[i := ?f]"
      using r new cp by (auto simp: ramfs_open_def RAMFS_PATH_MAX_def RAMFS_MAX_FILES_def used_def)
    have inv': "ramfs_dir_inv fs'"
      using inv no i unfolding rs ramfs_dir_inv_def used_def by (auto simp: nth_list_update)
    have "List.find (used fs') [0..<32] = Some i"
      using i no len by (intro find_first) (auto simp: rs used_def nth_list_update split: if_splits)
    then have "ramfs_open path fs' = (Some i, fs')"
      using new(1) by (auto simp: ramfs_open_def RAMFS_PATH_MAX_def RAMFS_MAX_FILES_def used_def)
    then show ?thesis using inv' i len by (simp add: rs)
  qed
qed

theorem ramfs_open_stable_witness:
  "\<exists>i fs'. ramfs_open ''/a'' ramfs_files = (Some i, fs') \<and> ramfs_open ''/a'' fs' = (Some i, fs')"
proof -
  have i: "ramfs_dir_inv ramfs_files" by (simp add: ramfs_dir_inv_def ramfs_files_def RAMFS_MAX_FILES_def)
  obtain res fs' where r: "ramfs_open ''/a'' ramfs_files = (res, fs')" by fastforce
  have "\<not> rused (ramfs_files ! 0)" by (simp add: ramfs_files_def RAMFS_MAX_FILES_def)
  with ramfs_open_stable [OF i r] r show ?thesis by (cases res) auto
qed

text \<open>Both listings put the longest prefix of the lines of all file names into the buffer that
  leaves one byte of it unused.\<close>

theorem listings_are_prefixes:
  "memfs_list images len = take (unat len - 1) (concat (map (\<lambda>p. p @ [CHR 0x0A]) memfs_paths)) \<and>
   ramfs_list fs len = take (unat len - 1) (concat (map (\<lambda>f. rpath f @ [CHR 0x0A]) (filter rused fs)))"
proof -
  have "map mpath (memfs_init images) = memfs_paths"
    by (simp add: memfs_init_def comp_def map_nth)
  then show ?thesis
    using emit_lines_spec [of "[]" "unat len"]
    by (auto simp: memfs_list_def ramfs_list_def comp_def)
qed

end
