(* ===== verification/Paths.thy ===== *)
theory Paths
  imports Kernel_Base
begin

text \<open>
  Path normalisation. kernel/vfs.c and kernel/syscall.c each have a \<open>normalize_path\<close> that rewrites a
  path in place into a bounded buffer. Here the buffer is the string of the first \<open>out_pos\<close>
  characters; both functions share the loop over the segments. The reference is the usual stack of
  path components.
\<close>

section \<open>The implementations\<close>

definition skip_slashes :: "string \<Rightarrow> string" where "skip_slashes p = dropWhile (\<lambda>c. c = CHR ''/'') p"

definition next_seg :: "string \<Rightarrow> string" where "next_seg p = takeWhile (\<lambda>c. c \<noteq> CHR ''/'') p"
definition after_seg :: "string \<Rightarrow> string" where
  "after_seg p = skip_slashes (dropWhile (\<lambda>c. c \<noteq> CHR ''/'') p)"

text \<open>The loop that removes characters up to the previous slash.\<close>

function strip_seg :: "string \<Rightarrow> string" where
  "strip_seg out = (if length out > 1 \<and> last out \<noteq> CHR ''/'' then strip_seg (butlast out) else out)"
  by auto
termination by (relation "measure length") auto

declare strip_seg.simps [simp del]

definition pop_seg :: "string \<Rightarrow> string" where
  "pop_seg out =
     (if length out > 1
      then strip_seg (if last out = CHR ''/'' then butlast out else out)
      else out)"

definition push_seg :: "nat \<Rightarrow> string \<Rightarrow> string \<Rightarrow> string option" where
  "push_seg out_len sg out =
     (if length out > 1 \<and> last out \<noteq> CHR ''/'' \<and> length out + 1 \<ge> out_len then None
      else (let out' = (if length out > 1 \<and> last out \<noteq> CHR ''/'' then out @ ''/'' else out)
            in if length out' + length sg \<ge> out_len then None else Some (out' @ sg)))"

lemma after_seg_shorter: "p \<noteq> [] \<Longrightarrow> length (after_seg p) < length p"
proof (cases p)
  case (Cons c q)
  have d: "length (dropWhile P xs) \<le> length xs" for P and xs :: string by (rule length_dropWhile_le)
  show ?thesis
    using d [of "\<lambda>c. c = CHR ''/''" "dropWhile (\<lambda>c. c \<noteq> CHR ''/'') q"] d [of "\<lambda>c. c \<noteq> CHR ''/''" q]
      d [of "\<lambda>c. c = CHR ''/''" q]
    by (simp add: Cons after_seg_def skip_slashes_def)
qed simp

function norm_loop :: "nat \<Rightarrow> string \<Rightarrow> string \<Rightarrow> string option" where
  "norm_loop out_len p out =
     (if p = [] then Some out
      else if next_seg p = ''.'' then norm_loop out_len (after_seg p) out
      else if next_seg p = ''..'' then norm_loop out_len (after_seg p) (pop_seg out)
      else if length (next_seg p) > 0
      then (case push_seg out_len (next_seg p) out of
              None \<Rightarrow> None
            | Some out' \<Rightarrow> norm_loop out_len (after_seg p) out')
      else norm_loop out_len (after_seg p) out)"
  by auto
termination by (relation "measure (\<lambda>(n, p, out). length p)") (auto intro: after_seg_shorter)

declare norm_loop.simps [simp del]

text \<open>kernel/vfs.c; the result carries \<open>want_dir\<close>.\<close>

definition normalize_path :: "string \<Rightarrow> nat \<Rightarrow> (bool \<times> string) option" where
  "normalize_path path out_len =
     (if out_len < 2 then None
      else if take 1 path \<noteq> ''/'' then None
      else (let want_dir = (str_len path > 1 \<and> last path = CHR ''/'')
            in map_option (Pair want_dir) (norm_loop out_len (skip_slashes path) ''/'')))"

text \<open>kernel/syscall.c.\<close>

definition sys_normalize_path :: "string \<Rightarrow> nat \<Rightarrow> string option" where
  "sys_normalize_path path out_len =
     (if out_len < 2 then None
      else norm_loop out_len (if take 1 path = ''/'' then tl path else path) ''/'')"

section \<open>The stack of components\<close>

fun components_from :: "string \<Rightarrow> string \<Rightarrow> string list" where
  "components_from acc [] = (if acc = [] then [] else [acc])"
| "components_from acc (c # p) =
     (if c = CHR ''/'' then (if acc = [] then [] else [acc]) @ components_from [] p
      else components_from (acc @ [c]) p)"

definition components :: "string \<Rightarrow> string list" where "components p = components_from [] p"

text \<open>The second part of the state says whether the last component was removed by \<open>..\<close>.\<close>

definition stack_step :: "string list \<times> bool \<Rightarrow> string \<Rightarrow> string list \<times> bool" where
  "stack_step = (\<lambda>(st, t) s.
     if s = ''.'' then (st, t) else if s = ''..'' then (butlast st, True) else (st @ [s], False))"

definition resolve_components :: "string list \<Rightarrow> string list \<times> bool" where
  "resolve_components cs = foldl stack_step ([], False) cs"

fun join :: "string list \<Rightarrow> string" where
  "join [] = []"
| "join (s # st) = CHR ''/'' # s @ join st"

definition render :: "string list \<times> bool \<Rightarrow> string" where
  "render = (\<lambda>(st, t). if st = [] then ''/'' else join st @ (if t then ''/'' else []))"

definition good_seg :: "string \<Rightarrow> bool" where "good_seg s \<longleftrightarrow> s \<noteq> [] \<and> CHR ''/'' \<notin> set s"

lemma components_from_seg:
  "CHR ''/'' \<notin> set acc \<Longrightarrow> components_from acc p =
     (if acc @ next_seg p = [] then [] else [acc @ next_seg p]) @ components_from [] (dropWhile (\<lambda>c. c \<noteq> CHR ''/'') p)"
  by (induction acc p rule: components_from.induct) (auto simp: next_seg_def)

lemma components_skip: "components (skip_slashes p) = components p"
  by (induction p) (auto simp: components_def skip_slashes_def)

lemma components_slash [simp]: "components (CHR ''/'' # p) = components p"
  by (simp add: components_def)

lemma components_unfold:
  "p \<noteq> [] \<Longrightarrow> components p = (if next_seg p = [] then [] else [next_seg p]) @ components (after_seg p)"
  using components_from_seg [of "[]" p] components_skip [of "dropWhile (\<lambda>c. c \<noteq> CHR ''/'') p"]
  by (simp add: components_def after_seg_def)

lemma components_Nil [simp]: "components [] = []"
  by (simp add: components_def)

lemma next_seg_good: "next_seg p \<noteq> [] \<Longrightarrow> good_seg (next_seg p)"
  by (auto simp: good_seg_def next_seg_def dest: set_takeWhileD)

section \<open>The buffer shows the stack\<close>

lemma join_append [simp]: "join (a @ b) = join a @ join b"
  by (induction a) auto

lemma join_Nil_iff [simp]: "join st = [] \<longleftrightarrow> st = []"
  by (cases st) auto

lemma last_good: "good_seg s \<Longrightarrow> last s \<noteq> CHR ''/''"
  by (metis good_seg_def last_in_set)

lemma strip_seg_good:
  "CHR ''/'' \<notin> set s \<Longrightarrow> a \<noteq> [] \<Longrightarrow> last a = CHR ''/'' \<Longrightarrow> strip_seg (a @ s) = a"
proof (induction s rule: rev_induct)
  case Nil
  then show ?case by (subst strip_seg.simps) auto
next
  case (snoc c s)
  then show ?case by (subst strip_seg.simps) (auto simp: butlast_append simp flip: append_assoc)
qed

lemma render_shape:
  assumes "\<forall>s\<in>set st. good_seg s"
  shows "length (render (st, t)) > 1 \<longleftrightarrow> st \<noteq> []"
    "last (render (st, t)) = CHR ''/'' \<longleftrightarrow> st = [] \<or> t"
proof -
  show "length (render (st, t)) > 1 \<longleftrightarrow> st \<noteq> []"
    using assms by (cases st) (auto simp: render_def good_seg_def)
  show "last (render (st, t)) = CHR ''/'' \<longleftrightarrow> st = [] \<or> t"
  proof (cases st rule: rev_cases)
    case (snoc st' s)
    then show ?thesis using assms last_good [of s] by (auto simp: render_def good_seg_def)
  qed (simp add: render_def)
qed

lemma render_pop:
  assumes g: "\<forall>s\<in>set st. good_seg s"
  shows "pop_seg (render (st, t)) = render (butlast st, True)"
proof (cases st rule: rev_cases)
  case Nil
  then show ?thesis by (simp add: pop_seg_def render_def)
next
  case (snoc st' s)
  have s: "good_seg s" using g snoc by simp
  have "pop_seg (render (st, t)) = strip_seg (join st' @ CHR ''/'' # s)"
    using render_shape [OF g, of t] last_good [OF s] s
    by (cases t) (auto simp: pop_seg_def snoc render_def good_seg_def butlast_append)
  also have "\<dots> = strip_seg ((join st' @ ''/'') @ s)" by simp
  also have "\<dots> = join st' @ ''/''" using s by (intro strip_seg_good) (auto simp: good_seg_def)
  also have "\<dots> = render (butlast st, True)" by (simp add: snoc render_def)
  finally show ?thesis .
qed

definition needs_slash :: "string list \<times> bool \<Rightarrow> nat" where
  "needs_slash x = (if fst x \<noteq> [] \<and> \<not> snd x then 1 else 0)"

lemma render_push:
  assumes g: "\<forall>s\<in>set st. good_seg s" and s: "good_seg s"
  shows "push_seg n s (render (st, t)) =
    (if length (render (st, t)) + needs_slash (st, t) + length s < n then Some (render (st @ [s], False)) else None)"
proof -
  have "length s > 0" using s by (simp add: good_seg_def)
  then show ?thesis
    using render_shape [OF g, of t]
    by (auto simp: push_seg_def Let_def needs_slash_def render_def)
qed

section \<open>The loop resolves the components\<close>

lemma stack_step_simps [simp]:
  "stack_step x ''.'' = x" "stack_step (st, t) ''..'' = (butlast st, True)"
  "s \<noteq> ''.'' \<Longrightarrow> s \<noteq> ''..'' \<Longrightarrow> stack_step (st, t) s = (st @ [s], False)"
  by (cases x; auto simp: stack_step_def)+

lemma norm_loop_Some:
  assumes "norm_loop n p out = Some r" "out = render (st, t)" "\<forall>s\<in>set st. good_seg s" "length out < n"
  shows "r = render (foldl stack_step (st, t) (components p)) \<and> length r < n"
  using assms
proof (induction n p out arbitrary: st t rule: norm_loop.induct)
  case (1 n p out)
  show ?case
  proof (cases "p = []")
    case True
    then show ?thesis using 1(5,6,8) by (subst (asm) norm_loop.simps) simp
  next
    case False
    note cp = components_unfold [OF False]
    consider (dot) "next_seg p = ''.''" | (up) "next_seg p = ''..''"
      | (empty) "next_seg p = []" | (seg) "next_seg p \<noteq> ''.''" "next_seg p \<noteq> ''..''" "next_seg p \<noteq> []" by blast
    then show ?thesis
    proof cases
      case dot
      then have "norm_loop n (after_seg p) out = Some r" using 1(5) False by (subst (asm) norm_loop.simps) simp
      from 1(1) [OF False dot this 1(6-8)] show ?thesis using dot by (auto simp: cp)
    next
      case up
      then have l: "norm_loop n (after_seg p) (pop_seg out) = Some r" using 1(5) False by (subst (asm) norm_loop.simps) simp
      have p: "pop_seg out = render (butlast st, True)" using render_pop [OF 1(7)] 1(6) by simp
      have "length (pop_seg out) \<le> length out"
        unfolding p using 1(6) by (cases st rule: rev_cases) (auto simp: render_def)
      with 1(8) have "length (pop_seg out) < n" by simp
      moreover have "\<forall>s\<in>set (butlast st). good_seg s" using 1(7) by (meson in_set_butlastD)
      ultimately show ?thesis using 1(2) [OF False _ up l p] up by (auto simp: cp)
    next
      case empty
      then have "norm_loop n (after_seg p) out = Some r" using 1(5) False by (subst (asm) norm_loop.simps) simp
      from 1(4) [OF False _ _ _ this 1(6-8)] show ?thesis using empty by (auto simp: cp)
    next
      case seg
      note g = next_seg_good [OF seg(3)]
      have ps: "push_seg n (next_seg p) out \<noteq> None" using 1(5) False seg
        by (subst (asm) norm_loop.simps) (auto split: option.splits)
      then have out': "push_seg n (next_seg p) out = Some (render (st @ [next_seg p], False))"
        and len: "length out + needs_slash (st, t) + length (next_seg p) < n"
        unfolding 1(6) render_push [OF 1(7) g] by (auto split: if_splits)
      have l: "norm_loop n (after_seg p) (render (st @ [next_seg p], False)) = Some r"
        using 1(5) False seg out' by (subst (asm) norm_loop.simps) simp
      have "length (render (st @ [next_seg p], False)) \<le> length out + needs_slash (st, t) + length (next_seg p)"
        unfolding 1(6) by (auto simp: render_def needs_slash_def)
      with len have "length (render (st @ [next_seg p], False)) < n" by simp
      moreover have "\<forall>s\<in>set (st @ [next_seg p]). good_seg s" using 1(7) g by simp
      ultimately show ?thesis
        using 1(3) [OF False _ _ _ out' l refl] seg by (auto simp: cp)
    qed
  qed
qed

text \<open>A path that is shorter than the buffer always fits: what is in the buffer never outgrows the
  part of the path that was read.\<close>

lemma norm_loop_fits:
  assumes "out = render (st, t)" "\<forall>s\<in>set st. good_seg s"
    "p \<noteq> [] \<longrightarrow> length out + needs_slash (st, t) + length p < n"
  shows "norm_loop n p out \<noteq> None"
  using assms
proof (induction n p out arbitrary: st t rule: norm_loop.induct)
  case (1 n p out)
  show ?case
  proof (cases "p = []")
    case True
    then show ?thesis by (subst norm_loop.simps) simp
  next
    case False
    have b: "length out + needs_slash (st, t) + length p < n" using 1(7) False by simp
    have sh: "length (after_seg p) < length p" by (rule after_seg_shorter [OF False])
    have sg: "length (next_seg p) + length (after_seg p) + (if after_seg p = [] then 0 else 1) \<le> length p"
    proof -
      define r where "r = dropWhile (\<lambda>c. c \<noteq> CHR ''/'') p"
      have p: "length p = length (next_seg p) + length r"
        unfolding r_def by (metis length_append next_seg_def takeWhile_dropWhile_id)
      have a: "after_seg p = skip_slashes r" by (simp add: after_seg_def r_def)
      show ?thesis
      proof (cases r)
        case Nil
        then show ?thesis using p a by (simp add: skip_slashes_def)
      next
        case (Cons c q)
        have "c = CHR ''/''" using hd_dropWhile [of "\<lambda>c. c \<noteq> CHR ''/''" p] Cons by (simp add: r_def [symmetric])
        then have "length (after_seg p) \<le> length q" using Cons a length_dropWhile_le by (simp add: skip_slashes_def)
        then show ?thesis using p Cons by simp
      qed
    qed
    consider (dot) "next_seg p = ''.''" | (up) "next_seg p = ''..''"
      | (empty) "next_seg p = []" | (seg) "next_seg p \<noteq> ''.''" "next_seg p \<noteq> ''..''" "next_seg p \<noteq> []" by blast
    then show ?thesis
    proof cases
      case dot
      have "norm_loop n (after_seg p) out \<noteq> None" using 1(1) [OF False dot 1(5,6)] b sh by simp
      then show ?thesis using False dot by (subst norm_loop.simps) simp
    next
      case up
      have q: "pop_seg out = render (butlast st, True)" using render_pop [OF 1(6)] 1(5) by simp
      have "length (pop_seg out) \<le> length out"
        unfolding q using 1(5) by (cases st rule: rev_cases) (auto simp: render_def)
      then have "norm_loop n (after_seg p) (pop_seg out) \<noteq> None"
        using 1(2) [OF False _ up q] 1(6) b sh up by (auto simp: needs_slash_def dest: in_set_butlastD)
      then show ?thesis using False up by (subst norm_loop.simps) simp
    next
      case empty
      have "norm_loop n (after_seg p) out \<noteq> None" using 1(4) [OF False _ _ _ 1(5,6)] b sh empty by simp
      then show ?thesis using False empty by (subst norm_loop.simps) simp
    next
      case seg
      note g = next_seg_good [OF seg(3)]
      have out': "push_seg n (next_seg p) out = Some (render (st @ [next_seg p], False))"
        unfolding 1(5) render_push [OF 1(6) g] using b sg 1(5) by simp
      have "length (render (st @ [next_seg p], False)) \<le> length out + needs_slash (st, t) + length (next_seg p)"
        unfolding 1(5) by (auto simp: render_def needs_slash_def)
      then have "norm_loop n (after_seg p) (render (st @ [next_seg p], False)) \<noteq> None"
        using 1(3) [OF False _ _ _ out' refl] 1(6) g b sg seg by (simp add: needs_slash_def split: if_splits)
      then show ?thesis using False seg out' by (subst norm_loop.simps) simp
    qed
  qed
qed

section \<open>Correctness\<close>

lemma root_render: "''/'' = render ([], False)"
  by (simp add: render_def)

lemma skip_slashes_shorter: "take 1 p = ''/'' \<Longrightarrow> length (skip_slashes p) < length p"
proof (cases p)
  case (Cons c q)
  assume "take 1 p = ''/''"
  then have "skip_slashes p = dropWhile (\<lambda>c. c = CHR ''/'') q" by (simp add: Cons skip_slashes_def)
  then show ?thesis using length_dropWhile_le [of "\<lambda>c. c = CHR ''/''" q] by (simp add: Cons)
qed simp

text \<open>(C17) For an absolute path that is shorter than the buffer, \<open>normalize_path\<close> succeeds and the
  result shows the components that remain after resolving \<open>.\<close> and \<open>..\<close> on a stack, joined by single
  slashes. A slash is left at the end exactly when the last change was a \<open>..\<close> and components remain.\<close>

theorem normalize_path_resolves:
  assumes "take 1 path = ''/''" "length path < out_len"
  shows "normalize_path path out_len =
    Some (length path > 1 \<and> last path = CHR ''/'', render (resolve_components (components path)))"
proof -
  let ?p = "skip_slashes path"
  have l: "length ?p < length path" by (rule skip_slashes_shorter [OF assms(1)])
  have "norm_loop out_len ?p ''/'' \<noteq> None"
    by (rule norm_loop_fits [OF root_render]) (use l assms(2) in \<open>auto simp: needs_slash_def\<close>)
  then obtain r where r: "norm_loop out_len ?p ''/'' = Some r" by blast
  have "r = render (foldl stack_step ([], False) (components ?p))"
    using norm_loop_Some [OF r root_render] l assms(2) by auto
  then show ?thesis
    using r l assms by (auto simp: normalize_path_def components_skip resolve_components_def)
qed

theorem normalize_path_resolves_witness:
  "normalize_path ''//usr/./bin/../lib/'' 64 = Some (True, ''/usr/lib'')"
  using normalize_path_resolves [of "''//usr/./bin/../lib/''" 64]
  by (simp add: components_def resolve_components_def stack_step_def render_def)

text \<open>(C33) The result of both functions together with its terminating NUL always fits the buffer.\<close>

theorem normalize_path_bounded:
  "pred_option (\<lambda>(_, out). length out < out_len) (normalize_path path out_len) \<and>
   pred_option (\<lambda>out. length out < out_len) (sys_normalize_path path out_len)"
  using norm_loop_Some [OF _ root_render, of out_len]
  by (auto simp: normalize_path_def sys_normalize_path_def Let_def pred_option_def split: if_splits)

lemma norm_loop_slash: "norm_loop n (CHR ''/'' # p) out = norm_loop n (skip_slashes p) out"
  by (subst norm_loop.simps) (simp add: next_seg_def after_seg_def skip_slashes_def)

lemma norm_loop_skip: "norm_loop n p out = norm_loop n (skip_slashes p) out"
proof (cases p)
  case (Cons c q)
  then show ?thesis
    by (cases "c = CHR ''/''") (auto simp: norm_loop_slash skip_slashes_def)
qed (simp add: skip_slashes_def)

text \<open>The two copies of the function agree on absolute paths.\<close>

theorem normalize_paths_agree:
  assumes "take 1 path = ''/''"
  shows "sys_normalize_path path out_len = map_option snd (normalize_path path out_len)"
proof -
  obtain q where q: "path = CHR ''/'' # q" using assms by (cases path) auto
  have "norm_loop out_len q ''/'' = norm_loop out_len (skip_slashes path) ''/''"
    using norm_loop_skip [of out_len q] by (simp add: q skip_slashes_def)
  then show ?thesis
    by (simp add: q sys_normalize_path_def normalize_path_def Let_def option.map_comp comp_def option.map_ident)
qed

theorem normalize_paths_agree_witness:
  "sys_normalize_path ''//a/../b'' 16 = Some ''/b''"
proof -
  have "normalize_path ''//a/../b'' 16 = Some (False, ''/b'')" by code_simp
  with normalize_paths_agree [of "''//a/../b''" 16] show ?thesis by simp
qed

text \<open>The result is not always normal: a path ending in \<open>..\<close> keeps a slash at the end, so it does
  not name the same file as the path of its directory, and normalising again changes it.\<close>

theorem normalize_path_trailing_slash:
  "normalize_path ''/bin/hello/x/..'' 128 = Some (False, ''/bin/hello/'') \<and>
   normalize_path ''/bin/hello/'' 128 = Some (True, ''/bin/hello'') \<and>
   sys_normalize_path ''/bin/hello/x/..'' 128 = Some ''/bin/hello/''"
  by code_simp

end
