(* ===== verification/Ata.thy ===== *)
theory Ata
  imports Kernel_Base
begin

text \<open>
  The disk driver, kernel/ata.c: detection of the disk and transfers of sectors by programmed I/O. The ports
  belong to the hardware; their reads and writes are functions on a state of the hardware, an argument of
  every operation. A driver gets its \<open>struct block_device\<close> and takes it for the \<open>struct ata_device\<close> that
  contains it, so the fields it uses are those of the memory at that address. After a failure the contents of the
  caller's buffer are not modelled; no caller looks at them.
\<close>

section \<open>Ports and devices\<close>

record 'h port_io =
  inb :: "u16 \<Rightarrow> 'h \<Rightarrow> u8 \<times> 'h"
  inw :: "u16 \<Rightarrow> 'h \<Rightarrow> u16 \<times> 'h"
  outb :: "u16 \<Rightarrow> u8 \<Rightarrow> 'h \<Rightarrow> 'h"
  outw :: "u16 \<Rightarrow> u16 \<Rightarrow> 'h \<Rightarrow> 'h"

text \<open>A block device: the address of its name, its geometry, and whether its two operations are set.\<close>

record block_device =
  dev_name :: u64
  sector_size :: u64
  sectors :: u64
  has_ops :: bool

record ata_device =
  ata_io :: u16
  ata_ctrl :: u16
  ata_drive :: u8
  ata_sectors :: u32

definition ATA_PRIMARY_IO :: u16 where "ATA_PRIMARY_IO = 0x1F0"
definition ATA_PRIMARY_CTRL :: u16 where "ATA_PRIMARY_CTRL = 0x3F6"
definition ATA_SR_ERR :: u8 where "ATA_SR_ERR = 0x01"
definition ATA_SR_DRQ :: u8 where "ATA_SR_DRQ = 0x08"
definition ATA_SR_DF :: u8 where "ATA_SR_DF = 0x20"
definition ATA_SR_BSY :: u8 where "ATA_SR_BSY = 0x80"

text \<open>The cast of the code: \<open>io\<close>, \<open>ctrl\<close> and \<open>drive\<close> are the bytes 0-1, 2-3 and 4 of the device, which are those of
  the name pointer, and \<open>sectors\<close> are the bytes 8-11, the low half of the sector size.\<close>

definition as_ata_device :: "block_device \<Rightarrow> ata_device" where
  "as_ata_device d =
     \<lparr>ata_io = ucast (dev_name d), ata_ctrl = ucast (drop_bit 16 (dev_name d)),
      ata_drive = ucast (drop_bit 32 (dev_name d)), ata_sectors = ucast (sector_size d)\<rparr>"

section \<open>Polling\<close>

fun wait_loop :: "'h port_io \<Rightarrow> u16 \<Rightarrow> nat \<Rightarrow> 'h \<Rightarrow> int \<times> 'h" where
  "wait_loop P io 0 h = (-1, h)"
| "wait_loop P io (Suc n) h =
     (case inb P (io + 7) h of (st, h1) \<Rightarrow> if st AND ATA_SR_BSY = 0 then (0, h1) else wait_loop P io n h1)"

definition ata_wait_not_bsy :: "'h port_io \<Rightarrow> u16 \<Rightarrow> 'h \<Rightarrow> int \<times> 'h" where
  "ata_wait_not_bsy P io h = wait_loop P io 100000 h"

fun busy_loop :: "'h port_io \<Rightarrow> u16 \<Rightarrow> nat \<Rightarrow> u8 \<Rightarrow> 'h \<Rightarrow> u8 \<times> 'h" where
  "busy_loop P io 0 status h = (status, h)"
| "busy_loop P io (Suc n) status h =
     (case inb P (io + 7) h of (st, h1) \<Rightarrow> if st AND ATA_SR_BSY = 0 then (st, h1) else busy_loop P io n st h1)"

fun drq_loop :: "'h port_io \<Rightarrow> u16 \<Rightarrow> nat \<Rightarrow> 'h \<Rightarrow> int \<times> 'h" where
  "drq_loop P io 0 h = (-1, h)"
| "drq_loop P io (Suc n) h =
     (case inb P (io + 7) h of (st, h1) \<Rightarrow>
        if st AND ATA_SR_DRQ \<noteq> 0 then (0, h1)
        else if st AND (ATA_SR_ERR OR ATA_SR_DF) \<noteq> 0 then (-1, h1)
        else drq_loop P io n h1)"

definition ata_poll :: "'h port_io \<Rightarrow> u16 \<Rightarrow> 'h \<Rightarrow> int \<times> 'h" where
  "ata_poll P io h =
     (case busy_loop P io 100000 0 h of (status, h1) \<Rightarrow>
        if status AND (ATA_SR_ERR OR ATA_SR_DF) \<noteq> 0 then (-1, h1) else drq_loop P io 100000 h1)"

section \<open>Transfers\<close>

fun in_words :: "'h port_io \<Rightarrow> u16 \<Rightarrow> nat \<Rightarrow> 'h \<Rightarrow> u16 list \<times> 'h" where
  "in_words P io 0 h = ([], h)"
| "in_words P io (Suc n) h =
     (case inw P io h of (w, h1) \<Rightarrow> case in_words P io n h1 of (ws, h2) \<Rightarrow> (w # ws, h2))"

fun out_words :: "'h port_io \<Rightarrow> u16 \<Rightarrow> u16 list \<Rightarrow> 'h \<Rightarrow> 'h" where
  "out_words P io [] h = h"
| "out_words P io (w # ws) h = out_words P io ws (outw P io w h)"

fun words_bytes :: "u16 list \<Rightarrow> u8 list" where
  "words_bytes [] = []"
| "words_bytes (w # ws) = ucast w # ucast (drop_bit 8 w) # words_bytes ws"

fun bytes_words :: "u8 list \<Rightarrow> u16 list" where
  "bytes_words (a # b # bs) = (ucast a OR push_bit 8 (ucast b)) # bytes_words bs"
| "bytes_words _ = []"

definition ata_identify :: "'h port_io \<Rightarrow> ata_device \<Rightarrow> 'h \<Rightarrow> ata_device option \<times> 'h" where
  "ata_identify P dev h =
     (let io = ata_io dev;
          h1 = outb P (io + 7) 0xEC (outb P (io + 5) 0 (outb P (io + 4) 0 (outb P (io + 3) 0 (outb P (io + 2) 0
                 (outb P (io + 6) (0xA0 OR push_bit 4 (ata_drive dev)) (outb P (ata_ctrl dev) 0x02 h))))))
      in case inb P (io + 7) h1 of (status, h2) \<Rightarrow>
        if status = 0 then (None, h2)
        else case ata_wait_not_bsy P io h2 of (r, h3) \<Rightarrow>
          if r \<noteq> 0 then (None, h3)
          else case inb P (io + 4) h3 of (mid, h4) \<Rightarrow> case inb P (io + 5) h4 of (high, h5) \<Rightarrow>
            if mid \<noteq> 0 \<or> high \<noteq> 0 then (None, h5)
            else case ata_poll P io h5 of (r2, h6) \<Rightarrow>
              if r2 \<noteq> 0 then (None, h6)
              else case in_words P io 256 h6 of (ws, h7) \<Rightarrow>
                (let n = ucast (ws ! 60) OR push_bit 16 (ucast (ws ! 61)) :: u32
                 in if n = 0 then (None, h7) else (Some (dev\<lparr>ata_sectors := n\<rparr>), h7)))"

text \<open>The commands that start a transfer of up to 255 sectors.\<close>

definition ata_command :: "'h port_io \<Rightarrow> ata_device \<Rightarrow> u8 \<Rightarrow> u64 \<Rightarrow> u8 \<Rightarrow> 'h \<Rightarrow> 'h" where
  "ata_command P dev cmd lba chunk h =
     (let io = ata_io dev
      in outb P (io + 7) cmd (outb P (io + 5) (ucast (drop_bit 16 lba)) (outb P (io + 4) (ucast (drop_bit 8 lba))
           (outb P (io + 3) (ucast lba) (outb P (io + 2) chunk
             (outb P (io + 6) (0xE0 OR push_bit 4 (ata_drive dev) OR (ucast (drop_bit 24 lba) AND 0x0F))
               (outb P (ata_ctrl dev) 0x02 h)))))))"

fun read_sectors :: "'h port_io \<Rightarrow> u16 \<Rightarrow> nat \<Rightarrow> 'h \<Rightarrow> u8 list option \<times> 'h" where
  "read_sectors P io 0 h = (Some [], h)"
| "read_sectors P io (Suc n) h =
     (case ata_poll P io h of (r, h1) \<Rightarrow>
        if r \<noteq> 0 then (None, h1)
        else case in_words P io 256 h1 of (ws, h2) \<Rightarrow>
          case read_sectors P io n h2 of (rest, h3) \<Rightarrow> (map_option ((@) (words_bytes ws)) rest, h3))"

fun write_sectors :: "'h port_io \<Rightarrow> u16 \<Rightarrow> nat \<Rightarrow> u8 list \<Rightarrow> 'h \<Rightarrow> bool \<times> 'h" where
  "write_sectors P io 0 src h = (True, h)"
| "write_sectors P io (Suc n) src h =
     (case ata_poll P io h of (r, h1) \<Rightarrow>
        if r \<noteq> 0 then (False, h1)
        else write_sectors P io n (drop 512 src) (out_words P io (bytes_words (take 512 src)) h1))"

definition chunk_of :: "u64 \<Rightarrow> u8" where "chunk_of count = (if count > 255 then 255 else ucast count)"

lemma chunk_of_pos: "count \<noteq> 0 \<Longrightarrow> unat (count - ucast (chunk_of count)) < unat count"
proof -
  assume c: "count \<noteq> 0"
  have "unat (ucast (chunk_of count) :: u64) = min 255 (unat count)"
  proof (cases "count > 255")
    case False
    then have "unat count < 256" by (simp add: word_less_nat_alt)
    then show ?thesis using False by (simp add: chunk_of_def unsigned_ucast_eq take_bit_eq_mod unat_mod)
  qed (simp add: chunk_of_def word_less_nat_alt)
  moreover have "0 < unat count" using c by (simp add: unat_gt_0)
  ultimately show ?thesis by (subst unat_sub) (simp_all add: word_le_nat_alt)
qed

function ata_read_loop :: "'h port_io \<Rightarrow> ata_device \<Rightarrow> u64 \<Rightarrow> u64 \<Rightarrow> u8 list \<Rightarrow> 'h \<Rightarrow> u8 list option \<times> 'h" where
  "ata_read_loop P dev lba count dst h =
     (if count = 0 then (Some dst, h)
      else let chunk = chunk_of count
      in case read_sectors P (ata_io dev) (unat chunk) (ata_command P dev 0x20 lba chunk h) of
           (None, h1) \<Rightarrow> (None, h1)
         | (Some bs, h1) \<Rightarrow> ata_read_loop P dev (lba + ucast chunk) (count - ucast chunk) (dst @ bs) h1)"
  by pat_completeness auto
termination by (relation "measure (\<lambda>(P, dev, lba, count, dst, h). unat count)") (auto intro: chunk_of_pos)

definition ata_read :: "'h port_io \<Rightarrow> block_device \<Rightarrow> u64 \<Rightarrow> u64 \<Rightarrow> 'h \<Rightarrow> u8 list option \<times> 'h" where
  "ata_read P bdev lba count h =
     (if count = 0 then (None, h)
      else let dev = as_ata_device bdev
      in if lba \<ge> ucast (ata_sectors dev) \<or> count > ucast (ata_sectors dev) - lba then (None, h)
      else ata_read_loop P dev lba count [] h)"

function ata_write_loop :: "'h port_io \<Rightarrow> ata_device \<Rightarrow> u64 \<Rightarrow> u64 \<Rightarrow> u8 list \<Rightarrow> 'h \<Rightarrow> bool \<times> 'h" where
  "ata_write_loop P dev lba count src h =
     (if count = 0 then (True, h)
      else let chunk = chunk_of count
      in case write_sectors P (ata_io dev) (unat chunk) src (ata_command P dev 0x30 lba chunk h) of
           (False, h1) \<Rightarrow> (False, h1)
         | (True, h1) \<Rightarrow>
             ata_write_loop P dev (lba + ucast chunk) (count - ucast chunk) (drop (512 * unat chunk) src)
               (snd (ata_wait_not_bsy P (ata_io dev) (outb P (ata_io dev + 7) 0xE7 h1))))"
  by pat_completeness auto
termination by (relation "measure (\<lambda>(P, dev, lba, count, src, h). unat count)") (auto intro: chunk_of_pos)

definition ata_write :: "'h port_io \<Rightarrow> block_device \<Rightarrow> u64 \<Rightarrow> u64 \<Rightarrow> u8 list \<Rightarrow> 'h \<Rightarrow> bool \<times> 'h" where
  "ata_write P bdev lba count src h =
     (if count = 0 then (False, h)
      else let dev = as_ata_device bdev
      in if lba \<ge> ucast (ata_sectors dev) \<or> count > ucast (ata_sectors dev) - lba then (False, h)
      else ata_write_loop P dev lba count src h)"

text \<open>Detection; \<open>name\<close> is the address of the string \<open>"ata0"\<close>.\<close>

definition ata_init :: "'h port_io \<Rightarrow> u64 \<Rightarrow> 'h \<Rightarrow> block_device option \<times> 'h" where
  "ata_init P name h =
     (case ata_identify P \<lparr>ata_io = ATA_PRIMARY_IO, ata_ctrl = ATA_PRIMARY_CTRL, ata_drive = 0, ata_sectors = 0\<rparr> h of
        (None, h1) \<Rightarrow> (None, h1)
      | (Some a, h1) \<Rightarrow> (Some \<lparr>dev_name = name, sector_size = 512, sectors = ucast (ata_sectors a), has_ops = True\<rparr>, h1))"

declare ata_read_loop.simps [simp del] ata_write_loop.simps [simp del]

section \<open>The device the driver works on\<close>

text \<open>(C39) The driver does not reach the disk it has found. The device that detection hands to the block
  layer is taken for the structure around it: whatever the disk reports, the driver believes that it has 512
  sectors, refuses every transfer from sector 512 on without touching the hardware, and addresses ports whose numbers are
  bytes of the name pointer.\<close>

theorem ata_driver_misreads_device:
  assumes "ata_init P name h = (Some d, h1)"
  shows "as_ata_device d = \<lparr>ata_io = ucast name, ata_ctrl = ucast (drop_bit 16 name), ata_drive = ucast (drop_bit 32 name), ata_sectors = 512\<rparr> \<and>
    (\<forall>lba count src h. 512 \<le> lba \<longrightarrow> ata_read P d lba count h = (None, h) \<and> ata_write P d lba count src h = (False, h))"
proof -
  have d: "dev_name d = name" "sector_size d = 512"
    using assms by (auto simp: ata_init_def split: prod.splits option.splits)
  then have a: "as_ata_device d = \<lparr>ata_io = ucast name, ata_ctrl = ucast (drop_bit 16 name), ata_drive = ucast (drop_bit 32 name), ata_sectors = 512\<rparr>"
    by (simp add: as_ata_device_def)
  show ?thesis by (simp add: a ata_read_def ata_write_def Let_def)
qed

text \<open>A disk that is always ready and answers every word with 7: it reports 0x70007 sectors.\<close>

definition ready_disk :: "unit port_io" where
  "ready_disk = \<lparr>inb = (\<lambda>p h. (if p = 0x1F7 then 8 else 0, h)), inw = (\<lambda>_ h. (7, h)), outb = (\<lambda>_ _ h. h), outw = (\<lambda>_ _ h. h)\<rparr>"

lemma ready_disk_ports [simp]:
  "inb ready_disk p h = (if p = 0x1F7 then 8 else 0, h)" "inw ready_disk p h = (7, h)" "outb ready_disk p b h = h"
  by (simp_all add: ready_disk_def)

lemma ready_disk_loops:
  "wait_loop ready_disk 0x1F0 (Suc n) h = (0, h)" "busy_loop ready_disk 0x1F0 (Suc n) st h = (8, h)"
  "drq_loop ready_disk 0x1F0 (Suc n) h = (0, h)"
  by (simp_all add: ATA_SR_BSY_def ATA_SR_ERR_def ATA_SR_DF_def ATA_SR_DRQ_def)

lemma ready_disk_poll: "ata_poll ready_disk 0x1F0 h = (0, h)" "ata_wait_not_bsy ready_disk 0x1F0 h = (0, h)"
  using ready_disk_loops [of 99999] by (simp_all add: ata_poll_def ata_wait_not_bsy_def ATA_SR_ERR_def ATA_SR_DF_def)

lemma ready_disk_words: "in_words ready_disk io n h = (replicate n 7, h)"
  by (induction n) simp_all

lemma ready_disk_found:
  "ata_init ready_disk 0xFFFFFFFF80123456 () =
     (Some \<lparr>dev_name = 0xFFFFFFFF80123456, sector_size = 512, sectors = 0x70007, has_ops = True\<rparr>, ())"
  unfolding ata_init_def ata_identify_def Let_def
  by (simp add: ready_disk_poll ready_disk_words ATA_PRIMARY_IO_def)

theorem ata_driver_misreads_device_witness:
  "\<exists>d. ata_init ready_disk 0xFFFFFFFF80123456 () = (Some d, ()) \<and> sectors d = 0x70007 \<and>
     ata_io (as_ata_device d) = 0x3456 \<and> ata_read ready_disk d 600 1 () = (None, ())"
  using ata_driver_misreads_device [OF ready_disk_found] by (simp add: ready_disk_found)

end
