(* ===== verification/Block.thy ===== *)
theory Block
  imports Ata
begin

text \<open>
  Block devices, kernel/block.c: the RAM disk with its initial FAT volume, the disk of the driver, and the cache of
  single sectors in front of both. The two devices are the statics the code takes the addresses of. The contents
  of the RAM disk are a memory of bytes.
\<close>

section \<open>State\<close>

definition RAMDISK_SECTORS :: u64 where "RAMDISK_SECTORS = 8192"
definition RAMDISK_SECTOR_SIZE :: u64 where "RAMDISK_SECTOR_SIZE = 512"
definition BLOCK_CACHE_ENTRIES :: u64 where "BLOCK_CACHE_ENTRIES = 16"

datatype dev_ref = Ramdisk | Ata_disk

record block_cache_entry =
  ce_dev :: "dev_ref option"
  ce_lba :: u64
  ce_data :: "u8 list"
  ce_valid :: bool

record 'h block =
  hw :: 'h
  ramdisk_data :: "u64 \<Rightarrow> u8"
  ramdisk_dev :: block_device
  ata_dev :: block_device
  default_dev :: "dev_ref option"
  block_cache :: "block_cache_entry list"

definition device :: "dev_ref \<Rightarrow> 'h block \<Rightarrow> block_device" where
  "device d b = (case d of Ramdisk \<Rightarrow> ramdisk_dev b | Ata_disk \<Rightarrow> ata_dev b)"

section \<open>The cache\<close>

definition block_cache_reset :: "'h block \<Rightarrow> 'h block" where
  "block_cache_reset b = b\<lparr>block_cache := map (\<lambda>e. e\<lparr>ce_dev := None, ce_lba := 0, ce_valid := False\<rparr>) (block_cache b)\<rparr>"

definition cache_index :: "u64 \<Rightarrow> nat" where "cache_index lba = unat (lba mod BLOCK_CACHE_ENTRIES)"

definition block_cache_lookup :: "dev_ref \<Rightarrow> u64 \<Rightarrow> 'h block \<Rightarrow> block_cache_entry option" where
  "block_cache_lookup d lba b =
     (let entry = block_cache b ! cache_index lba
      in if ce_valid entry \<and> ce_dev entry = Some d \<and> ce_lba entry = lba then Some entry else None)"

definition block_cache_store :: "dev_ref \<Rightarrow> u64 \<Rightarrow> u8 list \<Rightarrow> 'h block \<Rightarrow> 'h block" where
  "block_cache_store d lba buf b =
     b\<lparr>block_cache := (block_cache b)[cache_index lba :=
         \<lparr>ce_dev = Some d, ce_lba = lba, ce_data = take 512 buf, ce_valid = True\<rparr>]\<rparr>"

section \<open>The RAM disk\<close>

text \<open>The size of the allocation table is found by iteration.\<close>

definition seed_needed :: "u16 \<Rightarrow> u16" where
  "seed_needed fat_size =
     (let root_dir_sectors = (128 * 32 + 512 - 1) div 512 :: u32;
          data_sectors = 8192 - 1 - 1 * ucast fat_size - root_dir_sectors;
          clusters = data_sectors div 1
      in ucast (((clusters + 2) * 2 + 512 - 1) div 512))"

partial_function (option) seed_loop :: "u16 \<Rightarrow> u16 option" where
  "seed_loop fat_size = (let needed = seed_needed fat_size in if needed = fat_size then Some fat_size else seed_loop needed)"

declare seed_loop.simps [code]

definition seed_boot :: "u16 \<Rightarrow> u8 list" where
  "seed_boot fat_size =
     [0xEB, 0x3C, 0x90] @ map of_char ''NEPTUNEO'' @ [0, 2, 1, 1, 0, 1, 128, 0, 0, 0x20, 0xF8] @
     [ucast fat_size, ucast (drop_bit 8 fat_size), 1, 0, 1] @ replicate 9 0 @ [0x29, 0, 0] @
     map of_char ''NEPTUNEOS   FAT16   '' @ replicate 451 0 @ [0x55, 0xAA]"

definition seed_root :: "u8 list" where
  "seed_root = map of_char ''README  TXT'' @ [0x20] @ replicate 14 0 @ [2, 0, 0x1A, 0]"

definition seed_message :: "u8 list" where
  "seed_message = map of_char ''NeptuneOS FAT16 volume'' @ [0x5C, 0x6E]"

definition ramdisk_seed_fat16 :: "(u64 \<Rightarrow> u8) run" where
  "ramdisk_seed_fat16 =
     bind_run (loop_run (seed_loop 1)) (\<lambda>fat_size.
       let fat_start = 512; root_start = (1 + ucast fat_size) * 512; data_start = (1 + ucast fat_size + 8) * 512
       in Ret (wr_bytes (wr_bytes (wr_bytes (wr_bytes (\<lambda>_. 0) 0 (seed_boot fat_size))
                 fat_start [0xF8, 0xFF, 0xFF, 0xFF, 0xFF, 0xFF]) root_start seed_root) data_start seed_message))"

definition ramdisk_read :: "u64 \<Rightarrow> u64 \<Rightarrow> 'h block \<Rightarrow> u8 list option" where
  "ramdisk_read lba count b =
     (let dev = ramdisk_dev b
      in if count = 0 then None
      else if lba \<ge> sectors dev \<or> count > sectors dev - lba then None
      else Some (rd_bytes (ramdisk_data b) (lba * sector_size dev) (unat (count * sector_size dev))))"

definition ramdisk_write :: "u64 \<Rightarrow> u64 \<Rightarrow> u8 list \<Rightarrow> 'h block \<Rightarrow> bool \<times> 'h block" where
  "ramdisk_write lba count src b =
     (let dev = ramdisk_dev b
      in if count = 0 then (False, b)
      else if lba \<ge> sectors dev \<or> count > sectors dev - lba then (False, b)
      else (True, b\<lparr>ramdisk_data := wr_bytes (ramdisk_data b) (lba * sector_size dev) (take (unat (count * sector_size dev)) src)\<rparr>))"

section \<open>Interface\<close>

text \<open>The calls through the function pointers of a device.\<close>

definition dev_read :: "'h port_io \<Rightarrow> dev_ref \<Rightarrow> u64 \<Rightarrow> u64 \<Rightarrow> 'h block \<Rightarrow> u8 list option \<times> 'h block" where
  "dev_read P d lba count b =
     (case d of
        Ramdisk \<Rightarrow> (ramdisk_read lba count b, b)
      | Ata_disk \<Rightarrow> (case ata_read P (ata_dev b) lba count (hw b) of (r, h) \<Rightarrow> (r, b\<lparr>hw := h\<rparr>)))"

definition dev_write :: "'h port_io \<Rightarrow> dev_ref \<Rightarrow> u64 \<Rightarrow> u64 \<Rightarrow> u8 list \<Rightarrow> 'h block \<Rightarrow> bool \<times> 'h block" where
  "dev_write P d lba count src b =
     (case d of
        Ramdisk \<Rightarrow> ramdisk_write lba count src b
      | Ata_disk \<Rightarrow> (case ata_write P (ata_dev b) lba count src (hw b) of (r, h) \<Rightarrow> (r, b\<lparr>hw := h\<rparr>)))"

definition block_read :: "'h port_io \<Rightarrow> dev_ref \<Rightarrow> u64 \<Rightarrow> u64 \<Rightarrow> 'h block \<Rightarrow> u8 list option \<times> 'h block" where
  "block_read P d lba count b =
     (if \<not> has_ops (device d b) then (None, b)
      else case (if count = 1 then block_cache_lookup d lba b else None) of
        Some cached \<Rightarrow> (Some (ce_data cached), b)
      | None \<Rightarrow>
          (case dev_read P d lba count b of
             (None, b1) \<Rightarrow> (None, b1)
           | (Some buf, b1) \<Rightarrow> (Some buf, if count = 1 then block_cache_store d lba buf b1 else b1)))"

definition block_write :: "'h port_io \<Rightarrow> dev_ref \<Rightarrow> u64 \<Rightarrow> u64 \<Rightarrow> u8 list \<Rightarrow> 'h block \<Rightarrow> bool \<times> 'h block" where
  "block_write P d lba count buf b =
     (if \<not> has_ops (device d b) then (False, b)
      else case dev_write P d lba count buf b of
        (r, b1) \<Rightarrow> (r, if r \<and> count = 1 then block_cache_store d lba buf b1 else b1))"

definition block_init :: "'h port_io \<Rightarrow> u64 \<Rightarrow> u64 \<Rightarrow> 'h block \<Rightarrow> 'h block run" where
  "block_init P ram_name ata_name b =
     bind_run ramdisk_seed_fat16 (\<lambda>m.
       let b1 = block_cache_reset (b\<lparr>ramdisk_dev := \<lparr>dev_name = ram_name, sector_size = RAMDISK_SECTOR_SIZE, sectors = RAMDISK_SECTORS, has_ops = True\<rparr>,
                  ramdisk_data := m, default_dev := Some Ramdisk\<rparr>)
       in case ata_init P ata_name (hw b1) of
            (None, h) \<Rightarrow> Ret (b1\<lparr>hw := h\<rparr>)
          | (Some d, h) \<Rightarrow> Ret (block_cache_reset (b1\<lparr>hw := h, ata_dev := d, default_dev := Some Ata_disk\<rparr>)))"

definition block_get_default :: "'h block \<Rightarrow> dev_ref option" where "block_get_default b = default_dev b"

definition block_get_ramdisk :: "'h block \<Rightarrow> dev_ref" where "block_get_ramdisk b = Ramdisk"

definition block_set_default :: "dev_ref option \<Rightarrow> 'h block \<Rightarrow> 'h block" where
  "block_set_default d b = (case d of None \<Rightarrow> b | Some _ \<Rightarrow> block_cache_reset (b\<lparr>default_dev := d\<rparr>))"

text \<open>The statics before \<open>block_init\<close>.\<close>

definition block_zero :: "'h \<Rightarrow> 'h block" where
  "block_zero h =
     (let d = \<lparr>dev_name = 0, sector_size = 0, sectors = 0, has_ops = False\<rparr>
      in \<lparr>hw = h, ramdisk_data = (\<lambda>_. 0), ramdisk_dev = d, ata_dev = d, default_dev = None,
          block_cache = replicate 16 \<lparr>ce_dev = None, ce_lba = 0, ce_data = replicate 512 0, ce_valid = False\<rparr>\<rparr>)"

section \<open>Sectors\<close>

text \<open>What a client relies on: a device of 512-byte sectors, where a write changes one sector and nothing else
  changes any.\<close>

locale sector_store =
  fixes rd :: "u64 \<Rightarrow> 's \<Rightarrow> u8 list option \<times> 's"
    and wr :: "u64 \<Rightarrow> u8 list \<Rightarrow> 's \<Rightarrow> bool \<times> 's"
    and cont :: "'s \<Rightarrow> u64 \<Rightarrow> u8 list option"
    and ok :: "'s \<Rightarrow> bool"
  assumes rd: "ok s \<Longrightarrow> fst (rd lba s) = cont s lba" "ok s \<Longrightarrow> cont (snd (rd lba s)) = cont s" "ok s \<Longrightarrow> ok (snd (rd lba s))"
    and wr: "ok s \<Longrightarrow> length bs = 512 \<Longrightarrow> fst (wr lba bs s) \<longleftrightarrow> cont s lba \<noteq> None"
      "ok s \<Longrightarrow> length bs = 512 \<Longrightarrow> cont (snd (wr lba bs s)) = (if cont s lba = None then cont s else (cont s)(lba \<mapsto> bs))"
      "ok s \<Longrightarrow> length bs = 512 \<Longrightarrow> ok (snd (wr lba bs s))"
    and sector_length: "ok s \<Longrightarrow> cont s lba = Some bs \<Longrightarrow> length bs = 512"

text \<open>A sequence of operations, on an implementation and on a plain map of sectors.\<close>

datatype sector_op = Read_sector u64 | Write_sector u64 "u8 list"

fun run_ops :: "(u64 \<Rightarrow> 's \<Rightarrow> u8 list option \<times> 's) \<Rightarrow> (u64 \<Rightarrow> u8 list \<Rightarrow> 's \<Rightarrow> bool \<times> 's) \<Rightarrow> sector_op list \<Rightarrow> 's \<Rightarrow> (u8 list option + bool) list" where
  "run_ops rd wr [] s = []"
| "run_ops rd wr (Read_sector lba # ops) s = Inl (fst (rd lba s)) # run_ops rd wr ops (snd (rd lba s))"
| "run_ops rd wr (Write_sector lba bs # ops) s = Inr (fst (wr lba bs s)) # run_ops rd wr ops (snd (wr lba bs s))"

definition map_read :: "u64 \<Rightarrow> (u64 \<Rightarrow> u8 list option) \<Rightarrow> u8 list option \<times> (u64 \<Rightarrow> u8 list option)" where
  "map_read lba m = (m lba, m)"

definition map_write :: "u64 \<Rightarrow> u8 list \<Rightarrow> (u64 \<Rightarrow> u8 list option) \<Rightarrow> bool \<times> (u64 \<Rightarrow> u8 list option)" where
  "map_write lba bs m = (if m lba = None then (False, m) else (True, m(lba \<mapsto> bs)))"

fun op_ok :: "sector_op \<Rightarrow> bool" where
  "op_ok (Read_sector lba) = True"
| "op_ok (Write_sector lba bs) = (length bs = 512)"

context sector_store
begin

lemma run_refines:
  "ok s \<Longrightarrow> list_all op_ok ops \<Longrightarrow> run_ops rd wr ops s = run_ops map_read map_write ops (cont s)"
proof (induction ops arbitrary: s)
  case (Cons o1 ops)
  show ?case
  proof (cases o1)
    case (Read_sector lba)
    then show ?thesis using Cons rd by (simp add: map_read_def)
  next
    case (Write_sector lba bs)
    then have "length bs = 512" using Cons.prems by simp
    with Cons Write_sector wr show ?thesis by (simp add: map_write_def)
  qed
qed simp

end

text \<open>The RAM disk as a map of sectors, and agreement of the cache with it.\<close>

definition ramdisk_sectors :: "'h block \<Rightarrow> u64 \<Rightarrow> u8 list option" where
  "ramdisk_sectors b lba = (if lba < RAMDISK_SECTORS then Some (rd_bytes (ramdisk_data b) (lba * 512) 512) else None)"

definition entry_ok :: "'h block \<Rightarrow> nat \<Rightarrow> bool" where
  "entry_ok b i \<longleftrightarrow> (let e = block_cache b ! i in
     ce_valid e \<longrightarrow> cache_index (ce_lba e) = i \<and> (ce_dev e = Some Ramdisk \<longrightarrow> ramdisk_sectors b (ce_lba e) = Some (ce_data e)))"

definition cache_ok :: "'h block \<Rightarrow> bool" where
  "cache_ok b \<longleftrightarrow> sectors (ramdisk_dev b) = RAMDISK_SECTORS \<and> sector_size (ramdisk_dev b) = RAMDISK_SECTOR_SIZE \<and> has_ops (ramdisk_dev b) \<and>
     length (block_cache b) = 16 \<and> (\<forall>i<16. entry_ok b i)"

lemma cache_index_lt: "cache_index lba < 16"
  by (simp add: cache_index_def BLOCK_CACHE_ENTRIES_def unat_mod)

lemma ramdisk_single:
  assumes "cache_ok b"
  shows "ramdisk_read lba 1 b = ramdisk_sectors b lba"
    "ramdisk_write lba 1 bs b = (if lba < RAMDISK_SECTORS then (True, b\<lparr>ramdisk_data := wr_bytes (ramdisk_data b) (lba * 512) (take 512 bs)\<rparr>) else (False, b))"
proof -
  have g: "sectors (ramdisk_dev b) = 8192" "sector_size (ramdisk_dev b) = 512"
    using assms by (simp_all add: cache_ok_def RAMDISK_SECTORS_def RAMDISK_SECTOR_SIZE_def)
  have "\<not> 1 > 8192 - lba" if "lba < 8192"
  proof -
    have "unat (8192 - lba) = 8192 - unat lba" using that by (subst unat_sub) (simp_all add: word_le_nat_alt word_less_nat_alt)
    then show ?thesis using that by (simp add: word_less_nat_alt)
  qed
  then show "ramdisk_read lba 1 b = ramdisk_sectors b lba"
    "ramdisk_write lba 1 bs b = (if lba < RAMDISK_SECTORS then (True, b\<lparr>ramdisk_data := wr_bytes (ramdisk_data b) (lba * 512) (take 512 bs)\<rparr>) else (False, b))"
    using g by (auto simp: ramdisk_read_def ramdisk_write_def ramdisk_sectors_def RAMDISK_SECTORS_def Let_def)
qed

text \<open>Writing one sector.\<close>

lemma ramdisk_sectors_write:
  assumes "lba < RAMDISK_SECTORS" "length bs = 512"
  shows "ramdisk_sectors (b\<lparr>ramdisk_data := wr_bytes (ramdisk_data b) (lba * 512) bs\<rparr>) = (ramdisk_sectors b)(lba \<mapsto> bs)"
proof
  fix x
  have u: "unat (y * 512) = unat y * 512" if "y < RAMDISK_SECTORS" for y :: u64
    using that by (subst unat_mult_no_wrap) (simp_all add: RAMDISK_SECTORS_def word_less_nat_alt)
  have lt: "unat lba < 8192" using assms(1) by (simp add: RAMDISK_SECTORS_def word_less_nat_alt)
  show "ramdisk_sectors (b\<lparr>ramdisk_data := wr_bytes (ramdisk_data b) (lba * 512) bs\<rparr>) x = ((ramdisk_sectors b)(lba \<mapsto> bs)) x"
  proof (cases "x < RAMDISK_SECTORS \<and> x \<noteq> lba")
    case True
    then have x: "unat x < 8192" "unat x \<noteq> unat lba" by (simp_all add: RAMDISK_SECTORS_def word_less_nat_alt word_eq_unat)
    have e: "unat (lba * 512) = unat lba * 512" "unat (x * 512) = unat x * 512" using assms(1) True u by blast+
    have d: "unat x * 512 + 512 \<le> unat lba * 512 \<or> unat lba * 512 + 512 \<le> unat x * 512" using x(2) by linarith
    have "rd_bytes (wr_bytes (ramdisk_data b) (lba * 512) bs) (x * 512) 512 = rd_bytes (ramdisk_data b) (x * 512) 512"
    proof (rule rd_bytes_outside)
      show "unat (lba * 512) + length bs \<le> 2 ^ 64" unfolding e assms(2) using lt by simp
      show "unat (x * 512) + 512 \<le> 2 ^ 64" unfolding e using x(1) by simp
      show "unat (x * 512) + 512 \<le> unat (lba * 512) \<or> unat (lba * 512) + length bs \<le> unat (x * 512)" unfolding e assms(2) by (rule d)
    qed
    then show ?thesis using True by (simp add: ramdisk_sectors_def)
  next
    case False
    have "rd_bytes (wr_bytes (ramdisk_data b) (lba * 512) bs) (lba * 512) 512 = bs"
      by (rule rd_wr_bytes [of bs, unfolded assms(2)]) simp
    with False assms(1) show ?thesis unfolding ramdisk_sectors_def by (cases "x = lba") simp_all
  qed
qed

lemma block_cache_store_sectors [simp]: "ramdisk_sectors (block_cache_store d lba bs b) = ramdisk_sectors b"
  by (simp add: block_cache_store_def ramdisk_sectors_def fun_eq_iff)

text \<open>Storing the contents of a sector keeps the cache in agreement, also when the disk has just changed there.\<close>

lemma cache_ok_store:
  assumes ok: "cache_ok b0" and b: "block_cache b = block_cache b0" "ramdisk_dev b = ramdisk_dev b0"
    and s: "\<forall>x. x \<noteq> lba \<longrightarrow> ramdisk_sectors b x = ramdisk_sectors b0 x" "ramdisk_sectors b lba = Some bs" and l: "length bs = 512"
  shows "cache_ok (block_cache_store Ramdisk lba bs b)"
proof -
  have "entry_ok (block_cache_store Ramdisk lba bs b) i" if i: "i < 16" for i
  proof (cases "i = cache_index lba")
    case True
    then show ?thesis using ok b s(2) l i
      by (simp add: entry_ok_def block_cache_store_def cache_ok_def Let_def ramdisk_sectors_def split: if_splits)
  next
    case False
    have e: "entry_ok b0 i" using ok i by (simp add: cache_ok_def)
    let ?e = "block_cache b0 ! i"
    have "ce_lba ?e \<noteq> lba" if "ce_valid ?e" using e that False by (auto simp: entry_ok_def Let_def)
    then show ?thesis using e False b s(1) by (auto simp: entry_ok_def Let_def block_cache_store_def ramdisk_sectors_def)
  qed
  then show ?thesis using ok b by (simp add: cache_ok_def block_cache_store_def)
qed

lemma block_cache_hit:
  assumes "cache_ok b" "block_cache_lookup Ramdisk lba b = Some e"
  shows "ramdisk_sectors b lba = Some (ce_data e)"
  using assms cache_index_lt [of lba] by (auto simp: block_cache_lookup_def cache_ok_def entry_ok_def Let_def split: if_splits)

lemma block_read_ramdisk:
  assumes "cache_ok b"
  shows "fst (block_read P Ramdisk lba 1 b) = ramdisk_sectors b lba \<and>
    ramdisk_sectors (snd (block_read P Ramdisk lba 1 b)) = ramdisk_sectors b \<and> cache_ok (snd (block_read P Ramdisk lba 1 b))"
proof -
  have h: "has_ops (device Ramdisk b)" using assms by (simp add: device_def cache_ok_def)
  show ?thesis
  proof (cases "block_cache_lookup Ramdisk lba b")
    case (Some e)
    then show ?thesis using h assms block_cache_hit [OF assms Some] by (simp add: block_read_def)
  next
    case None
    have "cache_ok (block_cache_store Ramdisk lba bs b)" if "ramdisk_sectors b lba = Some bs" for bs
      by (rule cache_ok_store [OF assms]) (use that in \<open>auto simp: ramdisk_sectors_def split: if_splits\<close>)
    then show ?thesis using None h assms by (simp add: block_read_def dev_read_def ramdisk_single split: option.splits)
  qed
qed

lemma block_write_ramdisk:
  assumes "cache_ok b" "length bs = 512"
  shows "(fst (block_write P Ramdisk lba 1 bs b) \<longleftrightarrow> ramdisk_sectors b lba \<noteq> None) \<and>
    ramdisk_sectors (snd (block_write P Ramdisk lba 1 bs b)) =
      (if ramdisk_sectors b lba = None then ramdisk_sectors b else (ramdisk_sectors b)(lba \<mapsto> bs)) \<and>
    cache_ok (snd (block_write P Ramdisk lba 1 bs b))"
proof (cases "lba < RAMDISK_SECTORS")
  case True
  let ?b = "b\<lparr>ramdisk_data := wr_bytes (ramdisk_data b) (lba * 512) bs\<rparr>"
  have h: "has_ops (device Ramdisk b)" using assms by (simp add: device_def cache_ok_def)
  have w: "block_write P Ramdisk lba 1 bs b = (True, block_cache_store Ramdisk lba bs ?b)"
    using True h assms by (simp add: block_write_def dev_write_def ramdisk_single)
  have s: "ramdisk_sectors ?b = (ramdisk_sectors b)(lba \<mapsto> bs)" by (rule ramdisk_sectors_write [OF True assms(2)])
  have "cache_ok (block_cache_store Ramdisk lba bs ?b)" by (rule cache_ok_store [OF assms(1)]) (simp_all add: s assms(2))
  moreover have "ramdisk_sectors b lba \<noteq> None" using True by (simp add: ramdisk_sectors_def)
  ultimately show ?thesis unfolding w using s by auto
next
  case False
  have h: "has_ops (device Ramdisk b)" using assms by (simp add: device_def cache_ok_def)
  have "block_write P Ramdisk lba 1 bs b = (False, b)"
    using False h assms by (simp add: block_write_def dev_write_def ramdisk_single)
  then show ?thesis using False assms(1) by (simp add: ramdisk_sectors_def)
qed

interpretation ramdisk: sector_store "\<lambda>lba. block_read P Ramdisk lba 1" "\<lambda>lba. block_write P Ramdisk lba 1" ramdisk_sectors cache_ok
  for P :: "'h port_io"
proof
  fix b :: "'h block" and lba :: u64 and bs :: "u8 list"
  show "length bs = 512" if "cache_ok b" "ramdisk_sectors b lba = Some bs"
    using that by (auto simp: ramdisk_sectors_def split: if_splits)
qed (simp_all add: block_read_ramdisk block_write_ramdisk)

text \<open>(C18) The sector cache is transparent. Any sequence of single-sector reads and writes of the RAM disk
  through the cache delivers the same results as on a plain map of sectors.\<close>

theorem block_cache_transparent:
  assumes "cache_ok b" "list_all op_ok ops"
  shows "run_ops (\<lambda>lba. block_read P Ramdisk lba 1) (\<lambda>lba. block_write P Ramdisk lba 1) ops b =
    run_ops map_read map_write ops (ramdisk_sectors b)"
  by (rule ramdisk.run_refines [OF assms])

text \<open>The initial volume: the iteration for the size of the table ends with 32 sectors, and the RAM disk is ready.\<close>

lemma seed_loop_32: "seed_loop 1 = Some 32"
proof -
  have n: "seed_needed 1 = 32" "seed_needed 32 = 32" by (simp_all add: seed_needed_def)
  show ?thesis by (subst seed_loop.simps, subst seed_loop.simps) (simp add: n)
qed

lemma block_init_ready:
  assumes "length (block_cache b) = 16"
  shows "\<exists>b'. block_init P rn an b = Ret b' \<and> cache_ok b' \<and> default_dev b' \<noteq> None \<and>
    ramdisk_sectors b' = ramdisk_sectors (b\<lparr>ramdisk_data := the (ret_val ramdisk_seed_fat16)\<rparr>)"
proof -
  obtain m where m: "ramdisk_seed_fat16 = Ret m" by (simp add: ramdisk_seed_fat16_def seed_loop_32 Let_def)
  show ?thesis using assms
    by (auto simp: block_init_def m Let_def cache_ok_def block_cache_reset_def ramdisk_sectors_def fun_eq_iff entry_ok_def
        split: prod.splits option.splits)
qed

theorem block_cache_transparent_witness:
  "\<exists>b. block_init ready_disk 1 2 (block_zero ()) = Ret b \<and>
     run_ops (\<lambda>lba. block_read ready_disk Ramdisk lba 1) (\<lambda>lba. block_write ready_disk Ramdisk lba 1)
       [Write_sector 21 (replicate 512 7), Read_sector 5, Write_sector 5 (replicate 512 9), Read_sector 21, Read_sector 9000] b =
     [Inr True, Inl (ramdisk_sectors b 5), Inr True, Inl (Some (replicate 512 7)), Inl None]"
proof -
  have "length (block_cache (block_zero ())) = 16" by (simp add: block_zero_def Let_def)
  from block_init_ready [OF this, of ready_disk 1 2] obtain b where b: "block_init ready_disk 1 2 (block_zero ()) = Ret b" "cache_ok b"
    by blast
  let ?ops = "[Write_sector 21 (replicate 512 7), Read_sector 5, Write_sector 5 (replicate 512 9), Read_sector 21, Read_sector 9000]"
  have "list_all op_ok ?ops" by simp
  from block_cache_transparent [OF b(2) this, of ready_disk] b(1) show ?thesis
    by (intro exI [of _ b]) (simp add: map_read_def map_write_def ramdisk_sectors_def RAMDISK_SECTORS_def)
qed

text \<open>Writes of several sectors bypass the cache: a sector that is cached keeps its old contents for readers.\<close>

theorem block_write_leaves_stale:
  assumes c: "cache_ok b" "block_read P Ramdisk lba 1 b = (Some old, b1)" and w: "block_write P Ramdisk lba 2 bs b1 = (True, b2)"
  shows "fst (block_read P Ramdisk lba 1 b2) = Some old"
proof -
  have h: "has_ops (device Ramdisk b)" and n: "length (block_cache b) = 16" using c(1) by (simp_all add: device_def cache_ok_def)
  have l: "length old = 512" using ramdisk.sector_length [of b lba old] ramdisk.rd(1) [OF c(1), of P lba] c by simp
  have "has_ops (device Ramdisk b1) \<and> (\<exists>e. block_cache_lookup Ramdisk lba b1 = Some e \<and> ce_data e = old)"
    using c(2) h n l cache_index_lt [of lba]
    by (auto simp: block_read_def dev_read_def device_def block_cache_lookup_def block_cache_store_def Let_def split: option.splits if_splits)
  moreover have "block_cache b2 = block_cache b1" "ramdisk_dev b2 = ramdisk_dev b1"
    using w by (auto simp: block_write_def dev_write_def ramdisk_write_def Let_def split: if_splits)
  ultimately show ?thesis by (auto simp: block_read_def device_def block_cache_lookup_def Let_def split: if_splits)
qed

end
