(* ===== verification/Fat.thy ===== *)
theory Fat
  imports Block
begin

text \<open>
  The FAT16 file system, kernel/fat.c: clusters chained through the allocation table, directories of 32-byte
  entries with 8.3 names, reading, writing with growth, creation of files and directories, and listings. The
  description of the mounted volume, the static \<open>fat\<close>, is an argument \<open>F\<close> of the operations; what they change is the
  state of the block layer. Loops along a chain of clusters can run for ever on a damaged volume: they are
  partial functions, and an operation that does not return has the outcome \<open>Hang\<close>.
\<close>

section \<open>State\<close>

definition FAT16_MIN_CLUSTERS :: u32 where "FAT16_MIN_CLUSTERS = 4085"
definition FAT16_EOC :: u16 where "FAT16_EOC = 0xFFF8"

record fat_state =
  fat_dev :: dev_ref
  bytes_per_sector :: u16
  sectors_per_cluster :: u8
  reserved_sectors :: u16
  fat_count :: u8
  root_entries :: u16
  fat_size :: u16
  total_sectors :: u32
  root_dir_sectors :: u32
  fat_start :: u32
  root_start :: u32
  data_start :: u32
  cluster_count :: u32
  fat_ready :: bool

record fat_file =
  start_cluster :: u32
  file_size :: u32
  dir_sector :: u32
  dir_offset :: u16
  is_dir :: bool
  attr :: u8

record dir_loc =
  loc_sector :: u32
  loc_offset :: u16

definition read_u16 :: "u8 list \<Rightarrow> nat \<Rightarrow> u16" where
  "read_u16 buf i = ucast (buf ! i) OR push_bit 8 (ucast (buf ! (i + 1)))"

definition read_u32 :: "u8 list \<Rightarrow> nat \<Rightarrow> u32" where
  "read_u32 buf i = ucast (buf ! i) OR push_bit 8 (ucast (buf ! (i + 1))) OR
     push_bit 16 (ucast (buf ! (i + 2))) OR push_bit 24 (ucast (buf ! (i + 3)))"

text \<open>Storing consecutive bytes in a sector buffer.\<close>

fun put_bytes :: "nat \<Rightarrow> u8 list \<Rightarrow> u8 list \<Rightarrow> u8 list" where
  "put_bytes i [] buf = buf"
| "put_bytes i (x # xs) buf = put_bytes (Suc i) xs (buf[i := x])"

section \<open>Sectors and the allocation table\<close>

definition read_sector :: "'h port_io \<Rightarrow> fat_state \<Rightarrow> u32 \<Rightarrow> 'h block \<Rightarrow> u8 list option \<times> 'h block" where
  "read_sector P F lba b = block_read P (fat_dev F) (ucast lba) 1 b"

definition dir_read_sector :: "'h port_io \<Rightarrow> fat_state \<Rightarrow> u32 \<Rightarrow> 'h block \<Rightarrow> u8 list option \<times> 'h block" where
  "dir_read_sector P F lba b = read_sector P F lba b"

definition dir_write_sector :: "'h port_io \<Rightarrow> fat_state \<Rightarrow> u32 \<Rightarrow> u8 list \<Rightarrow> 'h block \<Rightarrow> bool \<times> 'h block" where
  "dir_write_sector P F lba buf b = block_write P (fat_dev F) (ucast lba) 1 buf b"

definition is_end_cluster :: "u16 \<Rightarrow> bool" where "is_end_cluster v \<longleftrightarrow> v \<ge> FAT16_EOC"

definition entry_sector :: "fat_state \<Rightarrow> u16 \<Rightarrow> u32" where
  "entry_sector F cluster = fat_start F + (ucast cluster * 2) div ucast (bytes_per_sector F)"

definition entry_offset :: "fat_state \<Rightarrow> u16 \<Rightarrow> nat" where
  "entry_offset F cluster = unat ((ucast cluster * 2 :: u32) mod ucast (bytes_per_sector F))"

definition fat_next_cluster :: "'h port_io \<Rightarrow> fat_state \<Rightarrow> u16 \<Rightarrow> 'h block \<Rightarrow> u16 \<times> 'h block" where
  "fat_next_cluster P F cluster b =
     (case read_sector P F (entry_sector F cluster) b of
        (None, b1) \<Rightarrow> (0, b1)
      | (Some buf, b1) \<Rightarrow> (read_u16 buf (entry_offset F cluster), b1))"

definition fat_set_cluster :: "'h port_io \<Rightarrow> fat_state \<Rightarrow> u16 \<Rightarrow> u16 \<Rightarrow> 'h block \<Rightarrow> bool \<times> 'h block" where
  "fat_set_cluster P F cluster val b =
     (case read_sector P F (entry_sector F cluster) b of
        (None, b1) \<Rightarrow> (False, b1)
      | (Some buf, b1) \<Rightarrow>
          dir_write_sector P F (entry_sector F cluster)
            (put_bytes (entry_offset F cluster) [ucast val, ucast (drop_bit 8 val)] buf) b1)"

fun alloc_scan :: "'h port_io \<Rightarrow> fat_state \<Rightarrow> nat \<Rightarrow> u32 \<Rightarrow> 'h block \<Rightarrow> u16 \<times> 'h block" where
  "alloc_scan P F 0 cluster b = (0, b)"
| "alloc_scan P F (Suc n) cluster b =
     (case fat_next_cluster P F (ucast cluster) b of (val, b1) \<Rightarrow>
        if val = 0
        then (case fat_set_cluster P F (ucast cluster) FAT16_EOC b1 of (r, b2) \<Rightarrow> (if r then ucast cluster else 0, b2))
        else alloc_scan P F n (cluster + 1) b1)"

text \<open>The loop runs from cluster 2 up to \<open>total\<close>, which bounds the number of steps.\<close>

definition fat_alloc_cluster :: "'h port_io \<Rightarrow> fat_state \<Rightarrow> 'h block \<Rightarrow> u16 \<times> 'h block" where
  "fat_alloc_cluster P F b = alloc_scan P F (unat (cluster_count F + 2) - 2) 2 b"

definition cluster_to_sector :: "fat_state \<Rightarrow> u16 \<Rightarrow> u32" where
  "cluster_to_sector F cluster = data_start F + (ucast cluster - 2) * ucast (sectors_per_cluster F)"

section \<open>Names\<close>

definition upper_char :: "char \<Rightarrow> char" where
  "upper_char c = (let n = of_char c :: nat in if 97 \<le> n \<and> n \<le> 122 then char_of (n - 32) else c)"

fun short_loop :: "string \<Rightarrow> string \<Rightarrow> string \<Rightarrow> bool \<Rightarrow> (string \<times> string) option" where
  "short_loop [] name ext in_ext = Some (name, ext)"
| "short_loop (c # p) name ext in_ext =
     (if c = CHR ''/'' then Some (name, ext)
      else if c = CHR ''.'' then (if in_ext then None else short_loop p name ext True)
      else if \<not> in_ext
      then (if length name \<ge> 8 then None else short_loop p (name @ [upper_char c]) ext in_ext)
      else (if length ext \<ge> 3 then None else short_loop p name (ext @ [upper_char c]) in_ext))"

definition pad :: "nat \<Rightarrow> string \<Rightarrow> string" where "pad n s = s @ replicate (n - length s) CHR '' ''"

definition build_short_name :: "string \<Rightarrow> u8 list option" where
  "build_short_name path =
     (if path = [] then None
      else case short_loop path [] [] False of
        None \<Rightarrow> None
      | Some (name, ext) \<Rightarrow> if length name > 0 then Some (map of_char (pad 8 name @ pad 3 ext)) else None)"

section \<open>Directories\<close>

datatype find_result = Found fat_file dir_loc | Free dir_loc | Not_found

datatype scan = Stop find_result | Go u32 "dir_loc option"

definition found_file :: "u32 \<Rightarrow> nat \<Rightarrow> u8 list \<Rightarrow> fat_file" where
  "found_file sec idx buf =
     \<lparr>start_cluster = ucast (read_u16 buf (idx + 26)), file_size = read_u32 buf (idx + 28), dir_sector = sec,
      dir_offset = of_nat idx, is_dir = (buf ! (idx + 11) AND 0x10 \<noteq> 0), attr = buf ! (idx + 11)\<rparr>"

text \<open>The entries of one sector. \<open>want_dir\<close> is 1 for a directory, 0 for a file and -1 for either.\<close>

fun scan_entries :: "fat_state \<Rightarrow> bool \<Rightarrow> u8 list \<Rightarrow> int \<Rightarrow> bool \<Rightarrow> u32 \<Rightarrow> u8 list \<Rightarrow> nat list \<Rightarrow> u32 \<Rightarrow> dir_loc option \<Rightarrow> scan" where
  "scan_entries F rt name want_dir allow_free sec buf [] seen saw = Go seen saw"
| "scan_entries F rt name want_dir allow_free sec buf (e # es) seen saw =
     (if rt \<and> seen \<ge> ucast (root_entries F)
      then Stop (case saw of Some l \<Rightarrow> if allow_free then Free l else Not_found | None \<Rightarrow> Not_found)
      else
        let idx = e * 32; fst_byte = buf ! idx; seen' = (if rt then seen + 1 else seen);
            saw' = (if allow_free \<and> saw = None then Some \<lparr>loc_sector = sec, loc_offset = of_nat idx\<rparr> else saw)
        in if fst_byte = 0
           then Stop (case saw' of Some l \<Rightarrow> if allow_free then Free l else Not_found | None \<Rightarrow> Not_found)
           else if fst_byte = 0xE5 then scan_entries F rt name want_dir allow_free sec buf es seen' saw'
           else if buf ! (idx + 11) = 0x0F then scan_entries F rt name want_dir allow_free sec buf es seen' saw
           else
             let dir = (buf ! (idx + 11) AND 0x10 \<noteq> 0)
             in if want_dir = 1 \<and> \<not> dir \<or> want_dir = 0 \<and> dir
                then scan_entries F rt name want_dir allow_free sec buf es seen' saw
                else if take 11 (drop idx buf) = name
                then Stop (Found (found_file sec idx buf) \<lparr>loc_sector = sec, loc_offset = of_nat idx\<rparr>)
                else scan_entries F rt name want_dir allow_free sec buf es seen' saw)"

definition entries_per_sector :: "fat_state \<Rightarrow> nat" where
  "entries_per_sector F = unat (bytes_per_sector F div 32)"

fun scan_sectors :: "'h port_io \<Rightarrow> fat_state \<Rightarrow> bool \<Rightarrow> u8 list \<Rightarrow> int \<Rightarrow> bool \<Rightarrow> u32 \<Rightarrow> nat \<Rightarrow> u32 \<Rightarrow> dir_loc option \<Rightarrow> 'h block \<Rightarrow> scan \<times> 'h block" where
  "scan_sectors P F rt name want_dir allow_free sec 0 seen saw b = (Go seen saw, b)"
| "scan_sectors P F rt name want_dir allow_free sec (Suc n) seen saw b =
     (case dir_read_sector P F sec b of
        (None, b1) \<Rightarrow> (Stop Not_found, b1)
      | (Some buf, b1) \<Rightarrow>
          (case scan_entries F rt name want_dir allow_free sec buf [0..<entries_per_sector F] seen saw of
             Stop r \<Rightarrow> (Stop r, b1)
           | Go seen' saw' \<Rightarrow> scan_sectors P F rt name want_dir allow_free (sec + 1) n seen' saw' b1))"

definition at_end :: "bool \<Rightarrow> dir_loc option \<Rightarrow> find_result" where
  "at_end allow_free saw = (case saw of Some l \<Rightarrow> if allow_free then Free l else Not_found | None \<Rightarrow> Not_found)"

partial_function (option) find_loop ::
  "'h port_io \<Rightarrow> fat_state \<Rightarrow> u8 list \<Rightarrow> int \<Rightarrow> bool \<Rightarrow> u16 \<Rightarrow> dir_loc option \<Rightarrow> 'h block \<Rightarrow> (find_result \<times> 'h block) option" where
  "find_loop P F name want_dir allow_free cluster saw b =
     (case scan_sectors P F False name want_dir allow_free (cluster_to_sector F cluster) (unat (sectors_per_cluster F)) 0 saw b of
        (Stop r, b1) \<Rightarrow> Some (r, b1)
      | (Go _ saw', b1) \<Rightarrow>
          (case fat_next_cluster P F cluster b1 of (nxt, b2) \<Rightarrow>
             if nxt = 0 \<or> is_end_cluster nxt then Some (at_end allow_free saw', b2)
             else find_loop P F name want_dir allow_free nxt saw' b2))"

declare find_loop.simps [code]

definition dir_find_entry ::
  "'h port_io \<Rightarrow> fat_state \<Rightarrow> u16 \<Rightarrow> u8 list \<Rightarrow> int \<Rightarrow> bool \<Rightarrow> 'h block \<Rightarrow> (find_result \<times> 'h block) run" where
  "dir_find_entry P F dir_cluster name want_dir allow_free b =
     (if dir_cluster = 0
      then (case scan_sectors P F True name want_dir allow_free (root_start F) (unat (root_dir_sectors F)) 0 None b of
              (Stop r, b1) \<Rightarrow> Ret (r, b1)
            | (Go _ saw, b1) \<Rightarrow> Ret (at_end allow_free saw, b1))
      else loop_run (find_loop P F name want_dir allow_free dir_cluster None b))"

definition dir_write_entry :: "'h port_io \<Rightarrow> fat_state \<Rightarrow> dir_loc \<Rightarrow> u8 list \<Rightarrow> 'h block \<Rightarrow> bool \<times> 'h block" where
  "dir_write_entry P F loc ent b =
     (case dir_read_sector P F (loc_sector loc) b of
        (None, b1) \<Rightarrow> (False, b1)
      | (Some buf, b1) \<Rightarrow> dir_write_sector P F (loc_sector loc) (put_bytes (unat (loc_offset loc)) ent buf) b1)"

section \<open>Paths\<close>

definition path_comp :: "string \<Rightarrow> string" where "path_comp p = takeWhile (\<lambda>c. c \<noteq> CHR ''/'') p"

definition new_entry :: "u8 list \<Rightarrow> u8 list" where "new_entry name = name @ [0x20] @ replicate 20 0"

function traverse_loop ::
  "'h port_io \<Rightarrow> fat_state \<Rightarrow> bool \<Rightarrow> int \<Rightarrow> string \<Rightarrow> u16 \<Rightarrow> 'h block \<Rightarrow> (fat_file option \<times> 'h block) run" where
  "traverse_loop P F create want_dir_last p dir_cluster b =
     (if p = [] then Ret (None, b)
      else let comp = path_comp p; rest = drop (length comp) p; lst = (rest = [])
      in if length comp = 0 \<or> length comp \<ge> 16 then Ret (None, b)
      else case build_short_name comp of
        None \<Rightarrow> Ret (None, b)
      | Some name \<Rightarrow>
          let allow_free = (lst \<and> create \<and> want_dir_last = 0)
          in bind_run (dir_find_entry P F dir_cluster name (if lst then want_dir_last else 1) allow_free b) (\<lambda>(res, b1).
            case res of
              Found f _ \<Rightarrow>
                if lst then Ret (Some f, b1)
                else traverse_loop P F create want_dir_last (tl rest) (ucast (start_cluster f)) b1
            | Free loc \<Rightarrow>
                (case dir_write_entry P F loc (new_entry name) b1 of (r, b2) \<Rightarrow>
                   if \<not> r then Ret (None, b2)
                   else Ret (Some \<lparr>start_cluster = 0, file_size = 0, dir_sector = loc_sector loc, dir_offset = loc_offset loc,
                               is_dir = False, attr = 0x20\<rparr>, b2))
            | Not_found \<Rightarrow> Ret (None, b1)))"
  by pat_completeness auto
termination
  by (relation "measure (\<lambda>(P, F, create, want, p, d, b). length p)") (auto simp: diff_less Suc_le_eq)

declare traverse_loop.simps [simp del]

definition fat_traverse_path ::
  "'h port_io \<Rightarrow> fat_state \<Rightarrow> string \<Rightarrow> bool \<Rightarrow> int \<Rightarrow> 'h block \<Rightarrow> (fat_file option \<times> 'h block) run" where
  "fat_traverse_path P F path create want_dir_last b =
     traverse_loop P F create want_dir_last (if take 1 path = ''/'' then tl path else path) 0 b"

definition fat_open :: "'h port_io \<Rightarrow> fat_state \<Rightarrow> string \<Rightarrow> 'h block \<Rightarrow> (fat_file option \<times> 'h block) run" where
  "fat_open P F path b = (if \<not> fat_ready F then Ret (None, b) else fat_traverse_path P F path False 0 b)"

definition fat_open_dir :: "'h port_io \<Rightarrow> fat_state \<Rightarrow> string \<Rightarrow> 'h block \<Rightarrow> (fat_file option \<times> 'h block) run" where
  "fat_open_dir P F path b = (if \<not> fat_ready F then Ret (None, b) else fat_traverse_path P F path False 1 b)"

definition fat_create :: "'h port_io \<Rightarrow> fat_state \<Rightarrow> string \<Rightarrow> 'h block \<Rightarrow> (fat_file option \<times> 'h block) run" where
  "fat_create P F path b = (if \<not> fat_ready F then Ret (None, b) else fat_traverse_path P F path True 0 b)"

section \<open>Mounting\<close>

definition fat_zero :: fat_state where
  "fat_zero = \<lparr>fat_dev = Ramdisk, bytes_per_sector = 0, sectors_per_cluster = 0, reserved_sectors = 0, fat_count = 0,
     root_entries = 0, fat_size = 0, total_sectors = 0, root_dir_sectors = 0, fat_start = 0, root_start = 0,
     data_start = 0, cluster_count = 0, fat_ready = False\<rparr>"

definition fat_init :: "'h port_io \<Rightarrow> dev_ref option \<Rightarrow> fat_state \<Rightarrow> 'h block \<Rightarrow> int \<times> fat_state \<times> 'h block" where
  "fat_init P dev F0 b =
     (case dev of
        None \<Rightarrow> (-1, F0\<lparr>fat_ready := False\<rparr>, b)
      | Some d \<Rightarrow>
          (case block_read P d 0 1 b of
             (None, b1) \<Rightarrow> (-1, F0\<lparr>fat_ready := False, fat_dev := d\<rparr>, b1)
           | (Some buf, b1) \<Rightarrow>
               let total16 = read_u16 buf 19;
                   F1 = F0\<lparr>fat_ready := False, fat_dev := d, bytes_per_sector := read_u16 buf 11, sectors_per_cluster := buf ! 13,
                     reserved_sectors := read_u16 buf 14, fat_count := buf ! 16, root_entries := read_u16 buf 17,
                     total_sectors := (if total16 \<noteq> 0 then ucast total16 else read_u32 buf 32), fat_size := read_u16 buf 22\<rparr>
               in if bytes_per_sector F1 \<noteq> 512 \<or> sectors_per_cluster F1 = 0 \<or> fat_size F1 = 0 then (-1, F1, b1)
               else
                 let rds = (ucast (root_entries F1) * 32 + (ucast (bytes_per_sector F1) - 1)) div ucast (bytes_per_sector F1);
                     fs = ucast (reserved_sectors F1);
                     rs = fs + ucast (fat_count F1) * ucast (fat_size F1);
                     ds = rs + rds;
                     F2 = F1\<lparr>root_dir_sectors := rds, fat_start := fs, root_start := rs, data_start := ds,
                       cluster_count := (total_sectors F1 - ds) div ucast (sectors_per_cluster F1)\<rparr>
                 in if cluster_count F2 < FAT16_MIN_CLUSTERS then (-1, F2, b1) else (0, F2\<lparr>fat_ready := True\<rparr>, b1)))"

section \<open>Reading\<close>

definition cluster_size :: "fat_state \<Rightarrow> u64" where
  "cluster_size F = ucast (sectors_per_cluster F) * ucast (bytes_per_sector F)"

text \<open>Skipping clusters up to the offset: the cluster reached, or nothing at the end of the chain.\<close>

partial_function (option) skip_loop ::
  "'h port_io \<Rightarrow> fat_state \<Rightarrow> u32 \<Rightarrow> u64 \<Rightarrow> 'h block \<Rightarrow> ((u32 \<times> u64) option \<times> 'h block) option" where
  "skip_loop P F cluster skip b =
     (if skip \<ge> cluster_size F \<and> cluster \<ge> 2
      then (case fat_next_cluster P F (ucast cluster) b of (nxt, b1) \<Rightarrow>
              if nxt = 0 \<or> is_end_cluster nxt then Some (None, b1)
              else skip_loop P F (ucast nxt) (skip - cluster_size F) b1)
      else Some (Some (cluster, skip), b))"

declare skip_loop.simps [code]

definition sector_at :: "fat_state \<Rightarrow> u32 \<Rightarrow> u64 \<Rightarrow> u32" where
  "sector_at F base cluster_off = base + ucast (cluster_off div ucast (bytes_per_sector F))"

definition offset_at :: "fat_state \<Rightarrow> u64 \<Rightarrow> u32" where
  "offset_at F cluster_off = ucast (cluster_off mod ucast (bytes_per_sector F))"

definition chunk_at :: "fat_state \<Rightarrow> u64 \<Rightarrow> u64 \<Rightarrow> u64" where
  "chunk_at F cluster_off len =
     (let chunk = ucast (ucast (bytes_per_sector F) - offset_at F cluster_off :: u32) in if chunk > len then len else chunk)"

text \<open>The sectors of one cluster: whether all could be read, the bytes copied so far, and what remains.\<close>

partial_function (option) read_cluster ::
  "'h port_io \<Rightarrow> fat_state \<Rightarrow> u32 \<Rightarrow> u64 \<Rightarrow> u64 \<Rightarrow> u8 list \<Rightarrow> 'h block \<Rightarrow> (bool \<times> u8 list \<times> u64 \<times> 'h block) option" where
  "read_cluster P F base cluster_off len copied b =
     (if cluster_off < cluster_size F \<and> len > 0
      then (case read_sector P F (sector_at F base cluster_off) b of
              (None, b1) \<Rightarrow> Some (False, copied, len, b1)
            | (Some buf, b1) \<Rightarrow>
                let chunk = chunk_at F cluster_off len
                in read_cluster P F base (cluster_off + chunk) (len - chunk)
                     (copied @ take (unat chunk) (drop (unat (offset_at F cluster_off)) buf)) b1)
      else Some (True, copied, len, b))"

declare read_cluster.simps [code]

partial_function (option) read_chain ::
  "'h port_io \<Rightarrow> fat_state \<Rightarrow> u32 \<Rightarrow> u64 \<Rightarrow> u64 \<Rightarrow> u8 list \<Rightarrow> 'h block \<Rightarrow> (bool \<times> u8 list \<times> 'h block) option" where
  "read_chain P F cluster skip len copied b =
     (if len > 0 \<and> cluster \<ge> 2
      then Option.bind (read_cluster P F (cluster_to_sector F (ucast cluster)) skip len copied b) (\<lambda>(r, copied1, len1, b1).
             if \<not> r then Some (False, copied1, b1)
             else if len1 = 0 then Some (True, copied1, b1)
             else case fat_next_cluster P F (ucast cluster) b1 of (nxt, b2) \<Rightarrow>
               if nxt = 0 \<or> is_end_cluster nxt then Some (True, copied1, b2)
               else read_chain P F (ucast nxt) 0 len1 copied1 b2)
      else Some (True, copied, b))"

declare read_chain.simps [code]

text \<open>The result, the bytes put into the buffer, and the new offset.\<close>

definition fat_read ::
  "'h port_io \<Rightarrow> fat_state \<Rightarrow> fat_file \<Rightarrow> u64 \<Rightarrow> u64 \<Rightarrow> 'h block \<Rightarrow> (int \<times> u8 list \<times> u64 \<times> 'h block) run" where
  "fat_read P F file off len b =
     (if \<not> fat_ready F then Ret (-1, [], off, b)
      else if start_cluster file = 0 \<or> off \<ge> ucast (file_size file) \<or> len = 0 then Ret (0, [], off, b)
      else
        let remaining = ucast (file_size file) - off; len1 = (if len > remaining then remaining else len)
        in bind_run (loop_run (skip_loop P F (ucast (ucast (start_cluster file) :: u16)) off b)) (\<lambda>(r, b1).
          case r of
            None \<Rightarrow> Ret (0, [], off, b1)
          | Some (cluster, skip) \<Rightarrow>
              bind_run (loop_run (read_chain P F cluster skip len1 [] b1)) (\<lambda>(r2, copied, b2).
                if \<not> r2 then Ret (-1, copied, off, b2)
                else Ret (int (length copied), copied, off + of_nat (length copied), b2))))"

section \<open>Writing\<close>

text \<open>The next cluster of a chain, appended when the chain ends; nothing when no cluster can be had.\<close>

definition next_or_new :: "'h port_io \<Rightarrow> fat_state \<Rightarrow> u16 \<Rightarrow> 'h block \<Rightarrow> u16 option \<times> 'h block" where
  "next_or_new P F cluster b =
     (case fat_next_cluster P F cluster b of (nxt, b1) \<Rightarrow>
        if nxt = 0 \<or> is_end_cluster nxt
        then (case fat_alloc_cluster P F b1 of (new_cluster, b2) \<Rightarrow>
                if new_cluster = 0 then (None, b2)
                else (case fat_set_cluster P F cluster new_cluster b2 of (r, b3) \<Rightarrow> (if r then Some new_cluster else None, b3)))
        else (Some nxt, b1))"

partial_function (option) write_skip ::
  "'h port_io \<Rightarrow> fat_state \<Rightarrow> u16 \<Rightarrow> u64 \<Rightarrow> 'h block \<Rightarrow> ((u16 \<times> u64) option \<times> 'h block) option" where
  "write_skip P F cluster skip b =
     (if skip \<ge> cluster_size F
      then (case next_or_new P F cluster b of
              (None, b1) \<Rightarrow> Some (None, b1)
            | (Some nxt, b1) \<Rightarrow> write_skip P F nxt (skip - cluster_size F) b1)
      else Some (Some (cluster, skip), b))"

declare write_skip.simps [code]

partial_function (option) write_cluster ::
  "'h port_io \<Rightarrow> fat_state \<Rightarrow> u32 \<Rightarrow> u64 \<Rightarrow> u8 list \<Rightarrow> 'h block \<Rightarrow> (bool \<times> u8 list \<times> 'h block) option" where
  "write_cluster P F base cluster_off src b =
     (if cluster_off < cluster_size F \<and> src \<noteq> []
      then (case dir_read_sector P F (sector_at F base cluster_off) b of
              (None, b1) \<Rightarrow> Some (False, src, b1)
            | (Some buf, b1) \<Rightarrow>
                let chunk = chunk_at F cluster_off (of_nat (length src))
                in case dir_write_sector P F (sector_at F base cluster_off)
                          (put_bytes (unat (offset_at F cluster_off)) (take (unat chunk) src) buf) b1 of
                     (r, b2) \<Rightarrow>
                       if \<not> r then Some (False, src, b2)
                       else write_cluster P F base (cluster_off + chunk) (drop (unat chunk) src) b2)
      else Some (True, src, b))"

declare write_cluster.simps [code]

text \<open>How the loop over the clusters ends: an error, no further cluster, or everything written. The bytes
  left over are part of the result.\<close>

datatype write_end = Write_error | Write_short "u8 list" | Write_done

partial_function (option) write_chain ::
  "'h port_io \<Rightarrow> fat_state \<Rightarrow> u16 \<Rightarrow> u64 \<Rightarrow> u8 list \<Rightarrow> 'h block \<Rightarrow> (write_end \<times> 'h block) option" where
  "write_chain P F cluster skip src b =
     (if src \<noteq> []
      then Option.bind (write_cluster P F (cluster_to_sector F cluster) skip src b) (\<lambda>(r, src1, b1).
             if \<not> r then Some (Write_error, b1)
             else if src1 = [] then Some (Write_done, b1)
             else case next_or_new P F cluster b1 of
                    (None, b2) \<Rightarrow> Some (Write_short src1, b2)
                  | (Some nxt, b2) \<Rightarrow> write_chain P F nxt 0 src1 b2)
      else Some (Write_done, b))"

declare write_chain.simps [code]

text \<open>The first cluster of an empty file, noted in its directory entry.\<close>

definition first_cluster :: "'h port_io \<Rightarrow> fat_state \<Rightarrow> fat_file \<Rightarrow> 'h block \<Rightarrow> bool \<times> fat_file \<times> 'h block" where
  "first_cluster P F file b =
     (if start_cluster file \<noteq> 0 then (True, file, b)
      else case fat_alloc_cluster P F b of (fst_cl, b1) \<Rightarrow>
        if fst_cl = 0 then (False, file, b1)
        else
          let file1 = file\<lparr>start_cluster := ucast fst_cl\<rparr>
          in case dir_read_sector P F (dir_sector file) b1 of
               (None, b2) \<Rightarrow> (False, file1, b2)
             | (Some buf, b2) \<Rightarrow>
                 (case dir_write_sector P F (dir_sector file)
                         (put_bytes (unat (dir_offset file) + 26) [ucast fst_cl, ucast (drop_bit 8 fst_cl)] buf) b2 of
                    (r, b3) \<Rightarrow> (r, file1, b3)))"

definition size_bytes :: "u32 \<Rightarrow> u8 list" where
  "size_bytes n = [ucast n, ucast (drop_bit 8 n), ucast (drop_bit 16 n), ucast (drop_bit 24 n)]"

definition update_size :: "'h port_io \<Rightarrow> fat_state \<Rightarrow> fat_file \<Rightarrow> u64 \<Rightarrow> 'h block \<Rightarrow> fat_file \<times> 'h block" where
  "update_size P F file end_pos b =
     (if end_pos > ucast (file_size file)
      then let file1 = file\<lparr>file_size := ucast end_pos\<rparr>
           in case dir_read_sector P F (dir_sector file) b of
                (None, b1) \<Rightarrow> (file1, b1)
              | (Some buf, b1) \<Rightarrow>
                  (file1, snd (dir_write_sector P F (dir_sector file)
                                 (put_bytes (unat (dir_offset file) + 28) (size_bytes (ucast end_pos)) buf) b1))
      else (file, b))"

definition fat_write ::
  "'h port_io \<Rightarrow> fat_state \<Rightarrow> fat_file \<Rightarrow> u64 \<Rightarrow> u8 list \<Rightarrow> 'h block \<Rightarrow> (int \<times> u64 \<times> fat_file \<times> 'h block) run" where
  "fat_write P F file off src b =
     (if \<not> fat_ready F then Ret (-1, off, file, b)
      else if is_dir file then Ret (-1, off, file, b)
      else if attr file AND 0x01 \<noteq> 0 then Ret (-1, off, file, b)
      else if src = [] then Ret (0, off, file, b)
      else let end_pos = off + of_nat (length src)
      in if end_pos < off then Ret (-1, off, file, b)
      else case first_cluster P F file b of (r, file1, b1) \<Rightarrow>
        if \<not> r then Ret (-1, off, file1, b1)
        else bind_run (loop_run (write_skip P F (ucast (start_cluster file1)) off b1)) (\<lambda>(r1, b2).
          case r1 of
            None \<Rightarrow> Ret (-1, off, file1, b2)
          | Some (cluster, skip) \<Rightarrow>
              bind_run (loop_run (write_chain P F cluster skip src b2)) (\<lambda>(r2, b3).
                case r2 of
                  Write_error \<Rightarrow> Ret (-1, off, file1, b3)
                | Write_short rest \<Rightarrow> Ret (int (length src - length rest), off, file1, b3)
                | Write_done \<Rightarrow>
                    (case update_size P F file1 end_pos b3 of (file2, b4) \<Rightarrow>
                       Ret (int (length src), off + of_nat (length src), file2, b4)))))"

section \<open>Directories made and listed\<close>

definition dir_entry_init :: "u8 list \<Rightarrow> u8 \<Rightarrow> u16 \<Rightarrow> u32 \<Rightarrow> u8 list" where
  "dir_entry_init name at cluster sz =
     name @ [at] @ replicate 14 0 @ [ucast cluster, ucast (drop_bit 8 cluster)] @ size_bytes sz"

fun zero_sectors :: "'h port_io \<Rightarrow> fat_state \<Rightarrow> u32 \<Rightarrow> nat \<Rightarrow> 'h block \<Rightarrow> bool \<times> 'h block" where
  "zero_sectors P F sec 0 b = (True, b)"
| "zero_sectors P F sec (Suc n) b =
     (case dir_write_sector P F sec (replicate 512 0) b of
        (False, b1) \<Rightarrow> (False, b1)
      | (True, b1) \<Rightarrow> zero_sectors P F (sec + 1) n b1)"

definition zero_cluster :: "'h port_io \<Rightarrow> fat_state \<Rightarrow> u16 \<Rightarrow> 'h block \<Rightarrow> bool \<times> 'h block" where
  "zero_cluster P F cluster b = zero_sectors P F (cluster_to_sector F cluster) (unat (sectors_per_cluster F)) b"

definition init_dir_cluster :: "'h port_io \<Rightarrow> fat_state \<Rightarrow> u16 \<Rightarrow> u16 \<Rightarrow> 'h block \<Rightarrow> bool \<times> 'h block" where
  "init_dir_cluster P F cluster parent_cluster b =
     (case zero_cluster P F cluster b of
        (False, b1) \<Rightarrow> (False, b1)
      | (True, b1) \<Rightarrow>
          (case dir_read_sector P F (cluster_to_sector F cluster) b1 of
             (None, b2) \<Rightarrow> (False, b2)
           | (Some buf, b2) \<Rightarrow>
               dir_write_sector P F (cluster_to_sector F cluster)
                 (put_bytes 32 (dir_entry_init (map of_char (pad 11 ''..'')) 0x10 parent_cluster 0)
                   (put_bytes 0 (dir_entry_init (map of_char (pad 11 ''.'')) 0x10 cluster 0) buf)) b2))"

definition drop_slashes :: "string \<Rightarrow> string" where "drop_slashes p = dropWhile (\<lambda>c. c = CHR ''/'') p"

lemma drop_slashes_length: "length (drop_slashes p) \<le> length p"
  by (simp add: drop_slashes_def length_dropWhile_le)

function parent_loop ::
  "'h port_io \<Rightarrow> fat_state \<Rightarrow> string \<Rightarrow> u16 \<Rightarrow> 'h block \<Rightarrow> ((u16 \<times> u8 list) option \<times> 'h block) run" where
  "parent_loop P F p0 dir_cluster b =
     (let p = drop_slashes p0
      in if p = [] then Ret (None, b)
      else let comp = path_comp p; nxt = drop_slashes (drop (length comp) p)
      in if length comp = 0 \<or> length comp \<ge> 16 then Ret (None, b)
      else case build_short_name comp of
        None \<Rightarrow> Ret (None, b)
      | Some name \<Rightarrow>
          if nxt = [] then Ret (Some (dir_cluster, name), b)
          else bind_run (dir_find_entry P F dir_cluster name 1 False b) (\<lambda>(res, b1).
            case res of
              Found f _ \<Rightarrow> parent_loop P F nxt (ucast (start_cluster f)) b1
            | _ \<Rightarrow> Ret (None, b1)))"
  by pat_completeness auto

termination
proof (relation "measure (\<lambda>(P, F, p, d, b). length p)")
  fix p0 :: string
  have "length (drop_slashes (drop n (drop_slashes p0))) < length p0" if "drop_slashes p0 \<noteq> []" "n \<noteq> 0" for n
  proof -
    have "length (drop_slashes (drop n (drop_slashes p0))) \<le> length (drop n (drop_slashes p0))" by (rule drop_slashes_length)
    also have "\<dots> < length (drop_slashes p0)" using that by simp
    also have "\<dots> \<le> length p0" by (rule drop_slashes_length)
    finally show ?thesis .
  qed
  then show "((P, F, nxt, ucast (start_cluster f), b1), P, F, p0, dir_cluster, b) \<in> measure (\<lambda>(P, F, p, d, b). length p)"
    if "p = drop_slashes p0" "p \<noteq> []" "comp = path_comp p" "nxt = drop_slashes (drop (length comp) p)"
      "\<not> (length comp = 0 \<or> 16 \<le> length comp)" for P F nxt f b1 dir_cluster b p comp
    using that by simp
qed simp_all

declare parent_loop.simps [simp del]

definition fat_find_parent :: "'h port_io \<Rightarrow> fat_state \<Rightarrow> string \<Rightarrow> 'h block \<Rightarrow> ((u16 \<times> u8 list) option \<times> 'h block) run" where
  "fat_find_parent P F path b = parent_loop P F path 0 b"

definition fat_mkdir :: "'h port_io \<Rightarrow> fat_state \<Rightarrow> string \<Rightarrow> 'h block \<Rightarrow> (int \<times> 'h block) run" where
  "fat_mkdir P F path b =
     (if \<not> fat_ready F then Ret (-1, b)
      else bind_run (fat_find_parent P F path b) (\<lambda>(r, b1).
        case r of
          None \<Rightarrow> Ret (-1, b1)
        | Some (dir_cluster, name) \<Rightarrow>
            bind_run (dir_find_entry P F dir_cluster name (-1) True b1) (\<lambda>(res, b2).
              case res of
                Found f _ \<Rightarrow> Ret (if is_dir f then 0 else -1, b2)
              | Not_found \<Rightarrow> Ret (-1, b2)
              | Free loc \<Rightarrow>
                  (case fat_alloc_cluster P F b2 of (cluster, b3) \<Rightarrow>
                     if cluster = 0 then Ret (-1, b3)
                     else case dir_write_entry P F loc (dir_entry_init name 0x10 cluster 0) b3 of (r1, b4) \<Rightarrow>
                       if \<not> r1 then Ret (-1, b4)
                       else case init_dir_cluster P F cluster dir_cluster b4 of (r2, b5) \<Rightarrow>
                         Ret (if r2 then 0 else -1, b5)))))"

text \<open>The string ends at its first NUL, which the bytes of a damaged directory entry may contain.\<close>

definition append_str :: "nat \<Rightarrow> string \<Rightarrow> string \<Rightarrow> string" where
  "append_str len out s = fst (emit len out (takeWhile (\<lambda>c. c \<noteq> CHR 0x00) s))"

definition byte_str :: "u8 list \<Rightarrow> string" where "byte_str bs = map (\<lambda>x. char_of (unat x)) bs"

definition format_name :: "u8 list \<Rightarrow> nat \<Rightarrow> string" where
  "format_name ent out_len =
     (let name = take (out_len - 1) (byte_str (takeWhile (\<lambda>x. x \<noteq> 0x20) (take 8 ent)));
          ext = take 3 (drop 8 ent)
      in if list_ex (\<lambda>x. x \<noteq> 0x20) ext \<and> length name + 1 < out_len
         then name @ CHR ''.'' # take (out_len - length name - 2) (byte_str (takeWhile (\<lambda>x. x \<noteq> 0x20) ext))
         else name)"

text \<open>The entries of one sector in a listing; the flag says that the listing is complete.\<close>

fun list_entries :: "fat_state \<Rightarrow> bool \<Rightarrow> string \<Rightarrow> nat \<Rightarrow> u8 list \<Rightarrow> nat list \<Rightarrow> u32 \<Rightarrow> string \<Rightarrow> bool \<times> u32 \<times> string" where
  "list_entries F rt prefix len buf [] seen out = (False, seen, out)"
| "list_entries F rt prefix len buf (e # es) seen out =
     (if rt \<and> seen \<ge> ucast (root_entries F) then (True, seen, out)
      else
        let ent = drop (e * 32) buf; seen' = (if rt then seen + 1 else seen)
        in if ent ! 0 = 0 then (True, seen', out)
           else if ent ! 0 = 0xE5 \<or> ent ! 11 = 0x0F \<or> ent ! 11 AND 0x08 \<noteq> 0
           then list_entries F rt prefix len buf es seen' out
           else if ent ! 0 = 0x2E \<and> (ent ! 1 = 0x20 \<or> ent ! 1 = 0x2E) then list_entries F rt prefix len buf es seen' out
           else
             let out1 = append_str len (append_str len out prefix) (format_name ent 16)
             in if ent ! 11 AND 0x10 \<noteq> 0
                then (if length out1 + 2 \<ge> len then (True, seen', out1)
                      else list_entries F rt prefix len buf es seen' (out1 @ [CHR ''/'', CHR 0x0A]))
                else (if length out1 + 1 \<ge> len then (True, seen', out1)
                      else list_entries F rt prefix len buf es seen' (out1 @ [CHR 0x0A])))"

fun list_sectors ::
  "'h port_io \<Rightarrow> fat_state \<Rightarrow> bool \<Rightarrow> string \<Rightarrow> nat \<Rightarrow> u32 \<Rightarrow> nat \<Rightarrow> u32 \<Rightarrow> string \<Rightarrow> 'h block \<Rightarrow> bool \<times> u32 \<times> string \<times> 'h block" where
  "list_sectors P F rt prefix len sec 0 seen out b = (False, seen, out, b)"
| "list_sectors P F rt prefix len sec (Suc n) seen out b =
     (case read_sector P F sec b of
        (None, b1) \<Rightarrow> (True, seen, out, b1)
      | (Some buf, b1) \<Rightarrow>
          (case list_entries F rt prefix len buf [0..<entries_per_sector F] seen out of
             (fin, seen', out') \<Rightarrow>
               if fin then (True, seen', out', b1) else list_sectors P F rt prefix len (sec + 1) n seen' out' b1))"

partial_function (option) list_loop ::
  "'h port_io \<Rightarrow> fat_state \<Rightarrow> string \<Rightarrow> nat \<Rightarrow> u16 \<Rightarrow> string \<Rightarrow> 'h block \<Rightarrow> (string \<times> 'h block) option" where
  "list_loop P F prefix len cluster out b =
     (case list_sectors P F False prefix len (cluster_to_sector F cluster) (unat (sectors_per_cluster F)) 0 out b of
        (fin, _, out1, b1) \<Rightarrow>
          if fin then Some (out1, b1)
          else case fat_next_cluster P F cluster b1 of (nxt, b2) \<Rightarrow>
            if nxt = 0 \<or> is_end_cluster nxt then Some (out1, b2) else list_loop P F prefix len nxt out1 b2)"

declare list_loop.simps [code]

definition list_dir :: "'h port_io \<Rightarrow> fat_state \<Rightarrow> u16 \<Rightarrow> string \<Rightarrow> nat \<Rightarrow> 'h block \<Rightarrow> (string \<times> 'h block) run" where
  "list_dir P F dir_cluster prefix len b =
     (if len = 0 then Ret ([], b)
      else if dir_cluster = 0
      then (case list_sectors P F True prefix len (root_start F) (unat (root_dir_sectors F)) 0 [] b of (_, _, out, b1) \<Rightarrow> Ret (out, b1))
      else loop_run (list_loop P F prefix len dir_cluster [] b))"

text \<open>kernel/fat.c has its own \<open>normalize_path\<close>: it strips slashes at both ends.\<close>

definition strip_slashes_end :: "string \<Rightarrow> string" where
  "strip_slashes_end p = rev (dropWhile (\<lambda>c. c = CHR ''/'') (rev p))"

definition fat_normalize_path :: "string option \<Rightarrow> nat \<Rightarrow> string option" where
  "fat_normalize_path path out_len =
     (if out_len = 0 then None
      else case path of
        None \<Rightarrow> Some []
      | Some p0 \<Rightarrow>
          let p = drop_slashes p0 in if length p \<ge> out_len then None else Some (strip_slashes_end p))"

definition fat_list_dir :: "'h port_io \<Rightarrow> fat_state \<Rightarrow> string option \<Rightarrow> nat \<Rightarrow> 'h block \<Rightarrow> (string \<times> 'h block) run" where
  "fat_list_dir P F path len b =
     (if \<not> fat_ready F \<or> len = 0 then Ret ([], b)
      else case fat_normalize_path path 64 of
        None \<Rightarrow> Ret ([], b)
      | Some trimmed \<Rightarrow>
          let p1 = take 95 (''/disk/'' @ trimmed);
              prefix = (if trimmed \<noteq> [] \<and> length p1 + 1 < 96 then p1 @ ''/'' else p1)
          in if trimmed = [] then list_dir P F 0 prefix len b
             else bind_run (fat_open_dir P F trimmed b) (\<lambda>(r, b1).
               case r of
                 None \<Rightarrow> Ret ([], b1)
               | Some d \<Rightarrow> if \<not> is_dir d then Ret ([], b1) else list_dir P F (ucast (start_cluster d)) prefix len b1))"

definition fat_list :: "'h port_io \<Rightarrow> fat_state \<Rightarrow> nat \<Rightarrow> 'h block \<Rightarrow> (string \<times> 'h block) run" where
  "fat_list P F len b = fat_list_dir P F None len b"

section \<open>Reads stay inside the buffer\<close>

text \<open>On any volume and for any file, a read copies at most as many bytes as asked for, also when it fails.\<close>

lemma chunk_at_le: "chunk_at F off len \<le> len"
  by (simp add: chunk_at_def Let_def not_less)

lemma chunk_step:
  "length (copied @ take (unat (chunk_at F off len)) xs) + unat (len - chunk_at F off len) \<le> length copied + unat len"
  using chunk_at_le [of F off len] by (simp add: unat_sub word_le_nat_alt)

lemma read_cluster_length:
  assumes "read_cluster P F base off len copied b = Some y"
  shows "length (fst (snd y)) + unat (fst (snd (snd y))) \<le> length copied + unat len"
proof -
  let ?Q = "\<lambda>x y. case x of ((((((P, F), base), off), len), copied), b) \<Rightarrow>
    length (fst (snd y)) + unat (fst (snd (snd y))) \<le> length copied + unat len"
  have "?Q ((((((P, F), base), off), len), copied), b) y"
  proof (rule read_cluster.raw_induct [where Pa = ?Q, OF _ assms])
    fix f P F base off len copied b y
    assume IH: "\<And>P F base off len copied b y. f P F base off len copied b = Some y \<Longrightarrow> ?Q ((((((P, F), base), off), len), copied), b) y"
      and e: "(if off < cluster_size F \<and> 0 < len
        then case read_sector P F (sector_at F base off) b of
          (None, b1) \<Rightarrow> Some (False, copied, len, b1)
        | (Some buf, b1) \<Rightarrow> let chunk = chunk_at F off len
            in f P F base (off + chunk) (len - chunk) (copied @ take (unat chunk) (drop (unat (offset_at F off)) buf)) b1
        else Some (True, copied, len, b)) = Some y"
    show "?Q ((((((P, F), base), off), len), copied), b) y"
    proof (cases "off < cluster_size F \<and> 0 < len")
      case True
      obtain r b1 where r: "read_sector P F (sector_at F base off) b = (r, b1)" by fastforce
      show ?thesis
      proof (cases r)
        case None
        then show ?thesis using e r True by auto
      next
        case (Some buf)
        have "f P F base (off + chunk_at F off len) (len - chunk_at F off len)
          (copied @ take (unat (chunk_at F off len)) (drop (unat (offset_at F off)) buf)) b1 = Some y"
          using e r True Some by (simp add: Let_def)
        from IH [OF this] chunk_step [of copied F off len "drop (unat (offset_at F off)) buf"] show ?thesis by simp
      qed
    next
      case False
      then show ?thesis using e by auto
    qed
  qed
  then show ?thesis by simp
qed

lemma read_chain_length:
  assumes "read_chain P F cluster skip len copied b = Some y"
  shows "length (fst (snd y)) \<le> length copied + unat len"
proof -
  let ?Q = "\<lambda>x y. case x of ((((((P, F), cluster), skip), len), copied), b) \<Rightarrow> length (fst (snd y)) \<le> length copied + unat len"
  have "?Q ((((((P, F), cluster), skip), len), copied), b) y"
  proof (rule read_chain.raw_induct [where Pa = ?Q, OF _ assms])
    fix f P F cluster skip len copied b y
    assume IH: "\<And>P F cluster skip len copied b y. f P F cluster skip len copied b = Some y \<Longrightarrow> ?Q ((((((P, F), cluster), skip), len), copied), b) y"
      and e: "(if 0 < len \<and> 2 \<le> cluster
        then Option.bind (read_cluster P F (cluster_to_sector F (ucast cluster)) skip len copied b) (\<lambda>(r, copied1, len1, b1).
          if \<not> r then Some (False, copied1, b1)
          else if len1 = 0 then Some (True, copied1, b1)
          else case fat_next_cluster P F (ucast cluster) b1 of (nxt, b2) \<Rightarrow>
            if nxt = 0 \<or> is_end_cluster nxt then Some (True, copied1, b2) else f P F (ucast nxt) 0 len1 copied1 b2)
        else Some (True, copied, b)) = Some y"
    show "?Q ((((((P, F), cluster), skip), len), copied), b) y"
    proof (cases "0 < len \<and> 2 \<le> cluster")
      case True
      then obtain r c1 l1 b1 where r: "read_cluster P F (cluster_to_sector F (ucast cluster)) skip len copied b = Some (r, c1, l1, b1)"
        using e by (auto simp: Option.bind_eq_Some_conv)
      have le: "length c1 + unat l1 \<le> length copied + unat len" using read_cluster_length [OF r] by simp
      obtain nxt b2 where n: "fat_next_cluster P F (ucast cluster) b1 = (nxt, b2)" by fastforce
      consider "fst (snd y) = c1" | "f P F (ucast nxt) 0 l1 c1 b2 = Some y"
        using e True r n by (auto split: if_splits)
      then show ?thesis using IH [of P F "ucast nxt" 0 l1 c1 b2 y] le by cases auto
    next
      case False
      then show ?thesis using e by auto
    qed
  qed
  then show ?thesis by simp
qed

lemma fat_read_length:
  assumes "fat_read P F file off len b = Ret (r, out, off', b')"
  shows "length out \<le> unat len"
proof (cases "\<not> fat_ready F \<or> start_cluster file = 0 \<or> off \<ge> ucast (file_size file) \<or> len = 0")
  case True
  then show ?thesis using assms by (auto simp: fat_read_def split: if_splits)
next
  case False
  let ?len = "if len > ucast (file_size file) - off then ucast (file_size file) - off else len"
  have l: "unat ?len \<le> unat len" by (simp add: word_less_nat_alt)
  obtain r1 b1 where s: "skip_loop P F (ucast (ucast (start_cluster file) :: u16)) off b = Some (r1, b1)"
    using assms False by (auto simp: fat_read_def Let_def run_simps)
  show ?thesis
  proof (cases r1)
    case None
    then show ?thesis using assms False s by (auto simp: fat_read_def Let_def run_simps)
  next
    case (Some cs)
    obtain cl sk where "cs = (cl, sk)" by fastforce
    then obtain r2 b2 where "read_chain P F cl sk ?len [] b1 = Some (r2, out, b2)"
      using assms False s Some by (auto simp: fat_read_def Let_def run_simps split: if_splits)
    from read_chain_length [OF this] l show ?thesis by simp
  qed
qed

end
