(* ===== verification/Vfs.thy ===== *)
theory Vfs
  imports Pipe Memfs Paths Fat
begin

text \<open>
  The virtual file system, kernel/vfs.c: open files as reference counted objects with a backend
  (program image, ramfs file, directory listing, FAT file, pipe end). Objects on the kernel heap are
  entries of maps from object numbers; \<open>kmem n\<close> says whether the \<open>n\<close>-th allocation delivers memory.
  FAT files are those of the theory \<open>Fat\<close> on the state of the block layer; an operation that follows a
  chain of clusters may not return. A call that has to wait on a pipe ends with \<open>Blocked\<close> and
  the section to go on with, which \<open>vfs_resume\<close> runs after the yield.
\<close>

section \<open>State\<close>

datatype vfs_backend = VFS_BACKEND_MEMFS | VFS_BACKEND_RAMFS | VFS_BACKEND_LIST | VFS_BACKEND_FAT | VFS_BACKEND_PIPE

definition VFS_LIST_PATH_MAX :: nat where "VFS_LIST_PATH_MAX = 64"
definition VFS_PATH_MAX :: nat where "VFS_PATH_MAX = 128"

record vfs_file =
  backend :: vfs_backend
  offset :: u64
  mem_file :: "nat option"
  ram_file :: "nat option"
  fat_ref :: "fat_file option"
  pipe_ref :: "nat option"
  is_pipe_writer :: bool
  list_path :: string
  refcount :: int

record 'h vfs =
  images :: "nat \<Rightarrow> u8 list"
  ram :: ramfs
  fatfs :: fat_state
  disk :: "'h block"
  pipes :: "nat \<Rightarrow> pipe option"
  files :: "nat \<Rightarrow> vfs_file option"
  next_obj :: nat
  kmem :: "nat \<Rightarrow> bool"

text \<open>An allocation of a heap object: its number, or NULL.\<close>

definition new_obj :: "'h vfs \<Rightarrow> nat option \<times> 'h vfs" where
  "new_obj s = (if kmem s (next_obj s) then Some (next_obj s) else None, s\<lparr>next_obj := Suc (next_obj s)\<rparr>)"

section \<open>Opening\<close>

fun trim_len :: "string \<Rightarrow> string" where
  "trim_len [] = []"
| "trim_len (c # s) = (if c = CHR ''/'' then trim_len s else c # s)"

definition copy_trimmed :: "string \<Rightarrow> nat \<Rightarrow> string option" where
  "copy_trimmed src dst_len =
     (let t = rev (trim_len (rev src))
      in if length t = 0 \<or> length t + 1 > dst_len then None else Some t)"

definition vfs_alloc :: "vfs_backend \<Rightarrow> 'h vfs \<Rightarrow> nat option \<times> 'h vfs" where
  "vfs_alloc b s =
     (case new_obj s of
        (None, s1) \<Rightarrow> (None, s1)
      | (Some n, s1) \<Rightarrow>
          (Some n, s1\<lparr>files := (files s1)(n \<mapsto> \<lparr>backend = b, offset = 0, mem_file = None, ram_file = None,
             fat_ref = None, pipe_ref = None, is_pipe_writer = False, list_path = [], refcount = 1\<rparr>)\<rparr>))"

definition upd_file :: "nat \<Rightarrow> (vfs_file \<Rightarrow> vfs_file) \<Rightarrow> 'h vfs \<Rightarrow> 'h vfs" where
  "upd_file n g s = s\<lparr>files := (files s)(n := map_option g (files s n))\<rparr>"

definition free_file :: "nat \<Rightarrow> 'h vfs \<Rightarrow> 'h vfs" where
  "free_file n s = s\<lparr>files := (files s)(n := None)\<rparr>"

definition free_opt :: "nat option \<Rightarrow> 'h vfs \<Rightarrow> 'h vfs" where
  "free_opt r s = (case r of None \<Rightarrow> s | Some n \<Rightarrow> free_file n s)"

definition pipe_create :: "'h vfs \<Rightarrow> (nat \<times> nat) option \<times> 'h vfs" where
  "pipe_create s =
     (case new_obj s of
        (None, s1) \<Rightarrow> (None, s1)
      | (Some p, s1) \<Rightarrow>
          (let s2 = s1\<lparr>pipes := (pipes s1)(p := pipe_alloc_struct True)\<rparr>;
               (r, s3) = vfs_alloc VFS_BACKEND_PIPE s2;
               (w, s4) = vfs_alloc VFS_BACKEND_PIPE s3
           in case (r, w) of
                (Some rfile, Some wfile) \<Rightarrow>
                  (Some (rfile, wfile),
                   upd_file wfile (\<lambda>f. f\<lparr>pipe_ref := Some p, is_pipe_writer := True\<rparr>)
                     (upd_file rfile (\<lambda>f. f\<lparr>pipe_ref := Some p, is_pipe_writer := False\<rparr>) s4))
              | _ \<Rightarrow> (None, (free_opt w (free_opt r s4))\<lparr>pipes := (pipes s4)(p := None)\<rparr>)))"

text \<open>Releasing a file: the last reference closes the pipe end and frees the object. A null pointer is no object, and
  nothing happens. Neither does anything for an object freed before: there the code reads memory that is no longer
  its own, which the model does not follow. The one caller that does so is the failure path of \<open>sys_open\<close>.\<close>

definition vfs_close :: "nat \<Rightarrow> 'h vfs \<Rightarrow> 'h vfs" where
  "vfs_close n s =
     (case files s n of
        None \<Rightarrow> s
      | Some f \<Rightarrow>
          if refcount f > 1 then upd_file n (\<lambda>f. f\<lparr>refcount := refcount f - 1\<rparr>) s
          else free_file n
            (case (backend f, pipe_ref f) of
               (VFS_BACKEND_PIPE, Some p) \<Rightarrow>
                 (case pipes s p of
                    None \<Rightarrow> s
                  | Some pp \<Rightarrow>
                      (let (pp', loose) = pipe_close_impl (is_pipe_writer f) pp
                       in s\<lparr>pipes := (pipes s)(p := (if loose then None else Some pp'))\<rparr>))
             | _ \<Rightarrow> s))"

definition vfs_dup :: "nat \<Rightarrow> 'h vfs \<Rightarrow> nat \<times> 'h vfs" where
  "vfs_dup n s = (n, upd_file n (\<lambda>f. f\<lparr>refcount := refcount f + 1\<rparr>) s)"

text \<open>The three ways to open a FAT path, on the object the code allocates for it first.\<close>

definition open_fat :: "'h port_io \<Rightarrow> bool \<Rightarrow> string \<Rightarrow> 'h vfs \<Rightarrow> ((int + fat_file) \<times> 'h vfs) run" where
  "open_fat P want_dir fat_path s =
     (if want_dir
      then (case copy_trimmed fat_path VFS_LIST_PATH_MAX of
              None \<Rightarrow> Ret (Inl SYSCALL_EINVAL, s)
            | Some trimmed \<Rightarrow>
                bind_run (fat_mkdir P (fatfs s) trimmed (disk s)) (\<lambda>(r, d1).
                  if r \<noteq> 0 then Ret (Inl SYSCALL_ENOENT, s\<lparr>disk := d1\<rparr>)
                  else bind_run (fat_open_dir P (fatfs s) trimmed d1) (\<lambda>(f, d2).
                    Ret (case f of None \<Rightarrow> Inl SYSCALL_ENOENT | Some ff \<Rightarrow> Inr ff, s\<lparr>disk := d2\<rparr>))))
      else bind_run (fat_open P (fatfs s) fat_path (disk s)) (\<lambda>(f, d1).
             case f of
               Some ff \<Rightarrow> Ret (Inr ff, s\<lparr>disk := d1\<rparr>)
             | None \<Rightarrow>
                 bind_run (fat_create P (fatfs s) fat_path d1) (\<lambda>(g, d2).
                   Ret (case g of None \<Rightarrow> Inl SYSCALL_ENOENT | Some ff \<Rightarrow> Inr ff, s\<lparr>disk := d2\<rparr>))))"

definition open_ls :: "string \<Rightarrow> 'h vfs \<Rightarrow> (int + nat) \<times> 'h vfs" where
  "open_ls suffix s =
     (if suffix \<noteq> [] \<and> hd suffix \<noteq> CHR ''/'' then (Inl SYSCALL_EINVAL, s)
      else (case vfs_alloc VFS_BACKEND_LIST s of
              (None, s1) \<Rightarrow> (Inl SYSCALL_ENOMEM, s1)
            | (Some n, s1) \<Rightarrow>
                if length suffix > 1
                then (case normalize_path suffix VFS_LIST_PATH_MAX of
                        None \<Rightarrow> (Inl SYSCALL_EINVAL, vfs_close n s1)
                      | Some (_, p) \<Rightarrow> (Inr n, upd_file n (\<lambda>f. f\<lparr>list_path := p\<rparr>) s1))
                else (Inr n, s1)))"

definition open_with :: "vfs_backend \<Rightarrow> (vfs_file \<Rightarrow> vfs_file) \<Rightarrow> 'h vfs \<Rightarrow> (int + nat) \<times> 'h vfs" where
  "open_with b g s =
     (case vfs_alloc b s of
        (None, s1) \<Rightarrow> (Inl SYSCALL_ENOMEM, s1)
      | (Some n, s1) \<Rightarrow> (Inr n, upd_file n g s1))"

definition vfs_open :: "'h port_io \<Rightarrow> string \<Rightarrow> 'h vfs \<Rightarrow> ((int + nat) \<times> 'h vfs) run" where
  "vfs_open P path s =
     (if take 1 path \<noteq> ''/'' then Ret (Inl SYSCALL_EINVAL, s)
      else if starts_with path ''/dev/ls'' then Ret (open_ls (drop 7 path) s)
      else (case normalize_path path VFS_PATH_MAX of
              None \<Rightarrow> Ret (Inl SYSCALL_EINVAL, s)
            | Some (want_dir, use_path) \<Rightarrow>
                (case memfs_lookup (images s) use_path of
                   Some i \<Rightarrow> Ret (open_with VFS_BACKEND_MEMFS (\<lambda>f. f\<lparr>mem_file := Some i\<rparr>) s)
                 | None \<Rightarrow>
                     if starts_with use_path ''/disk/''
                     then (case new_obj s of
                             (None, s1) \<Rightarrow> Ret (Inl SYSCALL_ENOMEM, s1)
                           | (Some _, s1) \<Rightarrow>
                               bind_run (open_fat P want_dir (drop 6 use_path) s1) (\<lambda>(r, s2).
                                 case r of
                                   Inl e \<Rightarrow> Ret (Inl e, s2)
                                 | Inr ff \<Rightarrow> Ret (open_with VFS_BACKEND_FAT (\<lambda>f. f\<lparr>fat_ref := Some ff\<rparr>) s2)))
                     else if starts_with use_path ''/bin'' then Ret (Inl SYSCALL_ENOENT, s)
                     else (case ramfs_open use_path (ram s) of
                             (None, r1) \<Rightarrow> Ret (Inl SYSCALL_ENOMEM, s\<lparr>ram := r1\<rparr>)
                           | (Some i, r1) \<Rightarrow>
                               Ret (open_with VFS_BACKEND_RAMFS (\<lambda>f. f\<lparr>ram_file := Some i\<rparr>) (s\<lparr>ram := r1\<rparr>))))))"

section \<open>Reading and writing\<close>

datatype io = Io int "u8 list" | Blocked nat pipe_call

definition to_bytes :: "string \<Rightarrow> u8 list" where "to_bytes s = map of_char s"

text \<open>The listing that a read of \<open>/dev/ls\<close> rebuilds each time.\<close>

definition listing :: "'h port_io \<Rightarrow> vfs_file \<Rightarrow> 'h vfs \<Rightarrow> (string \<times> 'h block) run" where
  "listing P f s =
     (if list_path f \<noteq> [] \<and> starts_with (list_path f) ''/disk''
      then (let fat_path = drop 5 (list_path f)
            in fat_list_dir P (fatfs s) (Some (if take 1 fat_path = ''/'' then tl fat_path else fat_path)) 4096 (disk s))
      else Ret (memfs_list (images s) 4096, disk s))"

text \<open>The result, the bytes that arrive in the buffer, and the new state. An error of the FAT file system may come
  after some sectors have been copied.\<close>

definition vfs_read :: "'h port_io \<Rightarrow> nat \<Rightarrow> u64 \<Rightarrow> 'h vfs \<Rightarrow> (io \<times> 'h vfs) run" where
  "vfs_read P n len s =
     (case files s n of
        None \<Rightarrow> Ret (Io (- SYSCALL_EINVAL) [], s)
      | Some f \<Rightarrow>
          if len = 0 then Ret (Io 0 [], s)
          else (case backend f of
            VFS_BACKEND_MEMFS \<Rightarrow>
              (let out = (case mem_file f of None \<Rightarrow> [] | Some i \<Rightarrow> memfs_read (memfs_init (images s) ! i) (offset f) len)
               in Ret (Io (int (length out)) out, upd_file n (\<lambda>f. f\<lparr>offset := offset f + of_nat (length out)\<rparr>) s))
          | VFS_BACKEND_RAMFS \<Rightarrow>
              (case ram_file f of
                 None \<Rightarrow> Ret (Io 0 [], s)
               | Some i \<Rightarrow> (let (out, off) = ramfs_read (ram s ! i) (offset f) len
                           in Ret (Io (int (length out)) out, upd_file n (\<lambda>f. f\<lparr>offset := off\<rparr>) s)))
          | VFS_BACKEND_LIST \<Rightarrow>
              bind_run (listing P f s) (\<lambda>(l, d).
                let total = to_bytes l
                in if offset f \<ge> of_nat (length total) then Ret (Io 0 [], s\<lparr>disk := d\<rparr>)
                   else (let out = take (unat len) (drop (unat (offset f)) total)
                         in Ret (Io (int (length out)) out, upd_file n (\<lambda>f. f\<lparr>offset := offset f + of_nat (length out)\<rparr>) (s\<lparr>disk := d\<rparr>))))
          | VFS_BACKEND_FAT \<Rightarrow>
              (case fat_ref f of
                 None \<Rightarrow> Ret (Io (- SYSCALL_EIO) [], s)
               | Some ff \<Rightarrow>
                   bind_run (fat_read P (fatfs s) ff (offset f) len (disk s)) (\<lambda>(r, out, off, d).
                     Ret (Io (if r < 0 then - SYSCALL_EIO else r) out, upd_file n (\<lambda>f. f\<lparr>offset := off\<rparr>) (s\<lparr>disk := d\<rparr>))))
          | VFS_BACKEND_PIPE \<Rightarrow>
              (case pipe_ref f of
                 None \<Rightarrow> Ret (Io (-1) [], s)
               | Some p \<Rightarrow>
                   (case pipes s p of
                      None \<Rightarrow> Ret (Io (-1) [], s)
                    | Some pp \<Rightarrow>
                        (case pipe_read_impl len pp of
                           (Done r out, pp') \<Rightarrow> Ret (Io r out, s\<lparr>pipes := (pipes s)(p \<mapsto> pp')\<rparr>)
                         | (c, pp') \<Rightarrow> Ret (Blocked p c, s\<lparr>pipes := (pipes s)(p \<mapsto> pp')\<rparr>))))))"

text \<open>A read that finds the pipe empty, and a write whose section ends with the pipe full, yield and go on
  with their next section on the same pipe: \<open>vfs_resume\<close>. The rest of a write is kept as the bytes still to go, which the
  waiting process cannot change. A pipe freed in the meantime counts as none, as in the calls themselves.\<close>

definition vfs_write :: "(u64 \<Rightarrow> bool) \<Rightarrow> 'h port_io \<Rightarrow> nat \<Rightarrow> u8 list \<Rightarrow> 'h vfs \<Rightarrow> (io \<times> 'h vfs) run" where
  "vfs_write mem P n src s =
     (case files s n of
        None \<Rightarrow> Ret (Io (- SYSCALL_EINVAL) [], s)
      | Some f \<Rightarrow>
          if src = [] then Ret (Io 0 [], s)
          else (case backend f of
            VFS_BACKEND_MEMFS \<Rightarrow> Ret (Io (- SYSCALL_EIO) [], s)
          | VFS_BACKEND_RAMFS \<Rightarrow>
              (case ram_file f of
                 None \<Rightarrow> Ret (Io 0 [], s)
               | Some i \<Rightarrow>
                   bind_run (ramfs_write mem (ram s ! i) (offset f) src) (\<lambda>(r, off, rfile).
                     Ret (Io r [], upd_file n (\<lambda>f. f\<lparr>offset := off\<rparr>) (s\<lparr>ram := (ram s)[i := rfile]\<rparr>))))
          | VFS_BACKEND_LIST \<Rightarrow> Ret (Io (- SYSCALL_EBADF) [], s)
          | VFS_BACKEND_FAT \<Rightarrow>
              (case fat_ref f of
                 None \<Rightarrow> Ret (Io (- SYSCALL_EIO) [], s)
               | Some ff \<Rightarrow>
                   bind_run (fat_write P (fatfs s) ff (offset f) src (disk s)) (\<lambda>(r, off, ff', d).
                     Ret (Io (if r < 0 then - SYSCALL_EIO else r) [],
                          upd_file n (\<lambda>f. f\<lparr>offset := off, fat_ref := Some ff'\<rparr>) (s\<lparr>disk := d\<rparr>))))
          | VFS_BACKEND_PIPE \<Rightarrow>
              (case pipe_ref f of
                 None \<Rightarrow> Ret (Io (-1) [], s)
               | Some p \<Rightarrow>
                   (case pipes s p of
                      None \<Rightarrow> Ret (Io (-1) [], s)
                    | Some pp \<Rightarrow>
                        (case pipe_write_impl src pp of
                           (Done r _, pp') \<Rightarrow> Ret (Io r [], s\<lparr>pipes := (pipes s)(p \<mapsto> pp')\<rparr>)
                         | (c, pp') \<Rightarrow> Ret (Blocked p c, s\<lparr>pipes := (pipes s)(p \<mapsto> pp')\<rparr>))))))"

definition vfs_resume :: "nat \<Rightarrow> pipe_call \<Rightarrow> 'h vfs \<Rightarrow> io \<times> 'h vfs" where
  "vfs_resume p c s =
     (case pipes s p of
        None \<Rightarrow> (Io (-1) [], s)
      | Some pp \<Rightarrow>
          (case pipe_section c pp of
             (Done r out, pp') \<Rightarrow> (Io r out, s\<lparr>pipes := (pipes s)(p \<mapsto> pp')\<rparr>)
           | (c', pp') \<Rightarrow> (Blocked p c', s\<lparr>pipes := (pipes s)(p \<mapsto> pp')\<rparr>)))"

section \<open>Pipe ends and open files\<close>

definition file_end :: "vfs_file \<Rightarrow> (nat \<times> bool) option" where
  "file_end f = (if backend f = VFS_BACKEND_PIPE then map_option (\<lambda>p. (p, is_pipe_writer f)) (pipe_ref f) else None)"

definition end_set :: "(nat \<Rightarrow> vfs_file option) \<Rightarrow> nat \<Rightarrow> bool \<Rightarrow> nat set" where
  "end_set fs p w = {n. \<exists>f. fs n = Some f \<and> file_end f = Some (p, w)}"

text \<open>Every open file is alive and referenced, every pipe end belongs to a live pipe, and the reader and
  writer counts of a pipe are the numbers of open files for its two ends.\<close>

definition vfs_inv :: "'h vfs \<Rightarrow> bool" where
  "vfs_inv s \<longleftrightarrow>
     (\<forall>n f. files s n = Some f \<longrightarrow> n < next_obj s \<and> refcount f \<ge> 1 \<and>
        (backend f = VFS_BACKEND_PIPE \<longrightarrow> (\<exists>p. pipe_ref f = Some p \<and> pipes s p \<noteq> None))) \<and>
     (\<forall>p pp. pipes s p = Some pp \<longrightarrow> p < next_obj s \<and> pipe_inv pp \<and>
        readers pp = int (card (end_set (files s) p False)) \<and> writers pp = int (card (end_set (files s) p True)) \<and>
        (readers pp \<noteq> 0 \<or> writers pp \<noteq> 0))"

lemma vfs_invD:
  assumes "vfs_inv s"
  shows "files s n = Some f \<Longrightarrow> n < next_obj s" "files s n = Some f \<Longrightarrow> refcount f \<ge> 1"
    "files s n = Some f \<Longrightarrow> backend f = VFS_BACKEND_PIPE \<Longrightarrow> \<exists>p. pipe_ref f = Some p \<and> pipes s p \<noteq> None"
    "pipes s p = Some pp \<Longrightarrow> p < next_obj s" "pipes s p = Some pp \<Longrightarrow> pipe_inv pp"
    "pipes s p = Some pp \<Longrightarrow> readers pp = int (card (end_set (files s) p False))"
    "pipes s p = Some pp \<Longrightarrow> writers pp = int (card (end_set (files s) p True))"
    "pipes s p = Some pp \<Longrightarrow> readers pp \<noteq> 0 \<or> writers pp \<noteq> 0"
  using assms unfolding vfs_inv_def by blast+

lemma vfs_invI:
  assumes "\<And>n f. files s n = Some f \<Longrightarrow> n < next_obj s" "\<And>n f. files s n = Some f \<Longrightarrow> refcount f \<ge> 1"
    "\<And>n f. files s n = Some f \<Longrightarrow> backend f = VFS_BACKEND_PIPE \<Longrightarrow> \<exists>p. pipe_ref f = Some p \<and> pipes s p \<noteq> None"
    "\<And>p pp. pipes s p = Some pp \<Longrightarrow> p < next_obj s" "\<And>p pp. pipes s p = Some pp \<Longrightarrow> pipe_inv pp"
    "\<And>p pp. pipes s p = Some pp \<Longrightarrow> readers pp = int (card (end_set (files s) p False))"
    "\<And>p pp. pipes s p = Some pp \<Longrightarrow> writers pp = int (card (end_set (files s) p True))"
    "\<And>p pp. pipes s p = Some pp \<Longrightarrow> readers pp \<noteq> 0 \<or> writers pp \<noteq> 0"
  shows "vfs_inv s"
  using assms unfolding vfs_inv_def by blast

lemma end_set_finite: "vfs_inv s \<Longrightarrow> finite (end_set (files s) p w)"
  by (rule finite_subset [of _ "{..<next_obj s}"]) (auto simp: end_set_def dest: vfs_invD(1))

lemma end_set_same:
  "file_end f' = file_end f \<Longrightarrow> fs n = Some f \<Longrightarrow> end_set (fs(n \<mapsto> f')) p w = end_set fs p w"
  by (auto simp: end_set_def)

lemma end_set_new:
  "fs n = None \<Longrightarrow> end_set (fs(n \<mapsto> f)) p w = (if file_end f = Some (p, w) then insert n (end_set fs p w) else end_set fs p w)"
  by (auto simp: end_set_def)

lemma end_set_remove: "end_set (fs(n := None)) p w = end_set fs p w - {n}"
  by (auto simp: end_set_def)

lemma vfs_inv_fresh:
  assumes "vfs_inv s" shows "files s (next_obj s) = None" "pipes s (next_obj s) = None"
  using vfs_invD(1,4) [OF assms] by (metis less_irrefl not_None_eq)+

text \<open>Changes that touch neither pipe ends nor counts.\<close>

lemma vfs_inv_new_obj: "vfs_inv s \<Longrightarrow> vfs_inv (snd (new_obj s))"
  unfolding vfs_inv_def new_obj_def by (fastforce simp: less_Suc_eq)

lemma vfs_inv_other: "vfs_inv (s\<lparr>disk := d\<rparr>) \<longleftrightarrow> vfs_inv s" "vfs_inv (s\<lparr>ram := r\<rparr>) \<longleftrightarrow> vfs_inv s"
  by (simp_all add: vfs_inv_def)

lemma vfs_inv_upd_file:
  assumes inv: "vfs_inv s"
    and g: "\<And>f. file_end (g f) = file_end f \<and> backend (g f) = backend f \<and> pipe_ref (g f) = pipe_ref f"
      "\<And>f. refcount f \<ge> 1 \<Longrightarrow> files s n = Some f \<Longrightarrow> refcount (g f) \<ge> 1"
  shows "vfs_inv (upd_file n g s)"
proof (cases "files s n")
  case None
  then have "upd_file n g s = s" by (simp add: upd_file_def fun_upd_idem)
  with inv show ?thesis by simp
next
  case (Some f)
  have e: "end_set ((files s)(n \<mapsto> g f)) p w = end_set (files s) p w" for p w
    by (rule end_set_same) (use g Some in auto)
  have "vfs_inv (s\<lparr>files := (files s)(n \<mapsto> g f)\<rparr>)"
    unfolding vfs_inv_def
  proof (intro conjI allI impI)
    fix m f' assume m: "files (s\<lparr>files := (files s)(n \<mapsto> g f)\<rparr>) m = Some f'"
    show "m < next_obj (s\<lparr>files := (files s)(n \<mapsto> g f)\<rparr>)" "refcount f' \<ge> 1"
      using m vfs_invD(1,2) [OF inv] g(2) Some by (auto split: if_splits)
    assume "backend f' = VFS_BACKEND_PIPE"
    then show "\<exists>p. pipe_ref f' = Some p \<and> pipes (s\<lparr>files := (files s)(n \<mapsto> g f)\<rparr>) p \<noteq> None"
      using m vfs_invD(3) [OF inv] g(1) Some by (auto split: if_splits)
  next
    fix p pp assume "pipes (s\<lparr>files := (files s)(n \<mapsto> g f)\<rparr>) p = Some pp"
    then have p: "pipes s p = Some pp" by simp
    show "p < next_obj (s\<lparr>files := (files s)(n \<mapsto> g f)\<rparr>)" "pipe_inv pp"
      "readers pp = int (card (end_set (files (s\<lparr>files := (files s)(n \<mapsto> g f)\<rparr>)) p False))"
      "writers pp = int (card (end_set (files (s\<lparr>files := (files s)(n \<mapsto> g f)\<rparr>)) p True))"
      "readers pp \<noteq> 0 \<or> writers pp \<noteq> 0"
      using vfs_invD(4-8) [OF inv p] e by simp_all
  qed
  then show ?thesis by (simp add: upd_file_def Some)
qed

lemma vfs_inv_set_pipe:
  assumes inv: "vfs_inv s" and p: "pipes s p = Some pp"
    and q: "pipe_inv pp'" "readers pp' = readers pp" "writers pp' = writers pp"
  shows "vfs_inv (s\<lparr>pipes := (pipes s)(p \<mapsto> pp')\<rparr>)"
proof (rule vfs_invI)
  fix n f assume "files (s\<lparr>pipes := (pipes s)(p \<mapsto> pp')\<rparr>) n = Some f" "backend f = VFS_BACKEND_PIPE"
  then show "\<exists>q. pipe_ref f = Some q \<and> pipes (s\<lparr>pipes := (pipes s)(p \<mapsto> pp')\<rparr>) q \<noteq> None"
    using vfs_invD(3) [OF inv, of n f] by auto
next
  fix r rr assume "pipes (s\<lparr>pipes := (pipes s)(p \<mapsto> pp')\<rparr>) r = Some rr"
  then show "readers rr \<noteq> 0 \<or> writers rr \<noteq> 0"
    using vfs_invD(8) [OF inv, of r] p q by (cases "r = p") auto
qed (use vfs_invD(1,2,4-7) [OF inv] p q in \<open>auto split: if_splits\<close>)

lemma new_obj_cases:
  obtains (none) "new_obj s = (None, s\<lparr>next_obj := Suc (next_obj s)\<rparr>)"
  | (some) "new_obj s = (Some (next_obj s), s\<lparr>next_obj := Suc (next_obj s)\<rparr>)"
  by (cases "kmem s (next_obj s)") (simp_all add: new_obj_def)

text \<open>Removing a file object whose end, if it has one, was just closed.\<close>

lemma vfs_inv_close:
  assumes inv: "vfs_inv s" shows "vfs_inv (vfs_close n s)"
proof (cases "files s n")
  case None
  then show ?thesis using inv by (simp add: vfs_close_def)
next
  case (Some f)
  note f = this
  show ?thesis
  proof (cases "refcount f > 1")
    case True
    have "vfs_inv (upd_file n (\<lambda>f. f\<lparr>refcount := refcount f - 1\<rparr>) s)"
      by (rule vfs_inv_upd_file [OF inv]) (use f True in \<open>auto simp: file_end_def\<close>)
    then show ?thesis using f True by (simp add: vfs_close_def)
  next
    case False
    have fin: "finite (end_set (files s) p w)" for p w by (rule end_set_finite [OF inv])
    show ?thesis
    proof (cases "backend f = VFS_BACKEND_PIPE")
      case True
      from vfs_invD(3) [OF inv f True] obtain p pp where p: "pipe_ref f = Some p" "pipes s p = Some pp" by auto
      let ?w = "is_pipe_writer f"
      have fe: "file_end f = Some (p, ?w)" using True p by (simp add: file_end_def)
      have mem: "n \<in> end_set (files s) p ?w" using f fe by (auto simp: end_set_def)
      have nm: "n \<notin> end_set (files s) q v" if "(q, v) \<noteq> (p, ?w)" for q v
        using f fe that by (auto simp: end_set_def)
      obtain pp' l where cl: "pipe_close_impl ?w pp = (pp', l)" by fastforce
      let ?s' = "s\<lparr>pipes := (pipes s)(p := (if l then None else Some pp')), files := (files s)(n := None)\<rparr>"
      have cs: "vfs_close n s = ?s'"
        using f False True p cl by (simp add: vfs_close_def free_file_def)
      have c: "int (card (end_set (files s) p ?w - {n})) = int (card (end_set (files s) p ?w)) - 1"
        using mem card_Suc_Diff1 [OF fin mem] by simp
      have rw: "readers pp' = int (card (end_set (files s) p False - {n}))"
        "writers pp' = int (card (end_set (files s) p True - {n}))"
        using cl c nm [of p "\<not> ?w"] vfs_invD(6,7) [OF inv p(2)]
        by (cases ?w; auto simp: pipe_close_impl_def Let_def)+
      have l: "l \<longleftrightarrow> readers pp' = 0 \<and> writers pp' = 0" and pi: "pipe_inv pp'"
        using cl vfs_invD(5) [OF inv p(2)] by (auto simp: pipe_close_impl_def Let_def pipe_inv_def)
      have es: "end_set (files ?s') q v = end_set (files s) q v - {n}" for q v by (simp add: end_set_remove)
      have "vfs_inv ?s'"
      proof (rule vfs_invI)
        fix m f' assume m0: "files ?s' m = Some f'"
        then have m: "m \<noteq> n" "files s m = Some f'" by (auto split: if_splits)
        show "m < next_obj ?s'" "refcount f' \<ge> 1" using vfs_invD(1,2) [OF inv m(2)] by simp_all
        assume b: "backend f' = VFS_BACKEND_PIPE"
        from vfs_invD(3) [OF inv m(2) b] obtain q where q: "pipe_ref f' = Some q" "pipes s q \<noteq> None" by auto
        have "\<not> l" if "q = p"
        proof -
          have "m \<in> end_set (files s) p (is_pipe_writer f') - {n}"
            using m b q that by (auto simp: end_set_def file_end_def)
          then have "card (end_set (files s) p (is_pipe_writer f') - {n}) \<noteq> 0"
            using fin [of p "is_pipe_writer f'"] by (auto simp: card_eq_0_iff)
          then show ?thesis using rw l by (cases "is_pipe_writer f'") auto
        qed
        then show "\<exists>q. pipe_ref f' = Some q \<and> pipes ?s' q \<noteq> None" using q by auto
      next
        fix q qq assume qq: "pipes ?s' q = Some qq"
        consider (same) "q = p" "\<not> l" "qq = pp'" | (other) "q \<noteq> p" "pipes s q = Some qq"
          using qq by (auto split: if_splits)
        then have C: "q < next_obj s \<and> pipe_inv qq \<and> (readers qq \<noteq> 0 \<or> writers qq \<noteq> 0) \<and>
            readers qq = int (card (end_set (files s) q False - {n})) \<and>
            writers qq = int (card (end_set (files s) q True - {n}))"
        proof cases
          case same
          then show ?thesis using rw l pi vfs_invD(4) [OF inv p(2)] by simp
        next
          case other
          then show ?thesis using vfs_invD(4-8) [OF inv other(2)] nm [of q] by simp
        qed
        show "q < next_obj ?s'" using C by simp
        show "pipe_inv qq" "readers qq \<noteq> 0 \<or> writers qq \<noteq> 0"
          "readers qq = int (card (end_set (files ?s') q False))" "writers qq = int (card (end_set (files ?s') q True))"
          using C unfolding es by blast+
      qed
      with cs show ?thesis by simp
    next
      case np: False
      have fe: "file_end f = None" using np by (simp add: file_end_def)
      have "vfs_close n s = s\<lparr>files := (files s)(n := None)\<rparr>"
        using f False np by (cases "backend f") (auto simp: vfs_close_def free_file_def)
      moreover have "end_set ((files s)(n := None)) p w = end_set (files s) p w" for p w
        using f fe by (auto simp: end_set_def)
      ultimately show ?thesis
        using vfs_invD [OF inv] by (intro vfs_invI) (auto split: if_splits)
    qed
  qed
qed

lemma vfs_inv_add_file:
  assumes inv: "vfs_inv s" and b: "backend f \<noteq> VFS_BACKEND_PIPE" "refcount f \<ge> 1"
  shows "vfs_inv (s\<lparr>next_obj := Suc (next_obj s), files := (files s)(next_obj s \<mapsto> f)\<rparr>)"
proof -
  have "file_end f = None" using b by (simp add: file_end_def)
  then have e: "end_set ((files s)(next_obj s \<mapsto> f)) p w = end_set (files s) p w" for p w
    using end_set_new [of "files s" "next_obj s" f] vfs_inv_fresh(1) [OF inv] by simp
  show ?thesis
    by (rule vfs_invI) (use vfs_invD [OF inv] b e in \<open>auto split: if_splits simp: less_Suc_eq\<close>)
qed

lemma open_with_inv:
  assumes inv: "vfs_inv s" and b: "b \<noteq> VFS_BACKEND_PIPE"
    and g: "\<And>f. backend (g f) = backend f \<and> refcount (g f) = refcount f"
  shows "vfs_inv (snd (open_with b g s))"
proof (cases rule: new_obj_cases [of s, case_names none some])
  case none
  then show ?thesis using vfs_inv_new_obj [OF inv] by (simp add: open_with_def vfs_alloc_def)
next
  case some
  let ?f = "\<lparr>backend = b, offset = 0, mem_file = None, ram_file = None, fat_ref = None, pipe_ref = None,
    is_pipe_writer = False, list_path = [], refcount = 1\<rparr>"
  have "open_with b g s = (Inr (next_obj s), s\<lparr>next_obj := Suc (next_obj s), files := (files s)(next_obj s \<mapsto> g ?f)\<rparr>)"
    using some by (simp add: open_with_def vfs_alloc_def upd_file_def)
  moreover have "vfs_inv (s\<lparr>next_obj := Suc (next_obj s), files := (files s)(next_obj s \<mapsto> g ?f)\<rparr>)"
    by (rule vfs_inv_add_file [OF inv]) (use b g [of ?f] in auto)
  ultimately show ?thesis by simp
qed

lemma open_ls_inv: assumes inv: "vfs_inv s" shows "vfs_inv (snd (open_ls suffix s))"
proof -
  have a: "vfs_inv (snd (vfs_alloc VFS_BACKEND_LIST s))"
    using open_with_inv [OF inv, of VFS_BACKEND_LIST id]
    by (cases "vfs_alloc VFS_BACKEND_LIST s")
      (auto simp: open_with_def upd_file_def fun_upd_idem option.map_id split: option.splits)
  obtain r s1 where r: "vfs_alloc VFS_BACKEND_LIST s = (r, s1)" by fastforce
  with a have i1: "vfs_inv s1" by simp
  have "vfs_inv (upd_file n (\<lambda>f. f\<lparr>list_path := p\<rparr>) s1)" for n p
    by (rule vfs_inv_upd_file [OF i1]) (auto simp: file_end_def)
  then show ?thesis
    using inv i1 r vfs_inv_close [OF i1]
    by (auto simp: open_ls_def split: option.splits)
qed

lemma open_fat_inv: "vfs_inv s \<Longrightarrow> open_fat P d p s = Ret (r, s') \<Longrightarrow> vfs_inv s'"
  by (auto simp: open_fat_def run_simps vfs_inv_other split: option.splits prod.splits if_splits)

lemma open_with_ref_inv:
  assumes "vfs_inv s"
  shows "open_with VFS_BACKEND_MEMFS (\<lambda>f. f\<lparr>mem_file := x\<rparr>) s = (r, s') \<Longrightarrow> vfs_inv s'"
    "open_with VFS_BACKEND_FAT (\<lambda>f. f\<lparr>fat_ref := y\<rparr>) s = (r, s') \<Longrightarrow> vfs_inv s'"
    "open_with VFS_BACKEND_RAMFS (\<lambda>f. f\<lparr>ram_file := z\<rparr>) s = (r, s') \<Longrightarrow> vfs_inv s'"
  using open_with_inv [OF assms, of VFS_BACKEND_MEMFS "\<lambda>f. f\<lparr>mem_file := x\<rparr>"]
    open_with_inv [OF assms, of VFS_BACKEND_FAT "\<lambda>f. f\<lparr>fat_ref := y\<rparr>"]
    open_with_inv [OF assms, of VFS_BACKEND_RAMFS "\<lambda>f. f\<lparr>ram_file := z\<rparr>"] by auto

lemma open_disk_inv:
  assumes "vfs_inv s"
    and "bind_run (open_fat P d p s) (\<lambda>(r, s2). case r of Inl e \<Rightarrow> Ret (Inl e, s2)
      | Inr ff \<Rightarrow> Ret (open_with VFS_BACKEND_FAT (\<lambda>f. f\<lparr>fat_ref := Some ff\<rparr>) s2)) = Ret (res, s')"
  shows "vfs_inv s'"
proof -
  obtain r s2 where o: "open_fat P d p s = Ret (r, s2)" using assms(2) by (cases "open_fat P d p s") auto
  have "vfs_inv s2" by (rule open_fat_inv [OF assms(1) o])
  then show ?thesis using assms(2) o open_with_ref_inv(2) by (cases r) auto
qed

lemma vfs_open_inv: assumes inv: "vfs_inv s" and o: "vfs_open P path s = Ret (res, s')" shows "vfs_inv s'"
proof -
  obtain r s1 where n: "new_obj s = (r, s1)" by fastforce
  have i1: "vfs_inv s1" using vfs_inv_new_obj [OF inv] n by simp
  have ol: "open_ls p s = (q, s2) \<Longrightarrow> vfs_inv s2" for p q s2 using open_ls_inv [OF inv, of p] by simp
  have ram: "vfs_inv (s\<lparr>ram := x\<rparr>)" for x using inv by (simp add: vfs_inv_other)
  note f = ol open_with_ref_inv(1) [OF inv] open_with_ref_inv(3) [OF ram] open_disk_inv [OF i1]
  show ?thesis
  proof (cases "take 1 path \<noteq> ''/'' \<or> starts_with path ''/dev/ls''")
    case True
    then show ?thesis using o inv ol by (auto simp: vfs_open_def split: if_splits)
  next
    case False
    then show ?thesis using o inv i1 ram n
      by (auto simp: vfs_open_def simp del: bind_run.simps split: option.splits prod.splits if_splits intro: f)
  qed
qed

lemma vfs_dup_inv: "vfs_inv s \<Longrightarrow> vfs_inv (snd (vfs_dup n s))"
  unfolding vfs_dup_def snd_conv by (rule vfs_inv_upd_file) (auto simp: file_end_def)

lemma upd_offset_inv: "vfs_inv s \<Longrightarrow> vfs_inv (upd_file n (\<lambda>f. f\<lparr>offset := h f\<rparr>) s)"
  by (rule vfs_inv_upd_file) (auto simp: file_end_def)

lemma pipe_read_keeps:
  assumes "pipe_inv p" "pipe_read_impl len p = (c, p')"
  shows "pipe_inv p'" "readers p' = readers p" "writers p' = writers p"
  using assms pipe_drain_spec [OF assms(1), of "unat len"]
  by (auto simp: pipe_read_impl_def split: if_splits prod.splits)

lemma pipe_write_keeps:
  assumes "pipe_inv p" "pipe_write_impl data p = (c, p')"
  shows "pipe_inv p'" "readers p' = readers p" "writers p' = writers p"
  using assms pipe_fill_spec [OF assms(1), of data]
  by (auto simp: pipe_write_impl_def pipe_write_loop_def Let_def split: if_splits prod.splits)

lemma pipe_section_keeps:
  assumes "pipe_inv p" "pipe_section c p = (c', p')"
  shows "pipe_inv p'" "readers p' = readers p" "writers p' = writers p"
proof -
  have w: "pipe_inv p' \<and> readers p' = readers p \<and> writers p' = writers p" if "pipe_write_loop data w p = (c', p')" for data w
    using that pipe_fill_spec [OF assms(1), of "drop w data"]
    by (auto simp: pipe_write_loop_def Let_def split: if_splits prod.splits)
  have "pipe_inv p' \<and> readers p' = readers p \<and> writers p' = writers p"
    using assms w by (cases c) (auto dest: pipe_read_keeps pipe_write_keeps)
  then show "pipe_inv p'" "readers p' = readers p" "writers p' = writers p" by simp_all
qed

lemma vfs_resume_inv: assumes inv: "vfs_inv s" and r: "vfs_resume p c s = (io, s')" shows "vfs_inv s'"
proof (cases "pipes s p")
  case (Some pp)
  obtain c' pp' where e: "pipe_section c pp = (c', pp')" by fastforce
  have "vfs_inv (s\<lparr>pipes := (pipes s)(p \<mapsto> pp')\<rparr>)"
    by (rule vfs_inv_set_pipe [OF inv Some]) (use pipe_section_keeps [OF vfs_invD(5) [OF inv Some] e] in auto)
  then show ?thesis using r Some e by (auto simp: vfs_resume_def split: pipe_call.splits)
qed (use assms in \<open>simp add: vfs_resume_def\<close>)

lemma vfs_read_inv: assumes inv: "vfs_inv s" and r: "vfs_read P n len s = Ret (io, s')" shows "vfs_inv s'"
proof (cases "files s n")
  case (Some f)
  have p: "vfs_inv (s\<lparr>pipes := (pipes s)(p \<mapsto> pp')\<rparr>)"
    if "pipes s p = Some pp" "pipe_read_impl len pp = (c, pp')" for p pp pp' c
    by (rule vfs_inv_set_pipe [OF inv that(1)]) (use pipe_read_keeps [OF vfs_invD(5) [OF inv that(1)] that(2)] in auto)
  have d: "vfs_inv (s\<lparr>disk := d\<rparr>)" for d using inv by (simp add: vfs_inv_other)
  note simps = vfs_read_def Some Let_def run_simps
  show ?thesis
  proof (cases "backend f")
    case VFS_BACKEND_MEMFS
    then show ?thesis using r inv by (auto simp: simps split: if_splits intro: upd_offset_inv)
  next
    case VFS_BACKEND_RAMFS
    then show ?thesis using r inv by (auto simp: simps split: if_splits option.splits prod.splits intro: upd_offset_inv)
  next
    case VFS_BACKEND_LIST
    then show ?thesis using r inv d by (cases "listing P f s") (auto simp: simps split: if_splits intro: upd_offset_inv [OF d])
  next
    case VFS_BACKEND_FAT
    then show ?thesis using r inv by (auto simp: simps split: if_splits option.splits intro: upd_offset_inv [OF d])
  next
    case VFS_BACKEND_PIPE
    then show ?thesis using r inv by (auto simp: simps split: if_splits option.splits prod.splits pipe_call.splits intro: p)
  qed
qed (use assms in \<open>auto simp: vfs_read_def\<close>)

lemma vfs_write_inv:
  assumes inv: "vfs_inv s" and r: "vfs_write mem P n src s = Ret (io, s')" shows "vfs_inv s'"
proof (cases "files s n")
  case (Some f)
  have p: "vfs_inv (s\<lparr>pipes := (pipes s)(p \<mapsto> pp')\<rparr>)"
    if "pipes s p = Some pp" "pipe_write_impl src pp = (c, pp')" for p pp pp' c
    by (rule vfs_inv_set_pipe [OF inv that(1)]) (use pipe_write_keeps [OF vfs_invD(5) [OF inv that(1)] that(2)] in auto)
  have ram: "vfs_inv (upd_file n (\<lambda>f. f\<lparr>offset := off\<rparr>) (s\<lparr>ram := x\<rparr>))" for off x
    using upd_offset_inv [of "s\<lparr>ram := x\<rparr>" n "\<lambda>_. off"] inv by (simp add: vfs_inv_other)
  have fat: "vfs_inv (upd_file n (\<lambda>f. f\<lparr>offset := off, fat_ref := y\<rparr>) (s\<lparr>disk := x\<rparr>))" for off x y
    by (rule vfs_inv_upd_file) (use inv in \<open>auto simp: file_end_def vfs_inv_other\<close>)
  show ?thesis
    using r inv p ram fat unfolding vfs_write_def Some
    by (auto simp: run_simps vfs_inv_other
        split: vfs_backend.splits option.splits prod.splits pipe_call.splits if_splits)
qed (use assms in \<open>auto simp: vfs_write_def\<close>)

lemma vfs_inv_more_obj: "vfs_inv s \<Longrightarrow> next_obj s \<le> k \<Longrightarrow> vfs_inv (s\<lparr>next_obj := k\<rparr>)"
proof -
  assume inv: "vfs_inv s" and k: "next_obj s \<le> k"
  show ?thesis
  proof (rule vfs_invI)
    fix n f assume "files (s\<lparr>next_obj := k\<rparr>) n = Some f"
    then show "n < next_obj (s\<lparr>next_obj := k\<rparr>)" using vfs_invD(1) [OF inv, of n f] k by simp
  next
    fix p pp assume "pipes (s\<lparr>next_obj := k\<rparr>) p = Some pp"
    then show "p < next_obj (s\<lparr>next_obj := k\<rparr>)" using vfs_invD(4) [OF inv, of p pp] k by simp
  qed (use vfs_invD [OF inv] in auto)
qed

lemma vfs_inv_new_pipe:
  assumes inv: "vfs_inv s" and p: "p = next_obj s" and pp: "pipe_alloc_struct True = Some pp"
    and r: "file_end r = Some (p, False)" "refcount r \<ge> 1" and w: "file_end w = Some (p, True)" "refcount w \<ge> 1"
  shows "vfs_inv (s\<lparr>pipes := (pipes s)(p \<mapsto> pp), files := (files s)(Suc p \<mapsto> r, Suc (Suc p) \<mapsto> w),
    next_obj := p + 3\<rparr>)"
proof -
  let ?fs = "(files s)(Suc p \<mapsto> r, Suc (Suc p) \<mapsto> w)"
  have n: "files s m = None" if "p \<le> m" for m using vfs_invD(1) [OF inv, of m] that p by (metis leD not_None_eq)
  have e: "end_set (files s) p v = {}" for v
  proof (rule equals0I)
    fix n assume "n \<in> end_set (files s) p v"
    then obtain f where f: "files s n = Some f" "file_end f = Some (p, v)" by (auto simp: end_set_def)
    then have "backend f = VFS_BACKEND_PIPE" "pipe_ref f = Some p" by (auto simp: file_end_def split: if_splits)
    with vfs_invD(3) [OF inv f(1)] vfs_inv_fresh(2) [OF inv] p show False by simp
  qed
  have es: "end_set ?fs q v = (if q = p then {if v then Suc (Suc p) else Suc p} else end_set (files s) q v)" for q v
  proof (cases "q = p")
    case True
    have "end_set ?fs p v = end_set (files s) p v \<union> {if v then Suc (Suc p) else Suc p}"
      using r(1) w(1) n [of "Suc p"] n [of "Suc (Suc p)"] by (auto simp: end_set_def split: if_splits)
    then show ?thesis using True e by simp
  next
    case False
    then show ?thesis using r(1) w(1) n [of "Suc p"] n [of "Suc (Suc p)"] by (auto simp: end_set_def)
  qed
  have ends: "backend f = VFS_BACKEND_PIPE \<Longrightarrow> file_end f = Some (p, v) \<Longrightarrow> pipe_ref f = Some p" for f :: "vfs_file" and v
    by (auto simp: file_end_def)
  show ?thesis
  proof (rule vfs_invI)
    fix q qq assume "pipes (s\<lparr>pipes := (pipes s)(p \<mapsto> pp), files := ?fs, next_obj := p + 3\<rparr>) q = Some qq"
    then have q: "q = p \<and> qq = pp \<or> q \<noteq> p \<and> pipes s q = Some qq" by (auto split: if_splits)
    have pf: "pipe_inv pp" "readers pp = 1" "writers pp = 1"
      using pp pipe_alloc_inv [OF pp] by (auto simp: pipe_alloc_struct_def)
    show "q < next_obj (s\<lparr>pipes := (pipes s)(p \<mapsto> pp), files := ?fs, next_obj := p + 3\<rparr>)"
      using q vfs_invD(4) [OF inv, of q] p by auto
    show "pipe_inv qq" "readers qq \<noteq> 0 \<or> writers qq \<noteq> 0"
      "readers qq = int (card (end_set (files (s\<lparr>pipes := (pipes s)(p \<mapsto> pp), files := ?fs, next_obj := p + 3\<rparr>)) q False))"
      "writers qq = int (card (end_set (files (s\<lparr>pipes := (pipes s)(p \<mapsto> pp), files := ?fs, next_obj := p + 3\<rparr>)) q True))"
      using q pf vfs_invD(5-8) [OF inv, of q qq] by (auto simp: es)
  next
    fix m f assume m: "files (s\<lparr>pipes := (pipes s)(p \<mapsto> pp), files := ?fs, next_obj := p + 3\<rparr>) m = Some f"
    show "m < next_obj (s\<lparr>pipes := (pipes s)(p \<mapsto> pp), files := ?fs, next_obj := p + 3\<rparr>)" "refcount f \<ge> 1"
      using m vfs_invD(1,2) [OF inv, of m] p r w by (auto split: if_splits)
    assume "backend f = VFS_BACKEND_PIPE"
    then show "\<exists>q. pipe_ref f = Some q \<and> pipes (s\<lparr>pipes := (pipes s)(p \<mapsto> pp), files := ?fs, next_obj := p + 3\<rparr>) q \<noteq> None"
      using m vfs_invD(3) [OF inv, of m f] ends r w by (auto split: if_splits)
  qed
qed

lemma pipe_create_inv: assumes inv: "vfs_inv s" shows "vfs_inv (snd (pipe_create s))"
proof -
  let ?p = "next_obj s"
  let ?f = "\<lambda>w. \<lparr>backend = VFS_BACKEND_PIPE, offset = 0, mem_file = None, ram_file = None, fat_ref = None,
    pipe_ref = Some ?p, is_pipe_writer = w, list_path = [], refcount = 1\<rparr> :: vfs_file"
  obtain pp where pp: "pipe_alloc_struct True = Some pp" by (simp add: pipe_alloc_struct_def)
  have n: "files s m = None" if "?p \<le> m" for m using vfs_invD(1) [OF inv, of m] that by (metis leD not_None_eq)
  have np: "pipes s ?p = None" by (rule vfs_inv_fresh(2) [OF inv])
  consider "\<not> kmem s ?p" | "kmem s ?p" "\<not> (kmem s (Suc ?p) \<and> kmem s (Suc (Suc ?p)))"
    | "kmem s ?p" "kmem s (Suc ?p)" "kmem s (Suc (Suc ?p))" by blast
  then show ?thesis
  proof cases
    case 1
    then have "snd (pipe_create s) = s\<lparr>next_obj := Suc ?p\<rparr>" by (simp add: pipe_create_def new_obj_def)
    then show ?thesis using vfs_inv_more_obj [OF inv] by simp
  next
    case 2
    then have "snd (pipe_create s) = s\<lparr>next_obj := Suc (Suc (Suc ?p))\<rparr>"
      using n [of "Suc ?p"] n [of "Suc (Suc ?p)"] np
      by (auto simp: pipe_create_def new_obj_def vfs_alloc_def free_opt_def free_file_def Let_def fun_upd_idem
          fun_upd_twist split: option.splits)
    then show ?thesis using vfs_inv_more_obj [OF inv] by simp
  next
    case 3
    have "snd (pipe_create s) = s\<lparr>pipes := (pipes s)(?p \<mapsto> pp),
        files := (files s)(Suc ?p \<mapsto> ?f False, Suc (Suc ?p) \<mapsto> ?f True), next_obj := ?p + 3\<rparr>"
      using 3 pp by (auto simp: pipe_create_def new_obj_def vfs_alloc_def upd_file_def Let_def numeral_3_eq_3)
    moreover have "vfs_inv \<dots>"
      by (rule vfs_inv_new_pipe [OF inv refl pp]) (simp_all add: file_end_def)
    ultimately show ?thesis by simp
  qed
qed

section \<open>Reachable file tables\<close>

inductive vfs_step :: "'h port_io \<Rightarrow> (u64 \<Rightarrow> bool) \<Rightarrow> 'h vfs \<Rightarrow> 'h vfs \<Rightarrow> bool" for P mem where
  open_path: "vfs_open P path s = Ret (r, s') \<Longrightarrow> vfs_step P mem s s'"
| make_pipe: "pipe_create s = (r, s') \<Longrightarrow> vfs_step P mem s s'"
| read_file: "vfs_read P n len s = Ret (r, s') \<Longrightarrow> vfs_step P mem s s'"
| write_file: "vfs_write mem P n src s = Ret (r, s') \<Longrightarrow> vfs_step P mem s s'"
| resume: "vfs_resume p c s = (r, s') \<Longrightarrow> vfs_step P mem s s'"
| dup_file: "vfs_dup n s = (m, s') \<Longrightarrow> vfs_step P mem s s'"
| close_file: "vfs_step P mem s (vfs_close n s)"

definition vfs_empty :: "(nat \<Rightarrow> u8 list) \<Rightarrow> fat_state \<Rightarrow> 'h block \<Rightarrow> (nat \<Rightarrow> bool) \<Rightarrow> 'h vfs" where
  "vfs_empty img F d k = \<lparr>images = img, ram = ramfs_files, fatfs = F, disk = d, pipes = (\<lambda>_. None), files = (\<lambda>_. None),
     next_obj = 0, kmem = k\<rparr>"

lemma vfs_step_inv: "vfs_step P mem s s' \<Longrightarrow> vfs_inv s \<Longrightarrow> vfs_inv s'"
proof (induction rule: vfs_step.induct)
  case (open_path path s r s')
  then show ?case using vfs_open_inv by blast
next
  case (make_pipe s r s')
  then show ?case using pipe_create_inv [of s] by simp
next
  case (read_file n len s r s')
  then show ?case using vfs_read_inv by blast
next
  case (write_file n src s r s')
  then show ?case using vfs_write_inv by blast
next
  case (resume p c s r s')
  then show ?case using vfs_resume_inv by blast
next
  case (dup_file n s m s')
  then show ?case using vfs_dup_inv [of s n] by simp
next
  case (close_file s n)
  then show ?case by (rule vfs_inv_close)
qed

lemma vfs_empty_inv: "vfs_inv (vfs_empty img F d k)"
  by (simp add: vfs_inv_def vfs_empty_def)

text \<open>(C14) After any sequence of opens, pipe creations, reads, writes, their continuations, duplications and closes, with
  allocations failing anywhere: no open file refers to a freed pipe, a pipe exists exactly as long as
  one of its ends is open, and its reader and writer counts are the numbers of open files for its two
  ends.\<close>

theorem vfs_pipe_ends:
  assumes "(vfs_step P mem)\<^sup>*\<^sup>* (vfs_empty img F d k) s"
  shows "(\<forall>n f. files s n = Some f \<longrightarrow> backend f = VFS_BACKEND_PIPE \<longrightarrow> (\<exists>p. pipe_ref f = Some p \<and> pipes s p \<noteq> None)) \<and>
    (\<forall>p pp. pipes s p = Some pp \<longrightarrow> pipe_inv pp \<and>
       readers pp = int (card (end_set (files s) p False)) \<and> writers pp = int (card (end_set (files s) p True)) \<and>
       end_set (files s) p False \<union> end_set (files s) p True \<noteq> {})"
proof -
  have inv: "vfs_inv s"
    using assms by (induction rule: rtranclp_induct) (auto intro: vfs_empty_inv vfs_step_inv)
  have "end_set (files s) p False \<union> end_set (files s) p True \<noteq> {}" if "pipes s p = Some pp" for p pp
    using vfs_invD(6-8) [OF inv that] by auto
  then show ?thesis using vfs_invD(3,5-7) [OF inv] by blast
qed

theorem vfs_pipe_ends_witness:
  "\<exists>s :: unit vfs. (vfs_step ready_disk (\<lambda>_. True))\<^sup>*\<^sup>* (vfs_empty (\<lambda>_. []) fat_zero (block_zero ()) (\<lambda>_. True)) s \<and>
     files s 1 \<noteq> None \<and> pipes s 0 \<noteq> None \<and> end_set (files s) 0 False \<union> end_set (files s) 0 True \<noteq> {}"
proof -
  let ?s0 = "vfs_empty (\<lambda>_. []) fat_zero (block_zero ()) (\<lambda>_. True) :: unit vfs"
  obtain r s where rs: "pipe_create ?s0 = (r, s)" by fastforce
  have st: "(vfs_step ready_disk (\<lambda>_. True))\<^sup>*\<^sup>* ?s0 s"
    by (rule r_into_rtranclp [of "vfs_step ready_disk (\<lambda>_. True)"]) (rule vfs_step.make_pipe [OF rs])
  have p: "files s 1 \<noteq> None" "pipes s 0 \<noteq> None"
    using rs by (auto simp: pipe_create_def new_obj_def vfs_alloc_def upd_file_def vfs_empty_def Let_def pipe_alloc_struct_def)
  with vfs_pipe_ends [OF st] have "end_set (files s) 0 False \<union> end_set (files s) 0 True \<noteq> {}" by fastforce
  with st p show ?thesis by blast
qed

lemma image_paths_normal: "i < 7 \<Longrightarrow> normalize_path (memfs_paths ! i) VFS_PATH_MAX = Some (False, memfs_paths ! i) \<and>
    \<not> starts_with (memfs_paths ! i) ''/dev/ls'' \<and> take 1 (memfs_paths ! i) = ''/''"
proof -
  assume "i < 7"
  then have "memfs_paths ! i \<in> set memfs_paths" by (intro nth_mem) (simp add: memfs_paths_def)
  moreover have "list_all (\<lambda>p. normalize_path p VFS_PATH_MAX = Some (False, p) \<and> \<not> starts_with p ''/dev/ls'' \<and>
      take 1 p = ''/'') memfs_paths" by code_simp
  ultimately show ?thesis by (simp add: list_all_iff)
qed

lemma memfs_lookup_image: "i < 7 \<Longrightarrow> memfs_lookup img (memfs_paths ! i) = Some i"
proof -
  assume i: "i < 7"
  have l: "length memfs_paths = 7" "distinct memfs_paths" by (simp_all add: memfs_paths_def)
  have m: "mpath (memfs_init img ! j) = memfs_paths ! j" if "j < 7" for j
    using that l by (simp add: memfs_init_def)
  have "length (memfs_init img) = 7" using l by (simp add: memfs_init_def)
  then show ?thesis
    unfolding memfs_lookup_def
    by (intro find_first) (use i m l nth_eq_iff_index_eq in \<open>fastforce+\<close>)
qed

text \<open>Each of the seven program images can be opened under its path, and reading the new file
  returns the bytes of the image from the start, at most as many as asked for, and advances the file
  offset past them.\<close>

theorem vfs_image_read:
  assumes i: "i < 7" and mem: "kmem s (next_obj s)" and small: "length (images s i) < 2 ^ 64" and len: "len \<noteq> 0"
  shows "\<exists>n s1 s2. vfs_open P (memfs_paths ! i) s = Ret (Inr n, s1) \<and>
    vfs_read P n len s1 = Ret (Io (int (min (unat len) (length (images s i)))) (take (unat len) (images s i)), s2) \<and>
    map_option offset (files s2 n) = Some (of_nat (min (unat len) (length (images s i))))"
proof -
  let ?n = "next_obj s"
  let ?f = "\<lparr>backend = VFS_BACKEND_MEMFS, offset = 0, mem_file = Some i, ram_file = None, fat_ref = None, pipe_ref = None,
    is_pipe_writer = False, list_path = [], refcount = 1\<rparr> :: vfs_file"
  let ?s1 = "s\<lparr>next_obj := Suc ?n, files := (files s)(?n \<mapsto> ?f)\<rparr>"
  have o: "vfs_open P (memfs_paths ! i) s = Ret (Inr ?n, ?s1)"
    using image_paths_normal [OF i] memfs_lookup_image [OF i, of "images s"] mem
    by (simp add: vfs_open_def open_with_def vfs_alloc_def new_obj_def upd_file_def)
  have "length memfs_paths = 7" by (simp add: memfs_paths_def)
  then have d: "mdata (memfs_init (images s) ! i) = images s i" using i by (simp add: memfs_init_def)
  have r: "memfs_read (memfs_init (images s) ! i) 0 len = take (unat len) (images s i)"
    using memfs_read_spec [of "memfs_init (images s) ! i" 0 len] small by (simp add: d)
  have "vfs_read P ?n len ?s1 = Ret (Io (int (length (take (unat len) (images s i)))) (take (unat len) (images s i)),
      upd_file ?n (\<lambda>f. f\<lparr>offset := offset f + of_nat (length (take (unat len) (images s i)))\<rparr>) ?s1)"
    using len r by (simp add: vfs_read_def)
  with o show ?thesis by (auto simp: upd_file_def min.commute)
qed

theorem vfs_image_read_witness:
  "\<exists>n s1 s2. vfs_open ready_disk ''/bin/ls'' (vfs_empty (\<lambda>_. [1, 2, 3]) fat_zero (block_zero ()) (\<lambda>_. True)) = Ret (Inr n, s1) \<and>
     vfs_read ready_disk n 2 s1 = Ret (Io 2 [1, 2], s2)"
proof -
  let ?s = "vfs_empty (\<lambda>_. [1, 2, 3]) fat_zero (block_zero ()) (\<lambda>_. True) :: unit vfs"
  have p: "memfs_paths ! 4 = ''/bin/ls''" by (simp add: memfs_paths_def)
  have "kmem ?s (next_obj ?s)" "images ?s 4 = [1, 2, 3]" by (simp_all add: vfs_empty_def)
  with vfs_image_read [of 4 ?s 2 ready_disk] p show ?thesis by auto
qed

end
