(* ===== verification/Sched.thy ===== *)
theory Sched
  imports Kernel_Base
begin

text \<open>
  The scheduler, kernel/sched.c: threads on a doubly linked list, round-robin selection, blocking on
  wait queues, exit and reaping of children. A thread pointer is a number; \<open>store\<close> maps the live ones
  to their structures. All functions run under \<open>sched_lock\<close>, so each is one step; a context switch is
  recorded by \<open>current_thread\<close>, the saved registers are not modelled. The handle table belongs to
  kernel/syscall.c and is reached through two operations; \<open>sched_kmem n\<close> says whether the \<open>n\<close>-th allocation
  delivers memory.
\<close>

section \<open>State\<close>

datatype thread_state = THREAD_UNUSED | THREAD_RUNNABLE | THREAD_RUNNING | THREAD_BLOCKED | THREAD_DEAD

record thread =
  t_next :: "nat option"
  t_prev :: "nat option"
  wait_next :: "nat option"
  entry :: nat
  arg :: nat
  has_stack :: bool
  state :: thread_state
  aspace :: u64
  exit_to_kernel :: bool
  pid :: int
  ppid :: int
  exit_code :: int
  is_user :: bool
  reaped :: bool
  cwd :: string
  fds :: "int list"

record wait_queue =
  wq_head :: "nat option"
  wq_tail :: "nat option"

record 'h handle_ops =
  acquire_handle :: "int \<Rightarrow> 'h \<Rightarrow> 'h"
  release_handle :: "int \<Rightarrow> 'h \<Rightarrow> 'h"

record 'h sched =
  store :: "nat \<Rightarrow> thread option"
  threads_head :: "nat option"
  threads_tail :: "nat option"
  thread_count :: u64
  current_thread :: "nat option"
  sched_ticks :: u64
  need_resched :: bool
  last_switch_tick :: u64
  sched_ready :: bool
  sched_preempt_pending :: bool
  sched_preempt_target :: u64
  next_pid :: int
  cur_aspace :: u64
  handles :: 'h
  sched_next_obj :: nat
  sched_kmem :: "nat \<Rightarrow> bool"

text \<open>Process numbers are C ints: the counter wraps around after \<open>INT_MAX\<close>.\<close>

definition INT_MAX :: int where "INT_MAX = 2 ^ 31 - 1"
definition int32 :: "int \<Rightarrow> int" where "int32 i = (i + 2 ^ 31) mod 2 ^ 32 - 2 ^ 31"

definition time_slice_ticks :: u64 where "time_slice_ticks = 5"

text \<open>The structure a pointer points to, and changes to it. A structure fresh from \<open>kalloc_zero\<close> is
  all zero.\<close>

definition zero_thread :: thread where
  "zero_thread = \<lparr>t_next = None, t_prev = None, wait_next = None, entry = 0, arg = 0, has_stack = False,
     state = THREAD_UNUSED, aspace = 0, exit_to_kernel = False, pid = 0, ppid = 0, exit_code = 0,
     is_user = False, reaped = False, cwd = [], fds = replicate 16 0\<rparr>"

definition th :: "'h sched \<Rightarrow> nat \<Rightarrow> thread" where
  "th s t = (case store s t of Some x \<Rightarrow> x | None \<Rightarrow> zero_thread)"

definition upd :: "nat \<Rightarrow> (thread \<Rightarrow> thread) \<Rightarrow> 'h sched \<Rightarrow> 'h sched" where
  "upd t f s = s\<lparr>store := (store s)(t := map_option f (store s t))\<rparr>"

section \<open>The thread list\<close>

definition list_append :: "nat \<Rightarrow> 'h sched \<Rightarrow> 'h sched" where
  "list_append t s =
     (let s1 = upd t (\<lambda>x. x\<lparr>t_next := None, t_prev := threads_tail s\<rparr>) s;
          s2 = (case threads_tail s of
                  Some q \<Rightarrow> upd q (\<lambda>x. x\<lparr>t_next := Some t\<rparr>) s1
                | None \<Rightarrow> s1\<lparr>threads_head := Some t\<rparr>)
      in s2\<lparr>threads_tail := Some t, thread_count := thread_count s2 + 1\<rparr>)"

definition list_remove :: "nat \<Rightarrow> 'h sched \<Rightarrow> 'h sched" where
  "list_remove t s =
     (let s1 = (case t_prev (th s t) of
                  Some q \<Rightarrow> upd q (\<lambda>x. x\<lparr>t_next := t_next (th s t)\<rparr>) s
                | None \<Rightarrow> s\<lparr>threads_head := t_next (th s t)\<rparr>);
          s2 = (case t_next (th s1 t) of
                  Some q \<Rightarrow> upd q (\<lambda>x. x\<lparr>t_prev := t_prev (th s1 t)\<rparr>) s1
                | None \<Rightarrow> s1\<lparr>threads_tail := t_prev (th s1 t)\<rparr>)
      in upd t (\<lambda>x. x\<lparr>t_next := None, t_prev := None\<rparr>) (s2\<lparr>thread_count := thread_count s2 - 1\<rparr>))"

definition sched_new_obj :: "'h sched \<Rightarrow> nat option \<times> 'h sched" where
  "sched_new_obj s = (if sched_kmem s (sched_next_obj s) then Some (sched_next_obj s) else None, s\<lparr>sched_next_obj := Suc (sched_next_obj s)\<rparr>)"

definition thread_alloc :: "'h sched \<Rightarrow> nat option \<times> 'h sched" where
  "thread_alloc s =
     (case sched_new_obj s of
        (Some t, s1) \<Rightarrow> (Some t, list_append t (s1\<lparr>store := (store s1)(t \<mapsto> zero_thread)\<rparr>))
      | (None, s1) \<Rightarrow> (None, s1))"

definition thread_free :: "nat \<Rightarrow> 'h sched \<Rightarrow> 'h sched" where
  "thread_free t s = s\<lparr>store := (store s)(t := None)\<rparr>"

section \<open>Creation\<close>

definition sched_init :: "'h sched \<Rightarrow> 'h sched" where
  "sched_init s =
     (case thread_alloc (s\<lparr>thread_count := 0, threads_head := None, threads_tail := None\<rparr>) of
        (None, s1) \<Rightarrow> s1
      | (Some boot, s1) \<Rightarrow>
          (upd boot (\<lambda>x. x\<lparr>state := THREAD_RUNNING, reaped := True\<rparr>) s1)
            \<lparr>current_thread := Some boot, sched_ticks := 0, need_resched := False,
             last_switch_tick := 0, sched_ready := True\<rparr>)"

text \<open>The first three descriptors are the global TTY handles, the others are closed.\<close>

definition default_fds :: "'h handle_ops \<Rightarrow> nat \<Rightarrow> 'h sched \<Rightarrow> 'h sched" where
  "default_fds ops t s =
     upd t (\<lambda>x. x\<lparr>cwd := ''/'', fds := [0, 1, 2] @ replicate 13 (-1)\<rparr>)
       (s\<lparr>handles := acquire_handle ops 2 (acquire_handle ops 1 (acquire_handle ops 0 (handles s)))\<rparr>)"

text \<open>The stack of the new thread; without memory the thread is removed again.\<close>

definition finish_create :: "nat \<Rightarrow> 'h sched \<Rightarrow> bool \<times> 'h sched" where
  "finish_create t s =
     (case sched_new_obj s of
        (None, s1) \<Rightarrow> (False, thread_free t (list_remove t s1))
      | (Some _, s1) \<Rightarrow> (True, upd t (\<lambda>x. x\<lparr>has_stack := True\<rparr>) s1))"

definition sched_create :: "'h handle_ops \<Rightarrow> nat \<Rightarrow> nat \<Rightarrow> 'h sched \<Rightarrow> int \<times> 'h sched" where
  "sched_create ops en ar s =
     (if en = 0 then (-1, s)
      else case thread_alloc s of
        (None, s1) \<Rightarrow> (-1, s1)
      | (Some t, s1) \<Rightarrow>
          (let s2 = upd t (\<lambda>x. x\<lparr>entry := en, arg := ar, state := THREAD_RUNNABLE, aspace := 0,
                      exit_to_kernel := False, pid := 0, ppid := 0, exit_code := 0, is_user := False,
                      reaped := True\<rparr>) s1;
               (ok, s3) = finish_create t (default_fds ops t s2)
           in (if ok then 0 else -1, s3)))"

text \<open>The search for the parent walks the whole list.\<close>

partial_function (option) find_pid :: "'h sched \<Rightarrow> int \<Rightarrow> nat option \<Rightarrow> nat option option" where
  "find_pid s p t =
     (case t of
        None \<Rightarrow> Some None
      | Some x \<Rightarrow> if pid (th s x) = p then Some (Some x) else find_pid s p (t_next (th s x)))"

declare find_pid.simps [code]

fun acquire_all :: "'h handle_ops \<Rightarrow> int list \<Rightarrow> 'h \<Rightarrow> 'h" where
  "acquire_all ops [] h = h"
| "acquire_all ops (fd # l) h = acquire_all ops l (if fd \<ge> 0 then acquire_handle ops fd h else h)"

definition sched_create_user :: "'h handle_ops \<Rightarrow> nat \<Rightarrow> nat \<Rightarrow> int \<Rightarrow> 'h sched \<Rightarrow> (int \<times> int \<times> 'h sched) run" where
  "sched_create_user ops en ar parent_pid s =
     (if en = 0 then Ret (-1, 0, s)
      else case thread_alloc s of
        (None, s1) \<Rightarrow> Ret (-1, 0, s1)
      | (Some t, s1) \<Rightarrow>
          (let p = next_pid s1;
               s2 = upd t (\<lambda>x. x\<lparr>entry := en, arg := ar, state := THREAD_RUNNABLE, aspace := 0,
                      exit_to_kernel := False, pid := p, ppid := parent_pid, exit_code := 0, is_user := True,
                      reaped := False\<rparr>) (s1\<lparr>next_pid := int32 (p + 1)\<rparr>)
           in bind_run (if parent_pid > 0 then loop_run (find_pid s2 parent_pid (threads_head s2)) else Ret None)
                (\<lambda>parent.
                   let s3 = (case parent of
                               Some q \<Rightarrow>
                                 upd t (\<lambda>x. x\<lparr>cwd := cwd (th s2 q), fds := fds (th s2 q)\<rparr>)
                                   (s2\<lparr>handles := acquire_all ops (fds (th s2 q)) (handles s2)\<rparr>)
                             | None \<Rightarrow> default_fds ops t s2);
                       (ok, s4) = finish_create t s3
                   in Ret (if ok then (0, p, s4) else (-1, 0, s4)))))"

section \<open>Choosing the next thread\<close>

text \<open>The search from \<open>start\<close> around the list.\<close>

partial_function (option) find_runnable :: "'h sched \<Rightarrow> nat \<Rightarrow> nat \<Rightarrow> nat option option" where
  "find_runnable s start t =
     (if state (th s t) = THREAD_RUNNABLE then Some (Some t)
      else (let nx = (case t_next (th s t) of Some x \<Rightarrow> Some x | None \<Rightarrow> threads_head s)
            in case nx of
                 None \<Rightarrow> Some None
               | Some t' \<Rightarrow> if t' \<noteq> start then find_runnable s start t' else Some None))"

declare find_runnable.simps [code]

definition switch_to :: "nat \<Rightarrow> nat \<Rightarrow> 'h sched \<Rightarrow> 'h sched" where
  "switch_to prev nxt s =
     (let s1 = (if state (th s prev) = THREAD_RUNNING then upd prev (\<lambda>x. x\<lparr>state := THREAD_RUNNABLE\<rparr>) s else s);
          s2 = upd nxt (\<lambda>x. x\<lparr>state := THREAD_RUNNING\<rparr>) s1
      in s2\<lparr>current_thread := Some nxt, last_switch_tick := sched_ticks s2, need_resched := False,
            cur_aspace := (if aspace (th s2 nxt) \<noteq> 0 then aspace (th s2 nxt) else cur_aspace s2)\<rparr>)"

text \<open>\<open>Hang\<close> stands for the halt loop of a dead thread with nothing left to run.\<close>

definition sched_resched_locked :: "'h sched \<Rightarrow> 'h sched run" where
  "sched_resched_locked s =
     (case current_thread s of
        None \<Rightarrow> Ret s
      | Some cur \<Rightarrow>
          if \<not> sched_ready s then Ret s
          else bind_run
            (case (case t_next (th s cur) of Some x \<Rightarrow> Some x | None \<Rightarrow> threads_head s) of
               None \<Rightarrow> Ret None
             | Some start \<Rightarrow> loop_run (find_runnable s start start))
            (\<lambda>next_thread.
               case next_thread of
                 None \<Rightarrow> if state (th s cur) = THREAD_RUNNING then Ret s
                         else if state (th s cur) = THREAD_DEAD then Hang
                         else Ret s
               | Some nxt \<Rightarrow> if nxt = cur then Ret s else Ret (switch_to cur nxt s)))"

definition sched_yield :: "'h sched \<Rightarrow> 'h sched run" where
  "sched_yield s = sched_resched_locked s"

section \<open>Leaving\<close>

fun release_all :: "'h handle_ops \<Rightarrow> int list \<Rightarrow> 'h \<Rightarrow> 'h" where
  "release_all ops [] h = h"
| "release_all ops (fd # l) h = release_all ops l (if fd \<ge> 0 then release_handle ops fd h else h)"

text \<open>\<open>sched_exit\<close> never returns to its caller: it ends in another thread or halts.\<close>

definition sched_exit :: "'h handle_ops \<Rightarrow> 'h sched \<Rightarrow> 'h sched run" where
  "sched_exit ops s =
     (let s1 = (case current_thread s of
                  None \<Rightarrow> s
                | Some cur \<Rightarrow>
                    upd cur (\<lambda>x. x\<lparr>state := THREAD_DEAD, fds := map (\<lambda>fd. if fd \<ge> 0 then -1 else fd) (fds x)\<rparr>)
                      (s\<lparr>handles := release_all ops (fds (th s cur)) (handles s)\<rparr>))
      in bind_run (sched_resched_locked s1) (\<lambda>s2. if current_thread s2 = current_thread s1 then Hang else Ret s2))"

text \<open>One pass of \<open>sched_wait_child\<close> over the list: the child to reap, and whether there is a child.\<close>

partial_function (option) find_dead_child :: "'h sched \<Rightarrow> int \<Rightarrow> bool \<Rightarrow> nat option \<Rightarrow> (nat option \<times> bool) option" where
  "find_dead_child s parent has_child t =
     (case t of
        None \<Rightarrow> Some (None, has_child)
      | Some x \<Rightarrow>
          if is_user (th s x) \<and> ppid (th s x) = parent
          then if state (th s x) = THREAD_DEAD \<and> \<not> reaped (th s x) then Some (Some x, True)
               else find_dead_child s parent True (t_next (th s x))
          else find_dead_child s parent has_child (t_next (th s x)))"

declare find_dead_child.simps [code]

datatype wait_result = Reaped int int | No_child | Wait_again

text \<open>One round of the loop of \<open>sched_wait_child\<close>; \<open>Wait_again\<close> is the yield before the next round.\<close>

definition sched_wait_child :: "int \<Rightarrow> 'h sched \<Rightarrow> (wait_result \<times> 'h sched) run" where
  "sched_wait_child parent s =
     (if parent < 0 then Ret (No_child, s)
      else bind_run (loop_run (find_dead_child s parent False (threads_head s))) (\<lambda>(child, has_child).
        case child of
          Some t \<Rightarrow>
            Ret (Reaped (pid (th s t)) (exit_code (th s t)),
                 thread_free t (list_remove t (upd t (\<lambda>x. x\<lparr>reaped := True\<rparr>) s)))
        | None \<Rightarrow> if \<not> has_child then Ret (No_child, s)
                  else bind_run (sched_yield s) (\<lambda>s1. Ret (Wait_again, s1))))"

partial_function (option) kill_walk :: "nat option \<Rightarrow> 'h sched \<Rightarrow> 'h sched option" where
  "kill_walk t s =
     (case t of
        None \<Rightarrow> Some s
      | Some x \<Rightarrow>
          (let s1 = (if aspace (th s x) \<noteq> 0
                     then upd x (\<lambda>y. y\<lparr>state := THREAD_DEAD, aspace := 0, reaped := True\<rparr>) s else s)
           in kill_walk (t_next (th s1 x)) s1))"

declare kill_walk.simps [code]

definition sched_kill_user_threads :: "'h sched \<Rightarrow> 'h sched run" where
  "sched_kill_user_threads s = loop_run (kill_walk (threads_head s) s)"

section \<open>The current thread\<close>

definition upd_cur :: "(thread \<Rightarrow> thread) \<Rightarrow> 'h sched \<Rightarrow> 'h sched" where
  "upd_cur f s = (case current_thread s of None \<Rightarrow> s | Some cur \<Rightarrow> upd cur f s)"

definition sched_set_current_aspace :: "u64 \<Rightarrow> 'h sched \<Rightarrow> 'h sched" where
  "sched_set_current_aspace p s = upd_cur (\<lambda>x. x\<lparr>aspace := p\<rparr>) s"
definition sched_set_current_exit_to_kernel :: "int \<Rightarrow> 'h sched \<Rightarrow> 'h sched" where
  "sched_set_current_exit_to_kernel enable s = upd_cur (\<lambda>x. x\<lparr>exit_to_kernel := enable \<noteq> 0\<rparr>) s"
definition sched_current_exit_to_kernel :: "'h sched \<Rightarrow> int" where
  "sched_current_exit_to_kernel s =
     (case current_thread s of None \<Rightarrow> 0 | Some cur \<Rightarrow> if exit_to_kernel (th s cur) then 1 else 0)"
definition sched_current_aspace :: "'h sched \<Rightarrow> u64" where
  "sched_current_aspace s = (case current_thread s of None \<Rightarrow> 0 | Some cur \<Rightarrow> aspace (th s cur))"
definition sched_current_pid :: "'h sched \<Rightarrow> int" where
  "sched_current_pid s = (case current_thread s of None \<Rightarrow> 0 | Some cur \<Rightarrow> pid (th s cur))"
definition sched_get_ppid :: "int \<Rightarrow> 'h sched \<Rightarrow> int run" where
  "sched_get_ppid p s =
     (if p \<le> 0 then Ret 0
      else bind_run (loop_run (find_pid s p (threads_head s)))
             (\<lambda>t. Ret (case t of None \<Rightarrow> 0 | Some x \<Rightarrow> ppid (th s x))))"
definition sched_set_current_exit_code :: "int \<Rightarrow> 'h sched \<Rightarrow> 'h sched" where
  "sched_set_current_exit_code code s = upd_cur (\<lambda>x. x\<lparr>exit_code := code\<rparr>) s"
definition sched_get_cwd :: "nat \<Rightarrow> 'h sched \<Rightarrow> string" where
  "sched_get_cwd n s =
     (case current_thread s of None \<Rightarrow> ''/'' | Some cur \<Rightarrow> take (n - 1) (cwd (th s cur)))"
definition sched_set_cwd :: "string \<Rightarrow> 'h sched \<Rightarrow> 'h sched" where
  "sched_set_cwd buf s = upd_cur (\<lambda>x. x\<lparr>cwd := take 255 buf\<rparr>) s"
definition sched_get_fd :: "int \<Rightarrow> 'h sched \<Rightarrow> int" where
  "sched_get_fd fd s =
     (if fd < 0 \<or> fd \<ge> 16 then -1
      else case current_thread s of None \<Rightarrow> -1 | Some cur \<Rightarrow> fds (th s cur) ! nat fd)"
definition sched_set_fd :: "int \<Rightarrow> int \<Rightarrow> 'h sched \<Rightarrow> 'h sched" where
  "sched_set_fd fd g s = (if fd < 0 \<or> fd \<ge> 16 then s else upd_cur (\<lambda>x. x\<lparr>fds := (fds x)[nat fd := g]\<rparr>) s)"
definition sched_allocate_fd :: "int \<Rightarrow> 'h sched \<Rightarrow> int \<times> 'h sched" where
  "sched_allocate_fd g s =
     (if g < 0 then (-1, s)
      else case current_thread s of
        None \<Rightarrow> (-1, s)
      | Some cur \<Rightarrow>
          (case List.find (\<lambda>i. fds (th s cur) ! i = -1) [0..<16] of
             None \<Rightarrow> (-1, s)
           | Some i \<Rightarrow> (int i, upd cur (\<lambda>x. x\<lparr>fds := (fds x)[i := g]\<rparr>) s)))"

section \<open>Preemption\<close>

definition sched_on_tick :: "'h sched \<Rightarrow> 'h sched" where
  "sched_on_tick s =
     (let s1 = s\<lparr>sched_ticks := sched_ticks s + 1\<rparr>
      in if sched_ready s1 \<and> sched_ticks s1 - last_switch_tick s1 \<ge> time_slice_ticks
         then s1\<lparr>need_resched := True\<rparr> else s1)"

definition sched_maybe_preempt :: "'h sched \<Rightarrow> 'h sched run" where
  "sched_maybe_preempt s = (if \<not> sched_ready s then Ret s else if need_resched s then sched_yield s else Ret s)"

text \<open>The interrupt frame: code segment and instruction pointer; the result is the new pointer.\<close>

definition sched_request_preempt :: "u64 \<Rightarrow> u64 \<Rightarrow> u64 \<Rightarrow> 'h sched \<Rightarrow> bool \<times> u64 \<times> 'h sched" where
  "sched_request_preempt cs rip trampoline s =
     (if \<not> sched_ready s \<or> \<not> need_resched s then (False, rip, s)
      else if cs AND 3 \<noteq> 0 then (False, rip, s)
      else if sched_current_aspace s \<noteq> 0 then (False, rip, s)
      else if sched_preempt_pending s then (False, rip, s)
      else (True, trampoline, s\<lparr>sched_preempt_pending := True, sched_preempt_target := rip\<rparr>))"

section \<open>Wait queues\<close>

definition wait_queue_init :: wait_queue where "wait_queue_init = \<lparr>wq_head = None, wq_tail = None\<rparr>"

definition enqueue_current :: "nat \<Rightarrow> wait_queue \<Rightarrow> 'h sched \<Rightarrow> wait_queue \<times> 'h sched" where
  "enqueue_current cur wq s =
     (let s1 = upd cur (\<lambda>x. x\<lparr>state := THREAD_BLOCKED, wait_next := None\<rparr>) s
      in case wq_tail wq of
           Some q \<Rightarrow> (wq\<lparr>wq_tail := Some cur\<rparr>, upd q (\<lambda>x. x\<lparr>wait_next := Some cur\<rparr>) s1)
         | None \<Rightarrow> (wq\<lparr>wq_head := Some cur, wq_tail := Some cur\<rparr>, s1))"

definition sched_sleep :: "wait_queue \<Rightarrow> 'h sched \<Rightarrow> (wait_queue \<times> 'h sched) run" where
  "sched_sleep wq s =
     (case current_thread s of
        None \<Rightarrow> Ret (wq, s)
      | Some cur \<Rightarrow>
          (let (wq1, s1) = enqueue_current cur wq s
           in bind_run (sched_resched_locked s1) (\<lambda>s2. Ret (wq1, s2))))"

definition sched_sleep_cond :: "bool \<Rightarrow> wait_queue \<Rightarrow> 'h sched \<Rightarrow> (wait_queue \<times> 'h sched) run" where
  "sched_sleep_cond cond wq s = (if cond then Ret (wq, s) else sched_sleep wq s)"

definition sched_wake_one :: "wait_queue \<Rightarrow> 'h sched \<Rightarrow> wait_queue \<times> 'h sched" where
  "sched_wake_one wq s =
     (case wq_head wq of
        None \<Rightarrow> (wq, s)
      | Some t \<Rightarrow>
          (let h = wait_next (th s t)
           in (wq\<lparr>wq_head := h, wq_tail := (if h = None then None else wq_tail wq)\<rparr>,
               upd t (\<lambda>x. x\<lparr>wait_next := None, state := THREAD_RUNNABLE\<rparr>) s)))"

partial_function (option) wake_walk :: "nat option \<Rightarrow> 'h sched \<Rightarrow> 'h sched option" where
  "wake_walk t s =
     (case t of
        None \<Rightarrow> Some s
      | Some x \<Rightarrow>
          wake_walk (wait_next (th s x)) (upd x (\<lambda>y. y\<lparr>wait_next := None, state := THREAD_RUNNABLE\<rparr>) s))"

declare wake_walk.simps [code]

definition sched_wake_all :: "wait_queue \<Rightarrow> 'h sched \<Rightarrow> (wait_queue \<times> 'h sched) run" where
  "sched_wake_all wq s =
     bind_run (loop_run (wake_walk (wq_head wq) s)) (\<lambda>s1. Ret (wait_queue_init, s1))"

section \<open>The list of threads\<close>

definition nx :: "'h sched \<Rightarrow> nat \<Rightarrow> nat option" where "nx s t = t_next (th s t)"
definition pv :: "'h sched \<Rightarrow> nat \<Rightarrow> nat option" where "pv s t = t_prev (th s t)"

definition dll :: "'h sched \<Rightarrow> nat list \<Rightarrow> bool" where
  "dll s xs \<longleftrightarrow> chain (nx s) (threads_head s) xs \<and> chain (pv s) (threads_tail s) (rev xs) \<and>
     (\<forall>t\<in>set xs. store s t \<noteq> None) \<and> thread_count s = of_nat (length xs)"

text \<open>All of a thread but its list links.\<close>

definition core :: "thread \<Rightarrow> thread" where "core x = x\<lparr>t_next := None, t_prev := None\<rparr>"

lemma core_fields:
  assumes "core x = core y"
  shows "state x = state y" "aspace x = aspace y" "pid x = pid y" "ppid x = ppid y" "exit_code x = exit_code y"
    "is_user x = is_user y" "reaped x = reaped y" "cwd x = cwd y" "fds x = fds y" "has_stack x = has_stack y"
  using assms by (cases x; cases y; simp add: core_def)+

lemma th_upd: "store s t \<noteq> None \<Longrightarrow> th (upd t f s) u = (if u = t then f (th s t) else th s u)"
  by (auto simp: th_def upd_def split: option.splits)

lemma upd_None: "store s t = None \<Longrightarrow> upd t f s = s"
  by (simp add: upd_def fun_upd_idem)

lemma store_upd [simp]: "store (upd t f s) u = None \<longleftrightarrow> store s u = None"
  by (simp add: upd_def)

lemma upd_fields [simp]:
  "threads_head (upd t f s) = threads_head s" "threads_tail (upd t f s) = threads_tail s"
  "thread_count (upd t f s) = thread_count s" "current_thread (upd t f s) = current_thread s"
  "sched_ready (upd t f s) = sched_ready s" "next_pid (upd t f s) = next_pid s"
  "sched_next_obj (upd t f s) = sched_next_obj s" "handles (upd t f s) = handles s" "sched_kmem (upd t f s) = sched_kmem s"
  by (simp_all add: upd_def)

lemma th_fields [simp]:
  "th (s\<lparr>threads_head := a\<rparr>) u = th s u" "th (s\<lparr>threads_tail := a\<rparr>) u = th s u"
  "th (s\<lparr>thread_count := n\<rparr>) u = th s u" "th (s\<lparr>threads_tail := a, thread_count := n\<rparr>) u = th s u"
  "th (s\<lparr>handles := h\<rparr>) u = th s u" "th (s\<lparr>next_pid := i\<rparr>) u = th s u" "th (s\<lparr>sched_next_obj := k\<rparr>) u = th s u"
  "th (s\<lparr>current_thread := c, last_switch_tick := x, need_resched := b, cur_aspace := y\<rparr>) u = th s u"
  by (simp_all add: th_def)

lemma dll_distinct: "dll s xs \<Longrightarrow> distinct xs"
  by (auto simp: dll_def dest: chain_distinct)

text \<open>Changes that keep all links keep the list.\<close>

lemma dll_cong:
  assumes "dll s xs" "threads_head s' = threads_head s" "threads_tail s' = threads_tail s" "thread_count s' = thread_count s"
    "\<And>t. t \<in> set xs \<Longrightarrow> store s' t \<noteq> None \<and> nx s' t = nx s t \<and> pv s' t = pv s t"
  shows "dll s' xs"
proof -
  have "chain (nx s') (threads_head s) xs \<longleftrightarrow> chain (nx s) (threads_head s) xs"
    "chain (pv s') (threads_tail s) (rev xs) \<longleftrightarrow> chain (pv s) (threads_tail s) (rev xs)"
    by (rule chain_cong; use assms(5) in simp)+
  then show ?thesis using assms by (simp add: dll_def)
qed

lemma dll_upd:
  assumes "dll s xs" "\<And>x. t_next (f x) = t_next x \<and> t_prev (f x) = t_prev x" shows "dll (upd t f s) xs"
proof (cases "store s t = None")
  case False
  show ?thesis
    by (rule dll_cong [OF assms(1)]) (use assms False in \<open>auto simp: nx_def pv_def th_upd dll_def\<close>)
qed (use assms in \<open>simp add: upd_None\<close>)

lemma dll_append:
  assumes d: "dll s xs" and t: "t \<notin> set xs" "store s t \<noteq> None"
  shows "dll (list_append t s) (xs @ [t])" "core (th (list_append t s) u) = core (th s u)"
    "store (list_append t s) u = None \<longleftrightarrow> store s u = None"
proof -
  let ?s1 = "upd t (\<lambda>x. x\<lparr>t_next := None, t_prev := threads_tail s\<rparr>) s"
  let ?s' = "list_append t s"
  have D: "chain (nx s) (threads_head s) xs" "chain (pv s) (threads_tail s) (rev xs)" "\<forall>t\<in>set xs. store s t \<noteq> None"
    "thread_count s = of_nat (length xs)" using d by (auto simp: dll_def)
  have tl: "threads_tail s = (if xs = [] then None else Some (last xs))"
    using chain_head [OF D(2)] by (cases xs rule: rev_cases) (auto simp: hd_opt_def)
  have e: "?s' = (if xs = [] then ?s1\<lparr>threads_head := Some t, threads_tail := Some t, thread_count := thread_count s + 1\<rparr>
      else (upd (last xs) (\<lambda>x. x\<lparr>t_next := Some t\<rparr>) ?s1)\<lparr>threads_tail := Some t, thread_count := thread_count s + 1\<rparr>)"
    by (simp add: list_append_def Let_def tl)
  have lt: "xs \<noteq> [] \<Longrightarrow> last xs \<noteq> t \<and> store s (last xs) \<noteq> None" using t D(3) by (auto simp: last_in_set)
  have T: "th ?s' u = (if u = t then (th s t)\<lparr>t_next := None, t_prev := threads_tail s\<rparr>
      else if xs \<noteq> [] \<and> u = last xs then (th s u)\<lparr>t_next := Some t\<rparr> else th s u)" for u
    using t lt by (auto simp: e th_upd)
  show "core (th ?s' u) = core (th s u)" by (auto simp: T core_def)
  show sto: "store ?s' u = None \<longleftrightarrow> store s u = None" for u by (simp add: e)
  have "chain (nx ?s') (if xs = [] then Some t else threads_head s) (xs @ t # [])"
    by (rule chain_insert [of "nx s" _ xs "[]"]) (use D(1) t lt in \<open>auto simp: nx_def T hd_opt_def\<close>)
  moreover have "chain (pv ?s') (if [] = ([] :: nat list) then Some t else threads_tail s) ([] @ t # rev xs)"
    by (rule chain_insert [of "pv s" _ "[]" "rev xs"])
      (use D(2) t chain_head [OF D(2)] in \<open>auto simp: pv_def T\<close>)
  moreover have "threads_head ?s' = (if xs = [] then Some t else threads_head s)" "threads_tail ?s' = Some t"
    "thread_count ?s' = of_nat (length (xs @ [t]))"
    using D(4) by (auto simp: e)
  ultimately show "dll ?s' (xs @ [t])"
    unfolding dll_def using D(3) t sto by auto
qed

lemma dll_remove:
  assumes d: "dll s (A @ t # B)"
  shows "dll (list_remove t s) (A @ B)" "core (th (list_remove t s) u) = core (th s u)"
    "store (list_remove t s) u = None \<longleftrightarrow> store s u = None"
proof -
  let ?s' = "list_remove t s"
  have dis: "distinct (A @ t # B)" by (rule dll_distinct [OF d])
  have D: "chain (nx s) (threads_head s) (A @ t # B)" "chain (pv s) (threads_tail s) (rev B @ t # rev A)"
    "\<forall>t\<in>set (A @ t # B). store s t \<noteq> None" "thread_count s = of_nat (length (A @ t # B))"
    using d by (auto simp: dll_def)
  have n: "nx s t = hd_opt B" using D(1) chain_head by (auto simp: chain_append)
  have p: "pv s t = hd_opt (rev A)" using D(2) chain_head by (auto simp: chain_append)
  have pA: "t_prev (th s t) = (if A = [] then None else Some (last A))"
    using p by (cases A rule: rev_cases) (auto simp: pv_def hd_opt_def)
  have nB: "t_next (th s t) = (if B = [] then None else Some (hd B))"
    using n by (cases B) (auto simp: nx_def hd_opt_def)
  define s1 where "s1 = (if A = [] then s\<lparr>threads_head := t_next (th s t)\<rparr> else upd (last A) (\<lambda>x. x\<lparr>t_next := t_next (th s t)\<rparr>) s)"
  have la: "A \<noteq> [] \<Longrightarrow> last A \<in> set A \<and> last A \<noteq> t \<and> last A \<notin> set B \<and> store s (last A) \<noteq> None"
    using dis D(3) last_in_set [of A] by (auto simp del: last_in_set)
  have hb: "B \<noteq> [] \<Longrightarrow> hd B \<in> set B \<and> hd B \<noteq> t \<and> hd B \<notin> set A \<and> store s (hd B) \<noteq> None"
    using dis D(3) hd_in_set [of B] by (auto simp del: hd_in_set)
  have T1: "th s1 u = (if A \<noteq> [] \<and> u = last A then (th s u)\<lparr>t_next := t_next (th s t)\<rparr> else th s u)" for u
    using la by (auto simp: s1_def th_upd)
  have t1: "th s1 t = th s t" using la by (auto simp: T1)
  define s2 where "s2 = (if B = [] then s1\<lparr>threads_tail := t_prev (th s t)\<rparr> else upd (hd B) (\<lambda>x. x\<lparr>t_prev := t_prev (th s t)\<rparr>) s1)"
  have st1: "store s1 u = None \<longleftrightarrow> store s u = None" for u by (auto simp: s1_def)
  have T2: "th s2 u = (if B \<noteq> [] \<and> u = hd B then (th s1 u)\<lparr>t_prev := t_prev (th s t)\<rparr> else th s1 u)" for u
    using hb st1 by (auto simp: s2_def th_upd)
  have st2: "store s2 u = None \<longleftrightarrow> store s u = None" for u by (auto simp: s2_def st1)
  have e: "?s' = upd t (\<lambda>x. x\<lparr>t_next := None, t_prev := None\<rparr>) (s2\<lparr>thread_count := thread_count s2 - 1\<rparr>)"
  proof -
    have 1: "(case t_prev (th s t) of Some q \<Rightarrow> upd q (\<lambda>x. x\<lparr>t_next := t_next (th s t)\<rparr>) s
        | None \<Rightarrow> s\<lparr>threads_head := t_next (th s t)\<rparr>) = s1" by (simp add: s1_def pA)
    have 2: "(case t_next (th s1 t) of Some q \<Rightarrow> upd q (\<lambda>x. x\<lparr>t_prev := t_prev (th s1 t)\<rparr>) s1
        | None \<Rightarrow> s1\<lparr>threads_tail := t_prev (th s1 t)\<rparr>) = s2" unfolding t1 by (simp add: s2_def nB)
    show ?thesis unfolding list_remove_def Let_def 1 2 ..
  qed
  have T: "th ?s' u = (if u = t then (th s2 t)\<lparr>t_next := None, t_prev := None\<rparr> else th s2 u)" for u
    unfolding e using D(3) st2 [of t] by (subst th_upd) (simp_all add: th_def)
  show "core (th ?s' u) = core (th s u)" by (auto simp: T T2 T1 core_def)
  show sto: "store ?s' u = None \<longleftrightarrow> store s u = None" for u by (simp add: e st2)
  have "chain (nx ?s') (if A = [] then hd_opt B else threads_head s) (A @ B)"
    by (rule chain_delete [OF D(1)]) (use n la dis in \<open>auto simp: nx_def T T2 T1\<close>)
  moreover have "chain (pv ?s') (if rev B = [] then hd_opt (rev A) else threads_tail s) (rev B @ rev A)"
  proof (rule chain_delete [OF D(2)])
    assume "rev B \<noteq> []"
    then show "pv ?s' (last (rev B)) = hd_opt (rev A)"
      using p hb by (auto simp: pv_def T T2 last_rev)
  next
    show "\<forall>y\<in>set (rev B @ rev A). rev B = [] \<or> y \<noteq> last (rev B) \<longrightarrow> pv ?s' y = pv s y"
      using dis by (auto simp: pv_def T T2 T1 last_rev)
  qed
  moreover have "threads_head ?s' = (if A = [] then hd_opt B else threads_head s)"
    "threads_tail ?s' = (if rev B = [] then hd_opt (rev A) else threads_tail s)" "thread_count ?s' = of_nat (length (A @ B))"
    using n p D(4) by (auto simp: e s2_def s1_def nx_def pv_def)
  ultimately show "dll ?s' (A @ B)" using D(3) by (auto simp: dll_def sto)
qed

section \<open>Round robin\<close>

lemma chain_nth:
  "chain f p xs \<Longrightarrow> i < length xs \<Longrightarrow> f (xs ! i) = (if Suc i < length xs then Some (xs ! Suc i) else None)"
proof (induction xs arbitrary: p i)
  case (Cons x xs)
  show ?case
  proof (cases i)
    case 0
    then show ?thesis using Cons.prems by (cases xs) auto
  next
    case (Suc j)
    then show ?thesis using Cons by auto
  qed
qed simp

text \<open>The successor in the ring of threads.\<close>

definition ring_next :: "'h sched \<Rightarrow> nat \<Rightarrow> nat option" where
  "ring_next s t = (case t_next (th s t) of Some x \<Rightarrow> Some x | None \<Rightarrow> threads_head s)"

lemma ring_next_nth:
  assumes d: "dll s xs" and i: "i < length xs"
  shows "ring_next s (xs ! i) = Some (xs ! (Suc i mod length xs))"
proof -
  have c: "chain (nx s) (threads_head s) xs" using d by (simp add: dll_def)
  have h: "threads_head s = Some (xs ! 0)" using chain_head [OF c] i by (cases xs) (auto simp: hd_opt_def)
  have "nx s (xs ! i) = (if Suc i < length xs then Some (xs ! Suc i) else None)" by (rule chain_nth [OF c i])
  moreover have "Suc i < length xs \<or> Suc i = length xs" using i by auto
  ultimately show ?thesis using h by (auto simp: ring_next_def nx_def)
qed

definition ring :: "nat list \<Rightarrow> nat \<Rightarrow> nat \<Rightarrow> nat" where "ring xs c j = xs ! ((c + j) mod length xs)"

abbreviation runnable :: "'h sched \<Rightarrow> nat \<Rightarrow> bool" where "runnable s t \<equiv> state (th s t) = THREAD_RUNNABLE"

lemma mod_shift: "(c + a) mod n = (c + b) mod n \<longleftrightarrow> a mod n = b mod n" for n :: nat
  by (auto simp: nat_mod_eq_iff)

lemma find_runnable_ring:
  assumes d: "dll s xs" and k: "k < length xs"
  shows "find_runnable s (ring xs c 0) (ring xs c k) =
    Some (map_option (ring xs c) (List.find (\<lambda>j. runnable s (ring xs c j)) [k..<length xs]))"
  using k
proof (induction "length xs - k" arbitrary: k)
  case (Suc m)
  let ?n = "length xs"
  have u: "[k..<?n] = k # [Suc k..<?n]" using Suc.prems by (simp add: upt_conv_Cons)
  show ?case
  proof (cases "runnable s (ring xs c k)")
    case True
    then show ?thesis by (subst find_runnable.simps) (simp add: u)
  next
    case False
    have pos: "0 < ?n" using Suc.prems by linarith
    have nxt: "ring_next s (ring xs c k) = Some (ring xs c (Suc k))"
      using ring_next_nth [OF d, of "(c + k) mod ?n"] pos by (simp add: ring_def mod_Suc_eq)
    have step: "find_runnable s (ring xs c 0) (ring xs c k) =
        (if ring xs c (Suc k) \<noteq> ring xs c 0 then find_runnable s (ring xs c 0) (ring xs c (Suc k)) else Some None)"
      using False nxt by (subst find_runnable.simps) (simp add: ring_next_def)
    show ?thesis
    proof (cases "Suc k < ?n")
      case True
      have "ring xs c (Suc k) \<noteq> ring xs c 0"
      proof
        assume "ring xs c (Suc k) = ring xs c 0"
        then have "(c + Suc k) mod ?n = (c + 0) mod ?n"
          using dll_distinct [OF d] pos by (simp add: ring_def nth_eq_iff_index_eq)
        then have "Suc k mod ?n = 0 mod ?n" by (simp only: mod_shift)
        with True show False by simp
      qed
      with step Suc.hyps(1) [of "Suc k"] Suc.hyps(2) True False show ?thesis by (simp add: u)
    next
      case False2: False
      then have "Suc k = ?n" using Suc.prems by simp
      then have "ring xs c (Suc k) = ring xs c 0" by (simp add: ring_def)
      with step \<open>Suc k = ?n\<close> False show ?thesis by (simp add: u)
    qed
  qed
qed simp

text \<open>The thread that runs next is the first runnable one after the current thread, around the ring;
  the current thread itself is the last candidate.\<close>

lemma sched_resched_ring:
  assumes d: "dll s xs" and c: "c < length xs" "current_thread s = Some (xs ! c)" and r: "sched_ready s"
  shows "sched_resched_locked s =
    (case List.find (\<lambda>j. runnable s (ring xs c j)) [1..<length xs + 1] of
       None \<Rightarrow> (if state (th s (xs ! c)) = THREAD_DEAD then Hang else Ret s)
     | Some j \<Rightarrow> if j = length xs then Ret s else Ret (switch_to (xs ! c) (ring xs c j) s))"
proof -
  let ?n = "length xs" and ?c' = "Suc c mod length xs"
  have pos: "0 < ?n" using c by auto
  have sh: "ring xs ?c' j = ring xs c (Suc j)" for j by (simp add: ring_def mod_add_left_eq)
  have st: "ring_next s (xs ! c) = Some (ring xs ?c' 0)" using ring_next_nth [OF d c(1)] by (simp add: ring_def)
  have f: "find_runnable s (ring xs ?c' 0) (ring xs ?c' 0) =
      Some (map_option (ring xs ?c') (List.find (\<lambda>j. runnable s (ring xs ?c' j)) [0..<?n]))"
    by (rule find_runnable_ring [OF d pos])
  have m: "List.find (\<lambda>j. runnable s (ring xs c j)) [1..<?n + 1] =
      map_option Suc (List.find (\<lambda>j. runnable s (ring xs ?c' j)) [0..<?n])"
  proof -
    have "[1..<?n + 1] = map Suc [0..<?n]" by (simp add: map_Suc_upt)
    moreover have "List.find P (map Suc ks) = map_option Suc (List.find (P \<circ> Suc) ks)" for P ks
      by (induction ks) auto
    ultimately show ?thesis by (simp add: sh comp_def)
  qed
  have self: "ring xs c (Suc j) = xs ! c \<longleftrightarrow> Suc j = ?n" if "j < ?n" for j
  proof -
    have "ring xs c (Suc j) = xs ! c \<longleftrightarrow> (c + Suc j) mod ?n = c mod ?n"
      using dll_distinct [OF d] c(1) pos by (simp add: ring_def nth_eq_iff_index_eq)
    also have "\<dots> \<longleftrightarrow> Suc j mod ?n = 0" using mod_shift [of c "Suc j" ?n 0] by simp
    also have "\<dots> \<longleftrightarrow> Suc j = ?n" using that by (metis Suc_lessI mod_less mod_self nat.distinct(1))
    finally show ?thesis .
  qed
  have lt: "j < ?n" if "List.find (\<lambda>j. runnable s (ring xs ?c' j)) [0..<?n] = Some j" for j
    using find_SomeD [OF that] by simp
  have L: "sched_resched_locked s = bind_run (loop_run (find_runnable s (ring xs ?c' 0) (ring xs ?c' 0)))
      (\<lambda>nt. case nt of None \<Rightarrow> if state (th s (xs ! c)) = THREAD_RUNNING then Ret s
            else if state (th s (xs ! c)) = THREAD_DEAD then Hang else Ret s
          | Some t \<Rightarrow> if t = xs ! c then Ret s else Ret (switch_to (xs ! c) t s))"
    using st r c(2) unfolding ring_next_def by (simp add: sched_resched_locked_def)
  show ?thesis
  proof (cases "List.find (\<lambda>j. runnable s (ring xs ?c' j)) [0..<?n]")
    case None
    then show ?thesis unfolding L m f by simp
  next
    case (Some j)
    then show ?thesis unfolding L m f using self [OF lt [OF Some]] by (simp add: sh)
  qed
qed

section \<open>The invariant of the scheduler\<close>

text \<open>What holds while the lock is held, and what holds between operations: the running thread is not
  a zombie waiting for its parent. The number \<open>np\<close> bounds the processes created so far: as long as
  the counter of process numbers has not reached its last value, the numbers are distinct.\<close>

definition pids_fit :: "nat \<Rightarrow> bool" where "pids_fit np \<longleftrightarrow> int np < INT_MAX"

definition sched_wf :: "nat \<Rightarrow> 'h sched \<Rightarrow> nat list \<Rightarrow> bool" where
  "sched_wf np s xs \<longleftrightarrow> dll s xs \<and> sched_ready s \<and> (\<exists>c\<in>set xs. current_thread s = Some c) \<and>
     (\<forall>t. store s t \<noteq> None \<longrightarrow> t \<in> set xs \<and> t < sched_next_obj s) \<and>
     (\<forall>t\<in>set xs. state (th s t) = THREAD_RUNNING \<longrightarrow> current_thread s = Some t) \<and>
     (pids_fit np \<longrightarrow>
        (\<forall>t\<in>set xs. is_user (th s t) \<longrightarrow> 0 < pid (th s t) \<and> pid (th s t) < next_pid s) \<and>
        (\<forall>t\<in>set xs. \<forall>u\<in>set xs. is_user (th s t) \<and> is_user (th s u) \<and> pid (th s t) = pid (th s u) \<longrightarrow> t = u) \<and>
        0 < next_pid s \<and> next_pid s \<le> int np + 1)"

definition sched_inv :: "nat \<Rightarrow> 'h sched \<Rightarrow> nat list \<Rightarrow> bool" where
  "sched_inv np s xs \<longleftrightarrow> sched_wf np s xs \<and>
     (\<exists>c. current_thread s = Some c \<and> (state (th s c) = THREAD_DEAD \<longrightarrow> reaped (th s c)))"

lemma sched_wfD:
  assumes "sched_wf np s xs"
  shows "dll s xs" "sched_ready s" "\<exists>c\<in>set xs. current_thread s = Some c"
    "store s t \<noteq> None \<Longrightarrow> t \<in> set xs" "store s t \<noteq> None \<Longrightarrow> t < sched_next_obj s"
    "t \<in> set xs \<Longrightarrow> state (th s t) = THREAD_RUNNING \<Longrightarrow> current_thread s = Some t"
    "pids_fit np \<Longrightarrow> t \<in> set xs \<Longrightarrow> is_user (th s t) \<Longrightarrow> 0 < pid (th s t) \<and> pid (th s t) < next_pid s"
    "pids_fit np \<Longrightarrow> t \<in> set xs \<Longrightarrow> u \<in> set xs \<Longrightarrow> is_user (th s t) \<Longrightarrow> is_user (th s u) \<Longrightarrow> pid (th s t) = pid (th s u) \<Longrightarrow> t = u"
    "pids_fit np \<Longrightarrow> 0 < next_pid s \<and> next_pid s \<le> int np + 1" "t \<in> set xs \<Longrightarrow> store s t \<noteq> None"
  using assms unfolding sched_wf_def dll_def by blast+

lemma sched_inv_wf: "sched_inv np s xs \<Longrightarrow> sched_wf np s xs"
  by (simp add: sched_inv_def)

lemma sched_invD:
  assumes "sched_inv np s xs"
  shows "dll s xs" "sched_ready s"
    "\<exists>c\<in>set xs. current_thread s = Some c \<and> (state (th s c) = THREAD_DEAD \<longrightarrow> reaped (th s c))"
    "store s t \<noteq> None \<Longrightarrow> t \<in> set xs" "store s t \<noteq> None \<Longrightarrow> t < sched_next_obj s"
    "t \<in> set xs \<Longrightarrow> state (th s t) = THREAD_RUNNING \<Longrightarrow> current_thread s = Some t"
    "pids_fit np \<Longrightarrow> t \<in> set xs \<Longrightarrow> is_user (th s t) \<Longrightarrow> 0 < pid (th s t) \<and> pid (th s t) < next_pid s"
    "pids_fit np \<Longrightarrow> t \<in> set xs \<Longrightarrow> u \<in> set xs \<Longrightarrow> is_user (th s t) \<Longrightarrow> is_user (th s u) \<Longrightarrow> pid (th s t) = pid (th s u) \<Longrightarrow> t = u"
    "pids_fit np \<Longrightarrow> 0 < next_pid s \<and> next_pid s \<le> int np + 1" "t \<in> set xs \<Longrightarrow> store s t \<noteq> None"
  using assms sched_wfD [of np s xs] unfolding sched_inv_def by (blast, blast, fastforce, blast+)

lemma sched_invI:
  assumes "dll s xs" "sched_ready s"
    "\<exists>c\<in>set xs. current_thread s = Some c \<and> (state (th s c) = THREAD_DEAD \<longrightarrow> reaped (th s c))"
    "\<And>t. store s t \<noteq> None \<Longrightarrow> t \<in> set xs \<and> t < sched_next_obj s"
    "\<And>t. t \<in> set xs \<Longrightarrow> state (th s t) = THREAD_RUNNING \<Longrightarrow> current_thread s = Some t"
    "\<And>t. pids_fit np \<Longrightarrow> t \<in> set xs \<Longrightarrow> is_user (th s t) \<Longrightarrow> 0 < pid (th s t) \<and> pid (th s t) < next_pid s"
    "\<And>t u. pids_fit np \<Longrightarrow> t \<in> set xs \<Longrightarrow> u \<in> set xs \<Longrightarrow> is_user (th s t) \<Longrightarrow> is_user (th s u) \<Longrightarrow> pid (th s t) = pid (th s u) \<Longrightarrow> t = u"
    "pids_fit np \<Longrightarrow> 0 < next_pid s \<and> next_pid s \<le> int np + 1"
  shows "sched_inv np s xs"
  using assms unfolding sched_inv_def sched_wf_def by blast

text \<open>Changes of single threads that keep links and identities and do not start a thread.\<close>

lemma sched_inv_cong:
  assumes inv: "sched_inv np s xs" and d: "dll s' xs"
    and f: "current_thread s' = current_thread s" "sched_ready s' = sched_ready s" "next_pid s' = next_pid s"
      "sched_next_obj s \<le> sched_next_obj s'" "\<And>t. store s' t = None \<longleftrightarrow> store s t = None"
    and i: "\<And>t. t \<in> set xs \<Longrightarrow> is_user (th s' t) = is_user (th s t) \<and> pid (th s' t) = pid (th s t)"
      "\<And>t. t \<in> set xs \<Longrightarrow> state (th s' t) = THREAD_RUNNING \<Longrightarrow> state (th s t) = THREAD_RUNNING"
      "\<And>t. current_thread s = Some t \<Longrightarrow> state (th s' t) = THREAD_DEAD \<Longrightarrow> (state (th s t) = THREAD_DEAD \<longrightarrow> reaped (th s t)) \<Longrightarrow> reaped (th s' t)"
  shows "sched_inv np s' xs"
proof (rule sched_invI [OF d])
  note D = sched_invD [OF inv]
  show "sched_ready s'" using D(2) f by simp
  show "\<exists>c\<in>set xs. current_thread s' = Some c \<and> (state (th s' c) = THREAD_DEAD \<longrightarrow> reaped (th s' c))"
    using D(3) f(1) i(3) by metis
  show "t \<in> set xs \<and> t < sched_next_obj s'" if "store s' t \<noteq> None" for t
    using D(4,5) [of t] that f(4) f(5) [of t] by auto
  show "current_thread s' = Some t" if "t \<in> set xs" "state (th s' t) = THREAD_RUNNING" for t
    using D(6) that i(2) f(1) by metis
  show "0 < pid (th s' t) \<and> pid (th s' t) < next_pid s'" if "pids_fit np" "t \<in> set xs" "is_user (th s' t)" for t
    using D(7) that i(1) f(3) by metis
  show "t = u" if "pids_fit np" "t \<in> set xs" "u \<in> set xs" "is_user (th s' t)" "is_user (th s' u)" "pid (th s' t) = pid (th s' u)" for t u
    using D(8) that i(1) by metis
  show "0 < next_pid s' \<and> next_pid s' \<le> int np + 1" if "pids_fit np" using D(9) that f by simp
qed

lemma sched_inv_upd:
  assumes inv: "sched_inv np s xs"
    and l: "\<And>x. t_next (f x) = t_next x \<and> t_prev (f x) = t_prev x \<and> is_user (f x) = is_user x \<and> pid (f x) = pid x"
    and st: "\<And>x. state (f x) = THREAD_RUNNING \<Longrightarrow> state x = THREAD_RUNNING"
    and c: "\<And>x. current_thread s = Some t \<Longrightarrow> state (f x) = THREAD_DEAD \<Longrightarrow> (state x = THREAD_DEAD \<longrightarrow> reaped x) \<Longrightarrow> reaped (f x)"
  shows "sched_inv np (upd t f s) xs"
proof (cases "store s t = None")
  case True
  then show ?thesis using inv by (simp add: upd_None)
next
  case False
  show ?thesis
  proof (rule sched_inv_cong [OF inv])
    show "dll (upd t f s) xs" by (rule dll_upd [OF sched_invD(1) [OF inv]]) (use l in simp)
    show "reaped (th (upd t f s) u)" if "current_thread s = Some u" "state (th (upd t f s) u) = THREAD_DEAD"
        "state (th s u) = THREAD_DEAD \<longrightarrow> reaped (th s u)" for u
      using that c [of "th s t"] by (auto simp: th_upd [OF False] split: if_splits)
  qed (use l st in \<open>auto simp: th_upd [OF False] split: if_splits\<close>)
qed

lemma sched_inv_switch:
  assumes inv: "sched_wf np s xs" and c: "current_thread s = Some cur" and n: "nxt \<in> set xs" "runnable s nxt" "nxt \<noteq> cur"
  shows "sched_inv np (switch_to cur nxt s) xs" "current_thread (switch_to cur nxt s) = Some nxt"
    "th (switch_to cur nxt s) t = (if t = nxt then (th s t)\<lparr>state := THREAD_RUNNING\<rparr>
       else if t = cur \<and> state (th s t) = THREAD_RUNNING then (th s t)\<lparr>state := THREAD_RUNNABLE\<rparr> else th s t)"
proof -
  note D = sched_wfD [OF inv]
  have cur: "cur \<in> set xs" using D(3) c by auto
  have st: "store s cur \<noteq> None" "store s nxt \<noteq> None" using D(10) cur n by auto
  let ?s1 = "if state (th s cur) = THREAD_RUNNING then upd cur (\<lambda>x. x\<lparr>state := THREAD_RUNNABLE\<rparr>) s else s"
  have T: "th (switch_to cur nxt s) t = (if t = nxt then (th s t)\<lparr>state := THREAD_RUNNING\<rparr>
       else if t = cur \<and> state (th s t) = THREAD_RUNNING then (th s t)\<lparr>state := THREAD_RUNNABLE\<rparr> else th s t)" for t
    using st n by (auto simp: switch_to_def Let_def th_upd)
  show "th (switch_to cur nxt s) t = (if t = nxt then (th s t)\<lparr>state := THREAD_RUNNING\<rparr>
       else if t = cur \<and> state (th s t) = THREAD_RUNNING then (th s t)\<lparr>state := THREAD_RUNNABLE\<rparr> else th s t)" by (rule T)
  show cn: "current_thread (switch_to cur nxt s) = Some nxt" by (simp add: switch_to_def Let_def)
  have fs: "threads_head (switch_to cur nxt s) = threads_head s" "threads_tail (switch_to cur nxt s) = threads_tail s"
    "thread_count (switch_to cur nxt s) = thread_count s" "sched_ready (switch_to cur nxt s) = sched_ready s"
    "next_pid (switch_to cur nxt s) = next_pid s" "sched_next_obj (switch_to cur nxt s) = sched_next_obj s"
    "store (switch_to cur nxt s) u = None \<longleftrightarrow> store s u = None" for u
    by (simp_all add: switch_to_def Let_def)
  have d: "dll (switch_to cur nxt s) xs"
    by (rule dll_cong [OF D(1)]) (use D(10) in \<open>auto simp: fs nx_def pv_def T\<close>)
  show "sched_inv np (switch_to cur nxt s) xs"
  proof (rule sched_invI [OF d])
    show "\<exists>c\<in>set xs. current_thread (switch_to cur nxt s) = Some c \<and>
        (state (th (switch_to cur nxt s) c) = THREAD_DEAD \<longrightarrow> reaped (th (switch_to cur nxt s) c))"
      using n cn by (auto simp: T)
    show "current_thread (switch_to cur nxt s) = Some t"
      if "t \<in> set xs" "state (th (switch_to cur nxt s) t) = THREAD_RUNNING" for t
      using that D(6) [of t] c cn by (auto simp: T split: if_splits)
    show "0 < pid (th (switch_to cur nxt s) t) \<and> pid (th (switch_to cur nxt s) t) < next_pid (switch_to cur nxt s)"
      if "pids_fit np" "t \<in> set xs" "is_user (th (switch_to cur nxt s) t)" for t
      using that D(7) [of t] by (auto simp: T fs split: if_splits)
    show "t = u" if "pids_fit np" "t \<in> set xs" "u \<in> set xs" "is_user (th (switch_to cur nxt s) t)" "is_user (th (switch_to cur nxt s) u)"
        "pid (th (switch_to cur nxt s) t) = pid (th (switch_to cur nxt s) u)" for t u
      using that D(8) [of t u] by (auto simp: T split: if_splits)
  qed (use D(2,4,5,9) fs in auto)
qed

lemma sched_inv_resched:
  assumes inv: "sched_inv np s xs" and r: "sched_resched_locked s = Ret s'"
  shows "sched_inv np s' xs"
proof -
  note D = sched_invD [OF inv]
  obtain cur where "cur \<in> set xs" and cur: "current_thread s = Some cur" using D(3) by auto
  then obtain c where c: "c < length xs" "xs ! c = cur" by (metis in_set_conv_nth)
  let ?f = "List.find (\<lambda>j. runnable s (ring xs c j)) [1..<length xs + 1]"
  note R = sched_resched_ring [OF D(1) c(1) _ D(2), unfolded c(2), OF cur]
  show ?thesis
  proof (cases ?f)
    case None
    then show ?thesis using R r inv by (auto split: if_splits)
  next
    case (Some j)
    have j: "runnable s (ring xs c j)" "1 \<le> j" "j \<le> length xs" using find_SomeD [OF Some] by auto
    show ?thesis
    proof (cases "j = length xs")
      case True
      then show ?thesis using R r inv Some by simp
    next
      case False
      have pos: "0 < length xs" using c(1) by linarith
      have m: "ring xs c j \<in> set xs" unfolding ring_def by (rule nth_mem [OF mod_less_divisor [OF pos]])
      have "ring xs c j \<noteq> cur"
      proof
        assume "ring xs c j = cur"
        then have "(c + j) mod length xs = (c + 0) mod length xs"
          using nth_eq_iff_index_eq [OF dll_distinct [OF D(1)] mod_less_divisor [OF pos] c(1), of "c + j"] c
          by (simp add: ring_def)
        then have "j mod length xs = 0 mod length xs" by (simp only: mod_shift)
        then show False using j False by simp
      qed
      with sched_inv_switch(1) [OF sched_inv_wf [OF inv] cur m j(1)] R r Some False show ?thesis by simp
    qed
  qed
qed

text \<open>The other globals do not matter for the invariant.\<close>

lemma sched_inv_fields [simp]:
  "sched_inv np (s\<lparr>handles := h\<rparr>) xs = sched_inv np s xs"
  "sched_inv np (s\<lparr>need_resched := b\<rparr>) xs = sched_inv np s xs"
  "sched_inv np (s\<lparr>sched_ticks := k\<rparr>) xs = sched_inv np s xs"
  "sched_inv np (s\<lparr>sched_ticks := k, need_resched := b\<rparr>) xs = sched_inv np s xs"
  "sched_inv np (s\<lparr>sched_preempt_pending := b, sched_preempt_target := w\<rparr>) xs = sched_inv np s xs"
  by (simp_all add: sched_inv_def sched_wf_def dll_def nx_def [abs_def] pv_def [abs_def] th_def [abs_def])

lemma sched_inv_next_obj: "sched_inv np s xs \<Longrightarrow> sched_inv np (s\<lparr>sched_next_obj := Suc (sched_next_obj s)\<rparr>) xs"
  by (rule sched_inv_cong) (auto simp: sched_inv_def sched_wf_def dll_def nx_def [abs_def] pv_def [abs_def] th_def [abs_def])

lemma sched_inv_alloc:
  assumes inv: "sched_inv np s xs" and a: "thread_alloc s = (Some t, s')"
  shows "sched_inv np s' (xs @ [t])" "current_thread s' = current_thread s" "t \<notin> set xs" "next_pid s' = next_pid s"
    "core (th s' t) = zero_thread" "u \<in> set xs \<Longrightarrow> core (th s' u) = core (th s u)" "sched_kmem s' = sched_kmem s"
    "t = sched_next_obj s" "sched_next_obj s' = Suc t"
proof -
  note D = sched_invD [OF inv]
  define s1 where "s1 = s\<lparr>sched_next_obj := Suc t, store := (store s)(t \<mapsto> zero_thread)\<rparr>"
  have e: "t = sched_next_obj s" "s' = list_append t s1"
    using a by (auto simp: thread_alloc_def sched_new_obj_def s1_def split: if_splits)
  have n: "store s t = None" using D(5) [of t] e by (cases "store s t") auto
  then show t: "t \<notin> set xs" using D(10) [of t] by auto
  have th1: "th s1 u = (if u = t then zero_thread else th s u)" for u by (simp add: s1_def th_def)
  have d1: "dll s1 xs"
    by (rule dll_cong [OF D(1)]) (use t D(10) in \<open>auto simp: nx_def pv_def th1, auto simp: s1_def\<close>)
  note A = dll_append [OF d1 t, unfolded e(2) [symmetric]]
  have st1: "store s1 t \<noteq> None" by (simp add: s1_def)
  have sto: "store s' u = None \<longleftrightarrow> u \<noteq> t \<and> store s u = None" for u
    using A(3) [OF st1, of u] by (simp add: s1_def)
  have c: "core (th s' u) = core (th s1 u)" for u by (rule A(2) [OF st1])
  note C = core_fields [OF c]
  have fs: "current_thread s' = current_thread s" "sched_ready s' = sched_ready s" "next_pid s' = next_pid s"
    "sched_next_obj s' = Suc t" "sched_kmem s' = sched_kmem s"
    by (auto simp: e(2) list_append_def Let_def s1_def split: option.splits)
  show "current_thread s' = current_thread s" "next_pid s' = next_pid s" "sched_kmem s' = sched_kmem s"
    "sched_next_obj s' = Suc t" "t = sched_next_obj s" using fs e by auto
  show "core (th s' t) = zero_thread" using c [of t] by (simp add: th1 core_def zero_thread_def)
  show "u \<in> set xs \<Longrightarrow> core (th s' u) = core (th s u)" using c [of u] t by (auto simp: th1)
  have z: "state zero_thread = THREAD_UNUSED" "\<not> is_user zero_thread" by (simp_all add: zero_thread_def)
  show "sched_inv np s' (xs @ [t])"
  proof (rule sched_invI [OF A(1) [OF st1]])
    show "\<exists>c\<in>set (xs @ [t]). current_thread s' = Some c \<and> (state (th s' c) = THREAD_DEAD \<longrightarrow> reaped (th s' c))"
      using D(3) t by (auto simp: C th1 fs)
    show "u \<in> set (xs @ [t]) \<and> u < sched_next_obj s'" if "store s' u \<noteq> None" for u
      using that D(4,5) [of u] e(1) by (auto simp: sto fs less_SucI)
    show "current_thread s' = Some u" if "u \<in> set (xs @ [t])" "state (th s' u) = THREAD_RUNNING" for u
      using that D(6) [of u] t z by (auto simp: C th1 fs split: if_splits)
    show "0 < pid (th s' u) \<and> pid (th s' u) < next_pid s'" if "pids_fit np" "u \<in> set (xs @ [t])" "is_user (th s' u)" for u
      using that D(7) [of u] t z by (auto simp: C th1 fs split: if_splits)
    show "u = v" if "pids_fit np" "u \<in> set (xs @ [t])" "v \<in> set (xs @ [t])" "is_user (th s' u)" "is_user (th s' v)"
        "pid (th s' u) = pid (th s' v)" for u v
      using that D(8) [of u v] t z by (auto simp: C th1 split: if_splits)
  qed (use D(2,9) fs in auto)
qed

lemma sched_inv_alloc_None:
  assumes "sched_inv np s xs" "thread_alloc s = (None, s')"
  shows "sched_inv np s' xs"
  using assms sched_inv_next_obj [of np s xs]
  by (auto simp: thread_alloc_def sched_new_obj_def split: if_splits)

lemma sched_inv_remove:
  assumes inv: "sched_inv np s (A @ t # B)" and c: "current_thread s \<noteq> Some t"
  shows "sched_inv np (thread_free t (list_remove t s)) (A @ B)"
    "u \<noteq> t \<Longrightarrow> core (th (thread_free t (list_remove t s)) u) = core (th s u)"
    "current_thread (thread_free t (list_remove t s)) = current_thread s"
proof -
  note D = sched_invD [OF inv]
  note R = dll_remove [OF D(1)]
  let ?r = "list_remove t s" and ?s = "thread_free t (list_remove t s)"
  have fs: "current_thread ?r = current_thread s" "sched_ready ?r = sched_ready s" "next_pid ?r = next_pid s"
    "sched_next_obj ?r = sched_next_obj s"
    by (auto simp: list_remove_def Let_def split: option.splits)
  have T: "th ?s u = (if u = t then zero_thread else th ?r u)" for u by (simp add: thread_free_def th_def)
  have dis: "t \<notin> set (A @ B)" using dll_distinct [OF D(1)] by auto
  have core: "core (th ?s u) = core (th s u)" if "u \<noteq> t" for u using R(2) [of u] that by (simp add: T)
  then show "u \<noteq> t \<Longrightarrow> core (th ?s u) = core (th s u)" .
  show cs: "current_thread ?s = current_thread s" using fs by (simp add: thread_free_def)
  have ne: "u \<noteq> t" if "u \<in> set (A @ B)" for u using dis that by auto
  have C: "state (th ?s u) = state (th s u)" "pid (th ?s u) = pid (th s u)" "is_user (th ?s u) = is_user (th s u)"
    "reaped (th ?s u) = reaped (th s u)" if "u \<in> set (A @ B)" for u
    using core_fields [OF core [OF ne [OF that]]] by auto
  have sub: "u \<in> set (A @ t # B)" if "u \<in> set (A @ B)" for u using that by auto
  have d: "dll ?s (A @ B)"
  proof (rule dll_cong [OF R(1)])
    fix u
    assume u: "u \<in> set (A @ B)"
    have "store ?r u \<noteq> None" using R(1) u unfolding dll_def by blast
    with ne [OF u] show "store ?s u \<noteq> None \<and> nx ?s u = nx ?r u \<and> pv ?s u = pv ?r u"
      by (simp add: nx_def pv_def T) (simp add: thread_free_def)
  qed (simp_all add: thread_free_def)
  show "sched_inv np ?s (A @ B)"
  proof (rule sched_invI [OF d])
    obtain x where x: "x \<in> set (A @ B)" "current_thread s = Some x" "state (th s x) = THREAD_DEAD \<longrightarrow> reaped (th s x)"
      using D(3) c by auto
    then show "\<exists>c\<in>set (A @ B). current_thread ?s = Some c \<and> (state (th ?s c) = THREAD_DEAD \<longrightarrow> reaped (th ?s c))"
      using C [OF x(1)] cs by metis
    show "u \<in> set (A @ B) \<and> u < sched_next_obj ?s" if "store ?s u \<noteq> None" for u
      using that D(4,5) [of u] R(3) [of u] fs by (auto simp: thread_free_def split: if_splits)
    show "current_thread ?s = Some u" if "u \<in> set (A @ B)" "state (th ?s u) = THREAD_RUNNING" for u
      using that D(6) [OF sub [OF that(1)]] C [OF that(1)] cs by metis
    show "0 < pid (th ?s u) \<and> pid (th ?s u) < next_pid ?s" if "pids_fit np" "u \<in> set (A @ B)" "is_user (th ?s u)" for u
      using that D(7) [OF that(1) sub [OF that(2)]] C [OF that(2)] fs by (simp add: thread_free_def)
    show "u = v" if "pids_fit np" "u \<in> set (A @ B)" "v \<in> set (A @ B)" "is_user (th ?s u)" "is_user (th ?s v)"
        "pid (th ?s u) = pid (th ?s v)" for u v
      using D(8) [OF that(1) sub [OF that(2)] sub [OF that(3)]] that C [OF that(2)] C [OF that(3)] by metis
  qed (use D(2,9) fs in \<open>auto simp: thread_free_def\<close>)
qed

text \<open>Creating threads.\<close>

lemma sched_inv_finish:
  assumes inv: "sched_inv np s (xs @ [t])" and c: "current_thread s \<noteq> Some t" and f: "finish_create t s = (ok, s')"
  shows "sched_inv np s' (if ok then xs @ [t] else xs)"
proof (cases "sched_kmem s (sched_next_obj s)")
  case True
  have "sched_inv np (upd t (\<lambda>x. x\<lparr>has_stack := True\<rparr>) (s\<lparr>sched_next_obj := Suc (sched_next_obj s)\<rparr>)) (xs @ [t])"
    by (rule sched_inv_upd [OF sched_inv_next_obj [OF inv]]) auto
  with f True show ?thesis by (auto simp: finish_create_def sched_new_obj_def)
next
  case False
  have "sched_inv np (thread_free t (list_remove t (s\<lparr>sched_next_obj := Suc (sched_next_obj s)\<rparr>))) (xs @ [])"
    by (rule sched_inv_remove) (use sched_inv_next_obj [OF inv] c in simp_all)
  with f False show ?thesis by (auto simp: finish_create_def sched_new_obj_def)
qed

lemma sched_inv_default_fds: "sched_inv np s xs \<Longrightarrow> sched_inv np (default_fds ops t s) xs"
  unfolding default_fds_def by (rule sched_inv_upd) auto

lemma sched_inv_create:
  assumes inv: "sched_inv np s xs" and r: "sched_create ops en ar s = (r, s')"
  shows "\<exists>ys. sched_inv np s' ys"
proof (cases "en = 0")
  case True
  then show ?thesis using inv r by (auto simp: sched_create_def)
next
  case en: False
  obtain o1 s1 where Pair: "thread_alloc s = (o1, s1)" by fastforce
  show ?thesis
  proof (cases o1)
    case None
    then show ?thesis using sched_inv_alloc_None [OF inv] Pair r en by (auto simp: sched_create_def)
  next
    case (Some t)
    note A = sched_inv_alloc [OF inv, of t s1]
    have al: "thread_alloc s = (Some t, s1)" using Pair Some by simp
    define s2 where "s2 = upd t (\<lambda>x. x\<lparr>entry := en, arg := ar, state := THREAD_RUNNABLE, aspace := 0,
                      exit_to_kernel := False, pid := 0, ppid := 0, exit_code := 0, is_user := False,
                      reaped := True\<rparr>) s1"
    note D1 = sched_invD [OF A(1) [OF al]]
    have nu: "\<not> is_user (th s1 t)" "pid (th s1 t) = 0" using core_fields(3,6) [of "th s1 t" zero_thread] A(5) [OF al]
      by (simp_all add: zero_thread_def core_def)
    have T: "th s2 u = (if u = t then (th s1 t)\<lparr>entry := en, arg := ar, state := THREAD_RUNNABLE, aspace := 0,
                      exit_to_kernel := False, pid := 0, ppid := 0, exit_code := 0, is_user := False,
                      reaped := True\<rparr> else th s1 u)" for u
      unfolding s2_def using D1(10) [of t] by (subst th_upd) auto
    have i2: "sched_inv np s2 (xs @ [t])"
    proof (rule sched_inv_cong [OF A(1) [OF al]])
      show "dll s2 (xs @ [t])" unfolding s2_def by (rule dll_upd [OF D1(1)]) simp
    qed (use nu in \<open>auto simp: T split: if_splits, auto simp: s2_def\<close>)
    have ct: "current_thread (default_fds ops t s2) \<noteq> Some t"
      using A(2,3) [OF al] sched_invD(3) [OF inv] by (auto simp: default_fds_def s2_def)
    obtain ok s4 where f: "finish_create t (default_fds ops t s2) = (ok, s4)" by fastforce
    have "s' = s4" using r al f en by (simp add: sched_create_def Let_def s2_def)
    with sched_inv_finish [OF sched_inv_default_fds [OF i2] ct f] show ?thesis by blast
  qed
qed

lemma int32_small: "- (2 ^ 31) \<le> i \<Longrightarrow> i < 2 ^ 31 \<Longrightarrow> int32 i = i"
  by (simp add: int32_def)

lemma sched_inv_Suc: "sched_inv np s xs \<Longrightarrow> sched_inv (Suc np) s xs"
  unfolding sched_inv_def sched_wf_def pids_fit_def by auto

text \<open>Creating a process takes the next number, as long as there is one.\<close>

lemma sched_inv_create_user:
  assumes inv: "sched_inv np s xs" and r: "sched_create_user ops en ar pp s = Ret (r, p, s')"
  shows "\<exists>ys. sched_inv (Suc np) s' ys"
proof (cases "en = 0")
  case True
  then show ?thesis using sched_inv_Suc [OF inv] r by (auto simp: sched_create_user_def)
next
  case en: False
  obtain o1 s1 where Pair: "thread_alloc s = (o1, s1)" by fastforce
  show ?thesis
  proof (cases o1)
    case None
    then show ?thesis using sched_inv_Suc [OF sched_inv_alloc_None [OF inv]] Pair r en
      by (auto simp: sched_create_user_def)
  next
    case (Some t)
    note A = sched_inv_alloc [OF inv, of t s1]
    have al: "thread_alloc s = (Some t, s1)" using Pair Some by simp
    define f :: "thread \<Rightarrow> thread" where "f = (\<lambda>x. x\<lparr>entry := en, arg := ar, state := THREAD_RUNNABLE, aspace := 0,
                      exit_to_kernel := False, pid := next_pid s1, ppid := pp, exit_code := 0, is_user := True,
                      reaped := False\<rparr>)"
    define s2 where "s2 = upd t f (s1\<lparr>next_pid := int32 (next_pid s1 + 1)\<rparr>)"
    note D1 = sched_invD [OF A(1) [OF al]]
    have ct1: "current_thread s1 \<noteq> Some t" using A(2,3) [OF al] sched_invD(3) [OF inv] by auto
    have T: "th s2 u = (if u = t then f (th s1 t) else th s1 u)" for u
      unfolding s2_def using D1(10) [of t] by (subst th_upd) auto
    have fs: "current_thread s2 = current_thread s1" "sched_ready s2 = sched_ready s1" "next_pid s2 = int32 (next_pid s1 + 1)"
      "sched_next_obj s2 = sched_next_obj s1" by (auto simp: s2_def)
    have sto: "store s2 u = None \<longleftrightarrow> store s1 u = None" for u by (simp add: s2_def)
    have np: "pids_fit np" "next_pid s2 = next_pid s1 + 1" "0 < next_pid s1" "next_pid s1 \<le> int np + 1"
      if "pids_fit (Suc np)"
    proof -
      show f: "pids_fit np" using that by (simp add: pids_fit_def)
      show "0 < next_pid s1" "next_pid s1 \<le> int np + 1" using D1(9) [OF f] by simp_all
      then show "next_pid s2 = next_pid s1 + 1" using that by (simp add: fs int32_small pids_fit_def INT_MAX_def)
    qed
    have d1: "dll (s1\<lparr>next_pid := int32 (next_pid s1 + 1)\<rparr>) (xs @ [t])"
      by (rule dll_cong [OF D1(1)]) (use D1(10) in \<open>auto simp: nx_def pv_def\<close>)
    have d2: "dll s2 (xs @ [t])" unfolding s2_def by (rule dll_upd [OF d1]) (simp add: f_def)
    have i2: "sched_inv (Suc np) s2 (xs @ [t])"
    proof (rule sched_invI [OF d2])
      show "\<exists>c\<in>set (xs @ [t]). current_thread s2 = Some c \<and> (state (th s2 c) = THREAD_DEAD \<longrightarrow> reaped (th s2 c))"
        using D1(3) ct1 by (auto simp: T fs)
      show "u \<in> set (xs @ [t]) \<and> u < sched_next_obj s2" if "store s2 u \<noteq> None" for u
        using D1(4,5) [of u] that unfolding sto fs by auto
      show "current_thread s2 = Some u" if "u \<in> set (xs @ [t])" "state (th s2 u) = THREAD_RUNNING" for u
        using that D1(6) [of u] by (auto simp: T fs f_def split: if_splits)
      show "0 < pid (th s2 u) \<and> pid (th s2 u) < next_pid s2" if "pids_fit (Suc np)" "u \<in> set (xs @ [t])" "is_user (th s2 u)" for u
        using that D1(7) [OF np(1) [OF that(1)], of u] np [OF that(1)] by (auto simp: T f_def split: if_splits)
      show "0 < next_pid s2 \<and> next_pid s2 \<le> int (Suc np) + 1" if "pids_fit (Suc np)" using np [OF that] by simp
      show "u = v" if "pids_fit (Suc np)" "u \<in> set (xs @ [t])" "v \<in> set (xs @ [t])" "is_user (th s2 u)" "is_user (th s2 v)"
          "pid (th s2 u) = pid (th s2 v)" for u v
      proof -
        note f = np(1) [OF that(1)]
        show ?thesis using that D1(7) [OF f, of u] D1(7) [OF f, of v] D1(8) [OF f, of u v]
          by (auto simp: T f_def split: if_splits)
      qed
    qed (use D1(2) fs in auto)
    define s3 where "s3 parent = (case parent of
        Some q \<Rightarrow> upd t (\<lambda>x. x\<lparr>cwd := cwd (th s2 q), fds := fds (th s2 q)\<rparr>)
                    (s2\<lparr>handles := acquire_all ops (fds (th s2 q)) (handles s2)\<rparr>)
      | None \<Rightarrow> default_fds ops t s2)" for parent
    have L: "sched_create_user ops en ar pp s =
        bind_run (if pp > 0 then loop_run (find_pid s2 pp (threads_head s2)) else Ret None)
          (\<lambda>parent. case finish_create t (s3 parent) of (ok, s4) \<Rightarrow> Ret (if ok then (0, next_pid s1, s4) else (-1, 0, s4)))"
      by (simp only: sched_create_user_def en if_False al prod.case option.case Let_def s3_def s2_def f_def)
    obtain parent where pr: "(case finish_create t (s3 parent) of (ok, s4) \<Rightarrow>
        Ret (if ok then (0, next_pid s1, s4) else (-1, 0, s4))) = Ret (r, p, s')"
      using r unfolding L bind_run_Ret_iff by blast
    obtain ok where fc: "finish_create t (s3 parent) = (ok, s')"
      using pr by (cases "finish_create t (s3 parent)") (auto split: if_splits)
    have i3: "sched_inv (Suc np) (s3 parent) (xs @ [t])"
    proof (cases parent)
      case (Some q)
      show ?thesis unfolding s3_def Some option.case by (rule sched_inv_upd) (use i2 in auto)
    qed (use sched_inv_default_fds [OF i2] in \<open>simp add: s3_def\<close>)
    have ct: "current_thread (s3 parent) \<noteq> Some t"
      using ct1 fs by (auto simp: s3_def default_fds_def split: option.splits)
    from sched_inv_finish [OF i3 ct fc] show ?thesis by blast
  qed
qed

text \<open>Leaving, reaping and killing.\<close>

lemma find_dead_child_chain:
  "chain (nx s) p ys \<Longrightarrow> find_dead_child s parent hc p =
     Some (case List.find (\<lambda>t. is_user (th s t) \<and> ppid (th s t) = parent \<and> state (th s t) = THREAD_DEAD \<and> \<not> reaped (th s t)) ys of
             Some t \<Rightarrow> (Some t, True)
           | None \<Rightarrow> (None, hc \<or> (\<exists>t\<in>set ys. is_user (th s t) \<and> ppid (th s t) = parent)))"
proof (induction ys arbitrary: p hc)
  case Nil
  then show ?case by (subst find_dead_child.simps) simp
next
  case (Cons y ys)
  from Cons.prems have p: "p = Some y" "chain (nx s) (t_next (th s y)) ys" by (auto simp: nx_def [symmetric])
  show ?case unfolding p(1)
    by (subst find_dead_child.simps) (auto simp: Cons.IH [OF p(2)] split: option.splits)
qed

lemma find_pid_chain: "chain (nx s) p ys \<Longrightarrow> find_pid s i p = Some (List.find (\<lambda>t. pid (th s t) = i) ys)"
proof (induction ys arbitrary: p)
  case Nil
  then show ?case by (subst find_pid.simps) simp
next
  case (Cons y ys)
  from Cons.prems have p: "p = Some y" "chain (nx s) (t_next (th s y)) ys" by (auto simp: nx_def [symmetric])
  show ?case unfolding p(1) by (subst find_pid.simps) (simp add: Cons.IH [OF p(2)])
qed

lemma sched_inv_exit:
  assumes inv: "sched_inv np s xs" and r: "sched_exit ops s = Ret s'"
  shows "sched_inv np s' xs"
proof -
  note D = sched_invD [OF inv]
  obtain cur where cur: "cur \<in> set xs" "current_thread s = Some cur" using D(3) by auto
  then obtain c where c: "c < length xs" "xs ! c = cur" by (metis in_set_conv_nth)
  define s1 where "s1 = upd cur (\<lambda>x. x\<lparr>state := THREAD_DEAD, fds := map (\<lambda>fd. if fd \<ge> 0 then -1 else fd) (fds x)\<rparr>)
                      (s\<lparr>handles := release_all ops (fds (th s cur)) (handles s)\<rparr>)"
  have T: "th s1 u = (if u = cur then (th s cur)\<lparr>state := THREAD_DEAD,
        fds := map (\<lambda>fd. if fd \<ge> 0 then -1 else fd) (fds (th s cur))\<rparr> else th s u)" for u
    unfolding s1_def using D(10) [OF cur(1)] by (subst th_upd) auto
  have e: "bind_run (sched_resched_locked s1) (\<lambda>s2. if current_thread s2 = current_thread s1 then Hang else Ret s2) = Ret s'"
    using r cur by (simp add: sched_exit_def s1_def)
  have d1: "dll s1 xs" unfolding s1_def
  proof (rule dll_upd)
    show "dll (s\<lparr>handles := release_all ops (fds (th s cur)) (handles s)\<rparr>) xs"
      by (rule dll_cong [OF D(1)]) (use D(10) in \<open>auto simp: nx_def pv_def\<close>)
  qed simp
  have c1: "current_thread s1 = Some (xs ! c)" "sched_ready s1" using cur c D(2) by (simp_all add: s1_def)
  note R = sched_resched_ring [OF d1 c(1) c1]
  obtain j where j: "List.find (\<lambda>j. runnable s1 (ring xs c j)) [1..<length xs + 1] = Some j" "j \<noteq> length xs"
      "s' = switch_to cur (ring xs c j) s1"
    using e unfolding R using c1 c by (auto simp: bind_run_Ret_iff split: option.splits if_splits)
  have jr: "runnable s1 (ring xs c j)" using find_SomeD [OF j(1)] by auto
  have pos: "0 < length xs" using c(1) by linarith
  have m: "ring xs c j \<in> set xs" unfolding ring_def by (rule nth_mem [OF mod_less_divisor [OF pos]])
  have nc: "ring xs c j \<noteq> cur" using jr by (auto simp: T)
  have U: "is_user (th s1 t) = is_user (th s t)" "pid (th s1 t) = pid (th s t)" for t by (simp_all add: T)
  have fs: "next_pid s1 = next_pid s" by (simp add: s1_def)
  have "sched_wf np s1 xs"
    unfolding sched_wf_def
  proof (intro conjI ballI impI allI)
    show "t < sched_next_obj s1" "t \<in> set xs" if "store s1 t \<noteq> None" for t
      using that D(4,5) [of t] by (auto simp: s1_def)
    show "current_thread s1 = Some t" if "t \<in> set xs" "state (th s1 t) = THREAD_RUNNING" for t
      using that D(6) [of t] cur by (auto simp: T split: if_splits)
    show "0 < pid (th s1 t)" "pid (th s1 t) < next_pid s1" if "pids_fit np" "t \<in> set xs" "is_user (th s1 t)" for t
      using that D(7) [of t] by (simp_all add: U fs)
    show "t = u" if "pids_fit np" "t \<in> set xs" "u \<in> set xs" "is_user (th s1 t) \<and> is_user (th s1 u) \<and> pid (th s1 t) = pid (th s1 u)" for t u
      using that D(8) [of t u] by (simp add: U)
    show "\<exists>x\<in>set xs. current_thread s1 = Some x" using c1 c cur by auto
  qed (use d1 c1 D(9) fs in simp_all)
  then show ?thesis using sched_inv_switch(1) [of np s1 xs cur] c1 c m jr nc by (simp add: j(3))
qed

lemma sched_inv_wait_child:
  assumes inv: "sched_inv np s xs" and r: "sched_wait_child parent s = Ret (w, s')"
  shows "\<exists>ys. sched_inv np s' ys"
proof -
  note D = sched_invD [OF inv]
  have ch: "chain (nx s) (threads_head s) xs" using D(1) by (simp add: dll_def)
  let ?P = "\<lambda>t. is_user (th s t) \<and> ppid (th s t) = parent \<and> state (th s t) = THREAD_DEAD \<and> \<not> reaped (th s t)"
  note E = r [unfolded sched_wait_child_def find_dead_child_chain [OF ch]]
  show ?thesis
  proof (cases "parent < 0 \<or> List.find ?P xs = None")
    case True
    then show ?thesis using E inv sched_inv_resched [OF inv]
      by (auto simp: sched_yield_def bind_run_Ret_iff split: if_splits)
  next
    case False
    then obtain t where t: "List.find ?P xs = Some t" by auto
    then have P: "?P t" "t \<in> set xs" using find_SomeD by fastforce+
    then obtain A B where x: "xs = A @ t # B" by (meson split_list)
    have i: "sched_inv np (upd t (\<lambda>x. x\<lparr>reaped := True\<rparr>) s) (A @ t # B)"
      by (rule sched_inv_upd) (use inv x in auto)
    have nc: "current_thread s \<noteq> Some t" using D(3) P by auto
    have "s' = thread_free t (list_remove t (upd t (\<lambda>x. x\<lparr>reaped := True\<rparr>) s))"
      using E False t by simp
    then show ?thesis using sched_inv_remove(1) [OF i] nc by auto
  qed
qed

lemma kill_walk_inv:
  assumes "kill_walk t s = Some s'" "sched_inv np s xs" shows "sched_inv np s' xs"
proof -
  have "sched_inv np s xs \<longrightarrow> sched_inv np s' xs"
  proof (rule kill_walk.raw_induct [where P = "\<lambda>t s s'. sched_inv np s xs \<longrightarrow> sched_inv np s' xs", OF _ assms(1)])
    fix k :: "nat option \<Rightarrow> 'a sched \<Rightarrow> 'a sched option" and t s s'
    assume IH: "\<And>t s s'. k t s = Some s' \<Longrightarrow> sched_inv np s xs \<longrightarrow> sched_inv np s' xs"
      and e: "(case t of None \<Rightarrow> Some s
          | Some x \<Rightarrow>
              (let s1 = (if aspace (th s x) \<noteq> 0
                         then upd x (\<lambda>y. y\<lparr>state := THREAD_DEAD, aspace := 0, reaped := True\<rparr>) s else s)
               in k (t_next (th s1 x)) s1)) = Some s'"
    show "sched_inv np s xs \<longrightarrow> sched_inv np s' xs"
    proof
      assume inv: "sched_inv np s xs"
      have "sched_inv np (upd x (\<lambda>y. y\<lparr>state := THREAD_DEAD, aspace := 0, reaped := True\<rparr>) s) xs" for x
        by (rule sched_inv_upd [OF inv]) auto
      with e inv IH show "sched_inv np s' xs" by (auto simp: Let_def split: option.splits if_splits)
    qed
  qed
  with assms show ?thesis by simp
qed

lemma wake_walk_inv:
  assumes "wake_walk t s = Some s'" "sched_inv np s xs" shows "sched_inv np s' xs"
proof -
  have "sched_inv np s xs \<longrightarrow> sched_inv np s' xs"
  proof (rule wake_walk.raw_induct [where P = "\<lambda>t s s'. sched_inv np s xs \<longrightarrow> sched_inv np s' xs", OF _ assms(1)])
    fix k :: "nat option \<Rightarrow> 'a sched \<Rightarrow> 'a sched option" and t s s'
    assume IH: "\<And>t s s'. k t s = Some s' \<Longrightarrow> sched_inv np s xs \<longrightarrow> sched_inv np s' xs"
      and e: "(case t of None \<Rightarrow> Some s
          | Some x \<Rightarrow> k (wait_next (th s x)) (upd x (\<lambda>y. y\<lparr>wait_next := None, state := THREAD_RUNNABLE\<rparr>) s)) = Some s'"
    show "sched_inv np s xs \<longrightarrow> sched_inv np s' xs"
    proof
      assume inv: "sched_inv np s xs"
      have "sched_inv np (upd x (\<lambda>y. y\<lparr>wait_next := None, state := THREAD_RUNNABLE\<rparr>) s) xs" for x
        by (rule sched_inv_upd [OF inv]) auto
      with e inv IH show "sched_inv np s' xs" by (auto split: option.splits)
    qed
  qed
  with assms show ?thesis by simp
qed

lemma sched_inv_sleep:
  assumes inv: "sched_inv np s xs" and r: "sched_sleep wq s = Ret (wq', s')"
  shows "sched_inv np s' xs"
proof -
  note D = sched_invD [OF inv]
  obtain cur where cur: "current_thread s = Some cur" using D(3) by auto
  let ?s1 = "upd cur (\<lambda>x. x\<lparr>state := THREAD_BLOCKED, wait_next := None\<rparr>) s"
  have i1: "sched_inv np ?s1 xs" by (rule sched_inv_upd [OF inv]) auto
  have i2: "sched_inv np (upd q (\<lambda>x. x\<lparr>wait_next := Some cur\<rparr>) ?s1) xs" for q
    by (rule sched_inv_upd [OF i1]) auto
  have "sched_resched_locked (snd (enqueue_current cur wq s)) = Ret s'"
    using r cur by (auto simp: sched_sleep_def bind_run_Ret_iff split: prod.splits)
  moreover have "sched_inv np (snd (enqueue_current cur wq s)) xs"
    using i1 i2 by (auto simp: enqueue_current_def Let_def split: option.splits)
  ultimately show ?thesis using sched_inv_resched by blast
qed

lemma sched_inv_upd_cur:
  assumes "sched_inv np s xs"
    "\<And>x. t_next (f x) = t_next x \<and> t_prev (f x) = t_prev x \<and> is_user (f x) = is_user x \<and> pid (f x) = pid x \<and>
      state (f x) = state x \<and> reaped (f x) = reaped x"
  shows "sched_inv np (upd_cur f s) xs"
  unfolding upd_cur_def
proof (cases "current_thread s")
  case (Some c)
  show "sched_inv np (case current_thread s of None \<Rightarrow> s | Some cur \<Rightarrow> upd cur f s) xs"
    unfolding Some option.case by (rule sched_inv_upd [OF assms(1)]) (use assms(2) in auto)
qed (use assms in simp)

section \<open>The scheduler at work\<close>

text \<open>The statics before \<open>sched_init\<close>, and every change the kernel can make through the interface.
  Wait queues belong to the callers and are arbitrary here.\<close>

definition sched_zero :: "'h \<Rightarrow> (nat \<Rightarrow> bool) \<Rightarrow> 'h sched" where
  "sched_zero h km = \<lparr>store = (\<lambda>_. None), threads_head = None, threads_tail = None, thread_count = 0,
     current_thread = None, sched_ticks = 0, need_resched = False, last_switch_tick = 0, sched_ready = False,
     sched_preempt_pending = False, sched_preempt_target = 0, next_pid = 1, cur_aspace = 0, handles = h,
     sched_next_obj = 0, sched_kmem = km\<rparr>"

inductive sched_step :: "'h handle_ops \<Rightarrow> 'h sched \<Rightarrow> 'h sched \<Rightarrow> bool" for ops where
  create: "sched_create ops en ar s = (r, s') \<Longrightarrow> sched_step ops s s'"
| yield: "sched_yield s = Ret s' \<Longrightarrow> sched_step ops s s'"
| exit: "sched_exit ops s = Ret s' \<Longrightarrow> sched_step ops s s'"
| wait: "sched_wait_child parent s = Ret (w, s') \<Longrightarrow> sched_step ops s s'"
| kill: "sched_kill_user_threads s = Ret s' \<Longrightarrow> sched_step ops s s'"
| sleep: "sched_sleep_cond b wq s = Ret (wq', s') \<Longrightarrow> sched_step ops s s'"
| wake_one: "sched_wake_one wq s = (wq', s') \<Longrightarrow> sched_step ops s s'"
| wake_all: "sched_wake_all wq s = Ret (wq', s') \<Longrightarrow> sched_step ops s s'"
| tick: "sched_step ops s (sched_on_tick s)"
| preempt: "sched_maybe_preempt s = Ret s' \<Longrightarrow> sched_step ops s s'"
| request: "sched_request_preempt cs rip tr s = (b, rip', s') \<Longrightarrow> sched_step ops s s'"
| set_aspace: "sched_step ops s (sched_set_current_aspace p s)"
| set_exit_to_kernel: "sched_step ops s (sched_set_current_exit_to_kernel e s)"
| set_exit_code: "sched_step ops s (sched_set_current_exit_code code s)"
| set_cwd: "sched_step ops s (sched_set_cwd buf s)"
| set_fd: "sched_step ops s (sched_set_fd fd g s)"
| alloc_fd: "sched_allocate_fd g s = (fd, s') \<Longrightarrow> sched_step ops s s'"

text \<open>The states after \<open>np\<close> calls of \<open>sched_create_user\<close> and any other operations between them.\<close>

inductive sched_reach :: "'h handle_ops \<Rightarrow> nat \<Rightarrow> 'h sched \<Rightarrow> bool" for ops where
  init: "km 0 \<Longrightarrow> sched_reach ops 0 (sched_init (sched_zero h km))"
| create_user: "sched_reach ops np s \<Longrightarrow> sched_create_user ops en ar pp s = Ret (r, p, s') \<Longrightarrow>
     sched_reach ops (Suc np) s'"
| step: "sched_reach ops np s \<Longrightarrow> sched_step ops s s' \<Longrightarrow> sched_reach ops np s'"

lemma sched_inv_init: "km 0 \<Longrightarrow> sched_inv np (sched_init (sched_zero h km)) [0]"
  by (simp add: sched_init_def sched_zero_def thread_alloc_def sched_new_obj_def list_append_def Let_def sched_inv_def
      sched_wf_def dll_def nx_def pv_def upd_def th_def zero_thread_def)

lemma sched_inv_step:
  assumes inv: "sched_inv np s xs" and st: "sched_step ops s s'"
  shows "\<exists>ys. sched_inv np s' ys"
  using st
proof cases
  case (create en ar r)
  then show ?thesis using sched_inv_create [OF inv] by blast
next
  case yield
  then show ?thesis using sched_inv_resched [OF inv] unfolding sched_yield_def by blast
next
  case exit
  then show ?thesis using sched_inv_exit [OF inv] by blast
next
  case (wait parent w)
  then show ?thesis using sched_inv_wait_child [OF inv] by blast
next
  case kill
  then show ?thesis using kill_walk_inv [OF _ inv]
    by (auto simp: sched_kill_user_threads_def loop_run_Ret_iff)
next
  case (sleep b wq wq')
  then show ?thesis using sched_inv_sleep [OF inv] inv by (auto simp: sched_sleep_cond_def split: if_splits)
next
  case (wake_one wq wq')
  have "sched_inv np (upd t (\<lambda>x. x\<lparr>wait_next := None, state := THREAD_RUNNABLE\<rparr>) s) xs" for t
    by (rule sched_inv_upd [OF inv]) auto
  then show ?thesis using wake_one inv by (auto simp: sched_wake_one_def Let_def split: option.splits)
next
  case (wake_all wq wq')
  then show ?thesis using wake_walk_inv [OF _ inv]
    by (auto simp: sched_wake_all_def loop_run_Ret_iff bind_run_Ret_iff)
next
  case tick
  then show ?thesis using inv by (auto simp: sched_on_tick_def Let_def)
next
  case preempt
  then show ?thesis using sched_inv_resched [OF inv] inv by (auto simp: sched_maybe_preempt_def sched_yield_def split: if_splits)
next
  case (request cs rip tr b rip')
  then show ?thesis using inv by (auto simp: sched_request_preempt_def split: if_splits)
next
  case (set_aspace p)
  have "sched_inv np (sched_set_current_aspace p s) xs"
    unfolding sched_set_current_aspace_def by (rule sched_inv_upd_cur [OF inv]) simp
  with set_aspace show ?thesis by blast
next
  case (set_exit_to_kernel e)
  have "sched_inv np (sched_set_current_exit_to_kernel e s) xs"
    unfolding sched_set_current_exit_to_kernel_def by (rule sched_inv_upd_cur [OF inv]) simp
  with set_exit_to_kernel show ?thesis by blast
next
  case (set_exit_code code)
  have "sched_inv np (sched_set_current_exit_code code s) xs"
    unfolding sched_set_current_exit_code_def by (rule sched_inv_upd_cur [OF inv]) simp
  with set_exit_code show ?thesis by blast
next
  case (set_cwd buf)
  have "sched_inv np (sched_set_cwd buf s) xs" unfolding sched_set_cwd_def by (rule sched_inv_upd_cur [OF inv]) simp
  with set_cwd show ?thesis by blast
next
  case (set_fd fd g)
  have "sched_inv np (upd_cur (\<lambda>x. x\<lparr>fds := (fds x)[nat fd := g]\<rparr>) s) xs" by (rule sched_inv_upd_cur [OF inv]) simp
  with set_fd inv show ?thesis by (auto simp: sched_set_fd_def)
next
  case (alloc_fd g fd)
  have "sched_inv np (upd c (\<lambda>x. x\<lparr>fds := (fds x)[i := g]\<rparr>) s) xs" for c i by (rule sched_inv_upd [OF inv]) auto
  moreover have "s' = s \<or> (\<exists>c i. s' = upd c (\<lambda>x. x\<lparr>fds := (fds x)[i := g]\<rparr>) s)"
  proof -
    define l where "l = [0..<16]"
    show ?thesis using alloc_fd unfolding sched_allocate_fd_def l_def [symmetric]
      by (auto split: option.splits if_splits)
  qed
  ultimately show ?thesis using inv by metis
qed

lemma sched_reach_inv: "sched_reach ops np s \<Longrightarrow> \<exists>xs. sched_inv np s xs"
proof (induction rule: sched_reach.induct)
  case (init km h)
  then show ?case by (intro exI [of _ "[0]"] sched_inv_init)
next
  case (create_user np s en ar pp r p s')
  from create_user.IH obtain xs where "sched_inv np s xs" ..
  then show ?case by (rule sched_inv_create_user [OF _ create_user.hyps(2)])
next
  case (step np s s')
  from step.IH obtain xs where "sched_inv np s xs" ..
  then show ?case by (rule sched_inv_step [OF _ step.hyps(2)])
qed

text \<open>(C7) Invariant of the scheduler over every sequence of its operations. The thread list is a
  doubly linked list of exactly the threads in memory, \<open>thread_count\<close> of them; there is a current thread, it is
  on the list, no other thread is marked running, and it is not a zombie that its parent still has to
  collect. As long as fewer than 2147483647 user processes were created, so that the 32-bit
  counter \<open>next_pid\<close> has not wrapped around, user processes have distinct positive process numbers
  below \<open>next_pid\<close>.\<close>

theorem sched_reachable_invariant:
  assumes "sched_reach ops np s"
  shows "\<exists>xs. dll s xs \<and> distinct xs \<and> {t. store s t \<noteq> None} = set xs \<and>
      (\<exists>c\<in>set xs. current_thread s = Some c \<and> (state (th s c) = THREAD_DEAD \<longrightarrow> reaped (th s c)) \<and>
         (\<forall>t\<in>set xs. state (th s t) = THREAD_RUNNING \<longrightarrow> t = c)) \<and>
      (int np < 2 ^ 31 - 1 \<longrightarrow>
        (\<forall>t\<in>set xs. is_user (th s t) \<longrightarrow> 0 < pid (th s t) \<and> pid (th s t) < next_pid s) \<and>
        inj_on (\<lambda>t. pid (th s t)) {t \<in> set xs. is_user (th s t)} \<and>
        next_pid s \<le> int np + 1)"
proof -
  obtain xs where inv: "sched_inv np s xs" using sched_reach_inv [OF assms] by blast
  note D = sched_invD [OF inv]
  have "{t. store s t \<noteq> None} = set xs" using D(4,10) by blast
  moreover have "\<exists>c\<in>set xs. current_thread s = Some c \<and> (state (th s c) = THREAD_DEAD \<longrightarrow> reaped (th s c)) \<and>
         (\<forall>t\<in>set xs. state (th s t) = THREAD_RUNNING \<longrightarrow> t = c)" using D(3,6) by fastforce
  moreover have "inj_on (\<lambda>t. pid (th s t)) {t \<in> set xs. is_user (th s t)}" if "pids_fit np"
    by (rule inj_onI) (use D(8) [OF that] in blast)
  moreover have "pids_fit np" if "int np < 2 ^ 31 - 1" using that by (simp add: pids_fit_def INT_MAX_def)
  ultimately show ?thesis using D(1,7,9) dll_distinct [OF D(1)] by blast
qed

text \<open>Yields of whichever thread runs, with arbitrary other activity \<open>e\<close> after each.\<close>

fun yield_run :: "(nat \<Rightarrow> 'h sched \<Rightarrow> 'h sched) \<Rightarrow> nat \<Rightarrow> 'h sched \<Rightarrow> 'h sched run" where
  "yield_run e 0 s = Ret s"
| "yield_run e (Suc n) s = bind_run (sched_yield s) (\<lambda>s'. yield_run (e \<circ> Suc) n (e 0 s'))"

lemma find_upt_le:
  assumes "P d" "a \<le> d" "d < b"
  obtains j where "List.find P [a..<b] = Some j" "P j" "a \<le> j" "j \<le> d"
proof -
  obtain j where j: "List.find P [a..<b] = Some j"
    using assms by (cases "List.find P [a..<b]") (auto simp: find_None_iff)
  then obtain i where i: "i < b - a" "P (a + i)" "j = a + i" "\<forall>k<i. \<not> P (a + k)"
    by (auto simp: find_Some_iff)
  have "\<not> d - a < i"
  proof
    assume "d - a < i"
    then have "\<not> P (a + (d - a))" using i(4) by blast
    then show False using assms by simp
  qed
  then have "j \<le> d" using assms i(3) by linarith
  with that [OF j] i show thesis by simp
qed

lemma ring_eq_iff:
  assumes "distinct xs" "i < length xs" "j < length xs" shows "ring xs c i = ring xs c j \<longleftrightarrow> i = j"
proof -
  have pos: "0 < length xs" using assms by linarith
  have "ring xs c i = ring xs c j \<longleftrightarrow> (c + i) mod length xs = (c + j) mod length xs"
    unfolding ring_def by (rule nth_eq_iff_index_eq [OF assms(1) mod_less_divisor [OF pos] mod_less_divisor [OF pos]])
  then show ?thesis using assms by (simp add: mod_shift)
qed

lemma ring_mem: "xs \<noteq> [] \<Longrightarrow> ring xs c j \<in> set xs"
  unfolding ring_def by (rule nth_mem [OF mod_less_divisor]) simp

text \<open>A yield moves the current thread towards every runnable thread of the ring, never past it.\<close>

lemma sched_yield_towards:
  assumes inv: "sched_inv np s xs" and c: "c < length xs" "current_thread s = Some (xs ! c)"
    and d: "0 < d" "d < length xs" "runnable s (ring xs c d)"
  obtains j s' where "sched_yield s = Ret s'" "sched_inv np s' xs" "0 < j" "j \<le> d" "current_thread s' = Some (ring xs c j)"
    "j < d \<longrightarrow> runnable s' (ring xs c d)"
proof -
  note D = sched_invD [OF inv]
  note R = sched_resched_ring [OF D(1) c D(2)]
  obtain j where j: "List.find (\<lambda>j. runnable s (ring xs c j)) [1..<length xs + 1] = Some j" "runnable s (ring xs c j)" "1 \<le> j" "j \<le> d"
    by (rule find_upt_le [of "\<lambda>j. runnable s (ring xs c j)" d 1 "length xs + 1"]) (use d in auto)
  have dis: "distinct xs" by (rule dll_distinct [OF D(1)])
  have ne: "xs \<noteq> []" using c(1) by auto
  have r0: "ring xs c 0 = xs ! c" using c(1) by (simp add: ring_def)
  have nc: "ring xs c j \<noteq> xs ! c" using ring_eq_iff [OF dis, of j 0 c] j d ne by (simp add: r0)
  have y: "sched_yield s = Ret (switch_to (xs ! c) (ring xs c j) s)"
    using R j d unfolding sched_yield_def by simp
  note W = sched_inv_switch [OF sched_inv_wf [OF inv] c(2) ring_mem [OF ne] j(2) nc]
  have "runnable (switch_to (xs ! c) (ring xs c j) s) (ring xs c d)" if "j < d"
    using W(3) [of "ring xs c d"] d(3) ring_eq_iff [OF dis, of d j c] that d(2) by simp
  with that [OF y W(1) _ j(4) W(2)] j(3) show thesis by simp
qed

lemma yield_run_reaches:
  assumes e: "\<And>n s. sched_inv np s xs \<Longrightarrow> sched_inv np (e n s) xs \<and> current_thread (e n s) = current_thread s \<and> (runnable s t \<longrightarrow> runnable (e n s) t)"
    and inv: "sched_inv np s xs" and c: "c < length xs" "current_thread s = Some (xs ! c)"
    and t: "t = ring xs c d" "0 < d" "d < length xs" "runnable s t"
  shows "\<exists>n\<le>d. \<exists>s'. yield_run e n s = Ret s' \<and> current_thread s' = Some t"
  using assms
proof (induction d arbitrary: e s c rule: less_induct)
  case (less d)
  obtain j s1 where j: "sched_yield s = Ret s1" "sched_inv np s1 xs" "0 < j" "j \<le> d" "current_thread s1 = Some (ring xs c j)"
      "j < d \<longrightarrow> runnable s1 (ring xs c d)"
    by (rule sched_yield_towards [OF less.prems(2-4) less.prems(6,7) less.prems(8) [unfolded less.prems(5)]])
  note E = less.prems(1) [OF j(2), of 0]
  show ?case
  proof (cases "j = d")
    case True
    then have "yield_run e 1 s = Ret (e 0 s1) \<and> current_thread (e 0 s1) = Some t" using E j less.prems(5) by simp
    then show ?thesis using less.prems(6) by (intro exI [of _ 1]) auto
  next
    case False
    then have jd: "j < d" using j(4) by simp
    let ?c = "(c + j) mod length xs"
    have pos: "0 < length xs" using less.prems(3) by linarith
    have "(?c + (d - j)) mod length xs = (c + j + (d - j)) mod length xs" by (rule mod_add_left_eq)
    then have r: "ring xs ?c (d - j) = ring xs c d" using jd by (simp only: ring_def add.assoc le_add_diff_inverse less_imp_le)
    have "\<exists>n\<le>d - j. \<exists>s'. yield_run (e \<circ> Suc) n (e 0 s1) = Ret s' \<and> current_thread s' = Some t"
    proof (rule less.IH [of "d - j" "e \<circ> Suc" "e 0 s1" ?c])
      show "sched_inv np (e 0 s1) xs" using E by simp
      show "current_thread (e 0 s1) = Some (xs ! ?c)" using E j(5) by (simp add: ring_def)
      show "runnable (e 0 s1) t" using E j(6) jd less.prems(5) by simp
    qed (use less.prems(1,5,7) j(3) jd r pos in auto)
    then obtain n s' where "n \<le> d - j" "yield_run (e \<circ> Suc) n (e 0 s1) = Ret s'" "current_thread s' = Some t" by blast
    then show ?thesis using j(1,3) jd by (intro exI [of _ "Suc n"]) auto
  qed
qed

text \<open>A small system for the examples: the boot thread runs, a user process that has exited with code 7 waits
  for its parent, and a kernel thread is ready.\<close>

definition demo_ops :: "(int \<Rightarrow> nat) handle_ops" where
  "demo_ops = \<lparr>acquire_handle = (\<lambda>g h. h(g := h g + 1)), release_handle = (\<lambda>g h. h(g := h g - 1))\<rparr>"

definition demo_sched :: "(int \<Rightarrow> nat) sched" where
  "demo_sched = (sched_zero (\<lambda>_. 0) (\<lambda>_. True))
     \<lparr>store := [0 \<mapsto> zero_thread\<lparr>state := THREAD_RUNNING, reaped := True, t_next := Some 1\<rparr>,
               1 \<mapsto> zero_thread\<lparr>state := THREAD_DEAD, is_user := True, pid := 1, exit_code := 7, t_prev := Some 0, t_next := Some 2\<rparr>,
               2 \<mapsto> zero_thread\<lparr>state := THREAD_RUNNABLE, reaped := True, t_prev := Some 1\<rparr>],
      threads_head := Some 0, threads_tail := Some 2, thread_count := 3, current_thread := Some 0,
      sched_ready := True, next_pid := 2, sched_next_obj := 3\<rparr>"

lemma demo_sched_inv: "sched_inv 1 demo_sched [0, 1, 2]"
  by (simp add: demo_sched_def sched_zero_def sched_inv_def sched_wf_def dll_def nx_def pv_def th_def zero_thread_def)

theorem sched_reachable_invariant_witness:
  "\<exists>s. sched_reach demo_ops 1 s \<and> (\<exists>xs. dll s xs \<and> {t. store s t \<noteq> None} = set xs \<and>
     inj_on (\<lambda>t. pid (th s t)) {t \<in> set xs. is_user (th s t)} \<and> next_pid s \<le> 2)"
proof -
  define s0 :: "(int \<Rightarrow> nat) sched" where "s0 = sched_init (sched_zero (\<lambda>_. 0) (\<lambda>_. True))"
  define r where "r = sched_create_user demo_ops 5 0 0 s0"
  have "map_option (\<lambda>(r, p, s). (r, p)) (ret_val r) = Some (0, 1)" unfolding r_def s0_def by code_simp
  then obtain s where r: "sched_create_user demo_ops 5 0 0 s0 = Ret (0, 1, s)"
    by (cases r) (auto simp: r_def)
  have "sched_reach demo_ops 0 s0" unfolding s0_def by (rule sched_reach.init) simp
  from sched_reach.create_user [OF this r] have "sched_reach demo_ops 1 s" by simp
  with sched_reachable_invariant [OF this] show ?thesis by auto
qed

text \<open>(C8) Round robin. A yield chooses the first runnable thread after the current one around the list; the
  current thread is the last candidate. Without a runnable thread the current one goes on, unless it is
  dead: then the processor halts. The search always ends.\<close>

theorem sched_yield_round_robin:
  assumes "dll s xs" "c < length xs" "current_thread s = Some (xs ! c)" "sched_ready s"
  shows "sched_yield s =
    (case List.find (\<lambda>j. state (th s (xs ! ((c + j) mod length xs))) = THREAD_RUNNABLE) [1..<length xs + 1] of
       None \<Rightarrow> (if state (th s (xs ! c)) = THREAD_DEAD then Hang else Ret s)
     | Some j \<Rightarrow> if j = length xs then Ret s else Ret (switch_to (xs ! c) (xs ! ((c + j) mod length xs)) s))"
  using sched_resched_ring [OF assms] by (simp only: sched_yield_def ring_def)

theorem sched_yield_round_robin_witness: "sched_yield demo_sched = Ret (switch_to 0 2 demo_sched)"
proof -
  have d: "dll demo_sched [0, 1, 2]" by (rule sched_invD(1) [OF demo_sched_inv])
  show ?thesis
    by (subst sched_yield_round_robin [OF d, of 0]) (simp_all add: demo_sched_def th_def zero_thread_def sched_zero_def upt_rec)
qed

text \<open>(C9) Bounded waiting. A runnable thread becomes the current thread after at most as many yields as
  there are threads, whatever else happens between the yields, as long as the thread list, the current thread
  and the readiness of the waiting thread are left alone. All these yields return.\<close>

theorem sched_bounded_wait:
  assumes "\<And>n s. sched_inv np s xs \<Longrightarrow>
      sched_inv np (e n s) xs \<and> current_thread (e n s) = current_thread s \<and>
      (state (th s t) = THREAD_RUNNABLE \<longrightarrow> state (th (e n s) t) = THREAD_RUNNABLE)"
    and "sched_inv np s xs" "t \<in> set xs" "state (th s t) = THREAD_RUNNABLE"
  shows "\<exists>n\<le>length xs. \<exists>s'. yield_run e n s = Ret s' \<and> current_thread s' = Some t"
proof -
  note D = sched_invD [OF assms(2)]
  obtain cur where "cur \<in> set xs" "current_thread s = Some cur" using D(3) by auto
  then obtain c where c: "c < length xs" "current_thread s = Some (xs ! c)" by (metis in_set_conv_nth)
  obtain i where i: "i < length xs" "xs ! i = t" using assms(3) by (metis in_set_conv_nth)
  show ?thesis
  proof (cases "i = c")
    case True
    then show ?thesis using c i by (intro exI [of _ 0]) simp
  next
    case False
    let ?d = "(i + length xs - c) mod length xs"
    have "c + (i + length xs - c) = i + length xs" using c(1) by linarith
    then have t: "t = ring xs c ?d" using i by (simp add: ring_def mod_add_right_eq)
    have "ring xs c 0 = xs ! c" using c(1) by (simp add: ring_def)
    then have "0 < ?d" using t i c False dll_distinct [OF D(1)] by (metis neq0_conv nth_eq_iff_index_eq)
    moreover have "?d < length xs" using c(1) by (intro mod_less_divisor) linarith
    ultimately show ?thesis using yield_run_reaches [OF assms(1,2) c t _ _ assms(4)] by (meson less_imp_le order_trans)
  qed
qed

theorem sched_bounded_wait_witness:
  "\<exists>n\<le>3. \<exists>s'. yield_run (\<lambda>_. sched_on_tick) n demo_sched = Ret s' \<and> current_thread s' = Some 2"
proof -
  have r: "state (th demo_sched 2) = THREAD_RUNNABLE" by (simp add: demo_sched_def th_def)
  show ?thesis
    using sched_bounded_wait [OF _ demo_sched_inv _ r, of "\<lambda>_. sched_on_tick"]
    by (simp add: sched_on_tick_def Let_def th_def numeral_3_eq_3)
qed

text \<open>(C34) One round of waiting for a child. A process that has exited and has not been collected is
  found, the first one in the list; its number and exit code are returned, it disappears from the list and from
  memory, and no other thread changes. Without children the caller is told so and nothing changes; with living
  children only, the caller yields.\<close>

theorem sched_wait_child_reaps:
  assumes inv: "sched_inv np s xs" and p: "0 \<le> parent"
  shows "case List.find (\<lambda>t. is_user (th s t) \<and> ppid (th s t) = parent \<and> state (th s t) = THREAD_DEAD \<and> \<not> reaped (th s t)) xs of
      Some t \<Rightarrow> \<exists>s'. sched_wait_child parent s = Ret (Reaped (pid (th s t)) (exit_code (th s t)), s') \<and>
          sched_inv np s' (remove1 t xs) \<and> store s' t = None \<and> current_thread s' = current_thread s \<and>
          (\<forall>u. u \<noteq> t \<longrightarrow> core (th s' u) = core (th s u))
    | None \<Rightarrow> sched_wait_child parent s =
        (if \<exists>t\<in>set xs. is_user (th s t) \<and> ppid (th s t) = parent
         then bind_run (sched_yield s) (\<lambda>s'. Ret (Wait_again, s')) else Ret (No_child, s))"
proof -
  note D = sched_invD [OF inv]
  have ch: "chain (nx s) (threads_head s) xs" using D(1) by (simp add: dll_def)
  let ?P = "\<lambda>t. is_user (th s t) \<and> ppid (th s t) = parent \<and> state (th s t) = THREAD_DEAD \<and> \<not> reaped (th s t)"
  note E = sched_wait_child_def [of parent s, unfolded find_dead_child_chain [OF ch]]
  show ?thesis
  proof (cases "List.find ?P xs")
    case None
    then show ?thesis using p E by auto
  next
    case (Some t)
    then have P: "?P t" "t \<in> set xs" using find_SomeD by fastforce+
    then obtain A B where x: "xs = A @ t # B" by (meson split_list)
    have rm: "remove1 t xs = A @ B" using dll_distinct [OF D(1)] by (auto simp: x remove1_append)
    let ?s1 = "upd t (\<lambda>x. x\<lparr>reaped := True\<rparr>) s"
    have i: "sched_inv np ?s1 (A @ t # B)" by (rule sched_inv_upd) (use inv x in auto)
    have nc: "current_thread ?s1 \<noteq> Some t" using D(3) P by auto
    note R = sched_inv_remove [OF i nc]
    have c: "core (th (thread_free t (list_remove t ?s1)) u) = core (th s u)" if "u \<noteq> t" for u
      using R(2) [OF that] that D(10) [OF P(2)] by (simp add: th_upd)
    have "sched_wait_child parent s = Ret (Reaped (pid (th s t)) (exit_code (th s t)), thread_free t (list_remove t ?s1))"
      using p E Some by simp
    moreover have "store (thread_free t (list_remove t ?s1)) t = None" by (simp add: thread_free_def)
    ultimately show ?thesis using R(1,3) rm Some c by auto
  qed
qed

theorem sched_wait_child_reaps_witness:
  "\<exists>s'. sched_wait_child 0 demo_sched = Ret (Reaped 1 7, s') \<and> sched_inv 1 s' [0, 2] \<and> store s' 1 = None"
  using sched_wait_child_reaps [OF demo_sched_inv, of 0]
  by (auto simp: demo_sched_def th_def zero_thread_def)

text \<open>Waking does not look at the state: a thread that was killed while it slept on a queue is made
  runnable again.\<close>

definition demo_sleeper :: "(int \<Rightarrow> nat) sched" where
  "demo_sleeper = upd 2 (\<lambda>x. x\<lparr>state := THREAD_BLOCKED, aspace := 4096\<rparr>) demo_sched"

theorem killed_sleeper_woken:
  "(case sched_kill_user_threads demo_sleeper of
      Ret s \<Rightarrow> state (th s 2) = THREAD_DEAD \<and>
               state (th (snd (sched_wake_one \<lparr>wq_head = Some 2, wq_tail = Some 2\<rparr> s)) 2) = THREAD_RUNNABLE
    | _ \<Rightarrow> False)"
  by code_simp

end
