(* ===== verification/Tty.thy ===== *)
theory Tty
  imports Sched
begin

text \<open>
  Keyboard and serial input, kernel/irq.c, the terminal on top of it, kernel/tty.c, and the timer,
  kernel/timer.c. Interrupt handlers push bytes into two ring buffers and wake one sleeper; \<open>tty_read\<close>
  takes bytes from the rings, serial line first, and edits a line. Port reads are arguments. Console and
  serial output are kept as a sequence of events.
\<close>

section \<open>Input rings\<close>

definition KB_BUF_SIZE :: u32 where "KB_BUF_SIZE = 64"
definition COM_BUF_SIZE :: u32 where "COM_BUF_SIZE = 128"

record ring =
  rbuf :: "u8 list"
  rhead :: u32
  rtail :: u32

record irq =
  kb :: ring
  com :: ring
  input_wq :: wait_queue
  wq_init_done :: bool

definition irq_start :: irq where
  "irq_start = \<lparr>kb = \<lparr>rbuf = replicate 64 0, rhead = 0, rtail = 0\<rparr>, com = \<lparr>rbuf = replicate 128 0, rhead = 0, rtail = 0\<rparr>,
     input_wq = \<lparr>wq_head = None, wq_tail = None\<rparr>, wq_init_done = False\<rparr>"

definition ensure_wq_init :: "irq \<Rightarrow> irq" where
  "ensure_wq_init q = (if \<not> wq_init_done q then q\<lparr>input_wq := wait_queue_init, wq_init_done := True\<rparr> else q)"

text \<open>The two pushes and the two pops have the same text on the two rings. A full ring drops the byte.\<close>

definition ring_push :: "u32 \<Rightarrow> u8 \<Rightarrow> ring \<Rightarrow> ring option" where
  "ring_push n c r =
     (let nxt = (rhead r + 1) mod n
      in if nxt \<noteq> rtail r then Some (r\<lparr>rbuf := (rbuf r)[unat (rhead r) := c], rhead := nxt\<rparr>) else None)"

definition ring_pop :: "u32 \<Rightarrow> ring \<Rightarrow> (u8 \<times> ring) option" where
  "ring_pop n r =
     (if rtail r = rhead r then None
      else Some (rbuf r ! unat (rtail r), r\<lparr>rtail := (rtail r + 1) mod n\<rparr>))"

definition irq_wake :: "irq \<Rightarrow> 'h sched \<Rightarrow> irq \<times> 'h sched" where
  "irq_wake q s = (let q1 = ensure_wq_init q; (wq, s1) = sched_wake_one (input_wq q1) s in (q1\<lparr>input_wq := wq\<rparr>, s1))"

definition kb_push :: "u8 \<Rightarrow> irq \<Rightarrow> 'h sched \<Rightarrow> irq \<times> 'h sched" where
  "kb_push sc q s = (case ring_push KB_BUF_SIZE sc (kb q) of None \<Rightarrow> (q, s) | Some r \<Rightarrow> irq_wake (q\<lparr>kb := r\<rparr>) s)"

definition irq_com_push :: "u8 \<Rightarrow> irq \<Rightarrow> 'h sched \<Rightarrow> irq \<times> 'h sched" where
  "irq_com_push ch q s = (case ring_push COM_BUF_SIZE ch (com q) of None \<Rightarrow> (q, s) | Some r \<Rightarrow> irq_wake (q\<lparr>com := r\<rparr>) s)"

text \<open>\<open>inb\<close> gives what a port reads: keyboard data, line status and data of the serial line.\<close>

definition irq_dispatch :: "(u16 \<Rightarrow> u8) \<Rightarrow> u8 \<Rightarrow> irq \<Rightarrow> 'h sched \<Rightarrow> irq \<times> 'h sched" where
  "irq_dispatch inb n q s =
     (if n = 1 then kb_push (inb 0x60) q s
      else if n = 4 then (if inb (0x3F8 + 5) AND 1 \<noteq> 0 then irq_com_push (inb 0x3F8) q s else (q, s))
      else (q, s))"

definition irq_kb_pop :: "irq \<Rightarrow> (u8 \<times> irq) option" where
  "irq_kb_pop q = map_option (\<lambda>(c, r). (c, q\<lparr>kb := r\<rparr>)) (ring_pop KB_BUF_SIZE (kb q))"

definition irq_com_pop :: "irq \<Rightarrow> (u8 \<times> irq) option" where
  "irq_com_pop q = map_option (\<lambda>(c, r). (c, q\<lparr>com := r\<rparr>)) (ring_pop COM_BUF_SIZE (com q))"

definition irq_has_input :: "irq \<Rightarrow> bool" where
  "irq_has_input q \<longleftrightarrow> rhead (kb q) \<noteq> rtail (kb q) \<or> rhead (com q) \<noteq> rtail (com q)"

definition irq_wait_input :: "irq \<Rightarrow> 'h sched \<Rightarrow> (irq \<times> 'h sched) run" where
  "irq_wait_input q s =
     (let q1 = ensure_wq_init q
      in bind_run (sched_sleep_cond (irq_has_input q1) (input_wq q1) s) (\<lambda>(wq, s1). Ret (q1\<lparr>input_wq := wq\<rparr>, s1)))"

section \<open>Scan codes\<close>

definition scancode_map :: "u8 \<Rightarrow> char option" where
  "scancode_map sc = map_of (zip
     [0x02, 0x03, 0x04, 0x05, 0x06, 0x07, 0x08, 0x09, 0x0A, 0x0B, 0x0C, 0x0D,
      0x10, 0x11, 0x12, 0x13, 0x14, 0x15, 0x16, 0x17, 0x18, 0x19, 0x1A, 0x1B,
      0x1E, 0x1F, 0x20, 0x21, 0x22, 0x23, 0x24, 0x25, 0x26, 0x27, 0x28, 0x29,
      0x2B, 0x2C, 0x2D, 0x2E, 0x2F, 0x30, 0x31, 0x32, 0x33, 0x34, 0x35, 0x39]
     (''1234567890-='' @ ''qwertyuiop[]'' @ ''asdfghjkl;'' @ [char_of (39 :: nat), char_of (96 :: nat), char_of (92 :: nat)] @
      ''zxcvbnm,./ '')) sc"

definition scancode_shift_map :: "u8 \<Rightarrow> char option" where
  "scancode_shift_map sc = map_of (zip
     [0x02, 0x03, 0x04, 0x05, 0x06, 0x07, 0x08, 0x09, 0x0A, 0x0B, 0x0C, 0x0D,
      0x10, 0x11, 0x12, 0x13, 0x14, 0x15, 0x16, 0x17, 0x18, 0x19, 0x1A, 0x1B,
      0x1E, 0x1F, 0x20, 0x21, 0x22, 0x23, 0x24, 0x25, 0x26, 0x27, 0x28, 0x29,
      0x2B, 0x2C, 0x2D, 0x2E, 0x2F, 0x30, 0x31, 0x32, 0x33, 0x34, 0x35, 0x39]
     (''!@#$%^&*()_+'' @ ''QWERTYUIOP{}'' @ ''ASDFGHJKL:'' @ [char_of (34 :: nat), CHR ''~'', CHR ''|''] @
      ''ZXCVBNM<>? '')) sc"

text \<open>The new shift state and the character, if the code gives one.\<close>

definition scancode_to_char :: "u8 \<Rightarrow> bool \<Rightarrow> bool \<times> u8 option" where
  "scancode_to_char sc shift_state =
     (if sc = 0x2A \<or> sc = 0x36 then (True, None)
      else if sc = 0xAA \<or> sc = 0xB6 then (False, None)
      else if sc AND 0x80 \<noteq> 0 then (shift_state, None)
      else if sc = 0x1C then (shift_state, Some 10)
      else if sc = 0x0E then (shift_state, Some 8)
      else (shift_state, map_option of_char (if shift_state then scancode_shift_map sc else scancode_map sc)))"

section \<open>The terminal\<close>

datatype out_event = Out "u8 list" | Rub_out

record tty =
  inq :: irq
  shift_state :: bool
  echo :: "out_event list"

definition tty_write :: "u8 list \<Rightarrow> tty \<Rightarrow> nat \<times> tty" where
  "tty_write bs t = (if bs = [] then (0, t) else (length bs, t\<lparr>echo := echo t @ [Out bs]\<rparr>))"

text \<open>One character of input. The caller's buffer, as far as it has been written, is the line \<open>buf\<close> below \<open>count\<close>
  and the bytes \<open>old\<close> that backspaces left above it. The flag says whether the line is complete.\<close>

definition tty_char :: "u8 \<Rightarrow> u8 list \<Rightarrow> u8 list \<Rightarrow> tty \<Rightarrow> u8 list \<times> u8 list \<times> bool \<times> tty" where
  "tty_char ch buf old t =
     (if ch = 8
      then (if buf \<noteq> [] then (butlast buf, last buf # old, False, t\<lparr>echo := echo t @ [Rub_out]\<rparr>) else (buf, old, False, t))
      else (buf @ [ch], tl old, ch = 10, snd (tty_write [ch] t)))"

text \<open>The loop of \<open>tty_read\<close> up to the next wait: the buffer so far, and whether the call is complete. With
  both rings empty the caller sleeps in \<open>irq_wait_input\<close> and then continues with the same buffer.\<close>

partial_function (option) tty_loop :: "u64 \<Rightarrow> u8 list \<Rightarrow> u8 list \<Rightarrow> tty \<Rightarrow> (u8 list \<times> u8 list \<times> bool \<times> tty) option" where
  "tty_loop len buf old t =
     (if \<not> of_nat (length buf) < len then Some (buf, old, True, t)
      else case irq_com_pop (inq t) of
        Some (ch, q) \<Rightarrow>
          (case tty_char (if ch = 13 then 10 else ch) buf old (t\<lparr>inq := q\<rparr>) of (buf', old', fin, t') \<Rightarrow>
            if fin then Some (buf', old', True, t') else tty_loop len buf' old' t')
      | None \<Rightarrow>
          (case irq_kb_pop (inq t) of
             Some (sc, q) \<Rightarrow>
               (case scancode_to_char sc (shift_state t) of
                  (sh, None) \<Rightarrow> tty_loop len buf old (t\<lparr>inq := q, shift_state := sh\<rparr>)
                | (sh, Some c) \<Rightarrow>
                    (case tty_char c buf old (t\<lparr>inq := q, shift_state := sh\<rparr>) of (buf', old', fin, t') \<Rightarrow>
                      if fin then Some (buf', old', True, t') else tty_loop len buf' old' t'))
           | None \<Rightarrow> Some (buf, old, False, t)))"

declare tty_loop.simps [code]

definition tty_read :: "u64 \<Rightarrow> tty \<Rightarrow> (u8 list \<times> u8 list \<times> bool \<times> tty) run" where
  "tty_read len t = (if len = 0 then Ret ([], [], True, t) else loop_run (tty_loop len [] [] t))"

text \<open>The call goes on after a sleep.\<close>

definition tty_resume :: "u64 \<Rightarrow> u8 list \<Rightarrow> u8 list \<Rightarrow> tty \<Rightarrow> (u8 list \<times> u8 list \<times> bool \<times> tty) run" where
  "tty_resume len buf old t = loop_run (tty_loop len buf old t)"

section \<open>The timer\<close>

record timer =
  callbacks :: "(nat \<times> nat) option list"
  timer_ticks :: u64

definition timer_start :: timer where
  "timer_start = \<lparr>callbacks = replicate 8 None, timer_ticks = 0\<rparr>"

text \<open>A tick: the calls made, with the tick count and the argument registered.\<close>

definition timer_on_tick :: "timer \<Rightarrow> 'h sched \<Rightarrow> (nat \<times> u64 \<times> nat) list \<times> timer \<times> 'h sched" where
  "timer_on_tick t s =
     (let n = timer_ticks t + 1
      in (map (\<lambda>(cb, user). (cb, n, user)) (List.map_filter id (callbacks t)), t\<lparr>timer_ticks := n\<rparr>, sched_on_tick s))"

definition timer_register_callback :: "nat \<Rightarrow> nat \<Rightarrow> timer \<Rightarrow> int \<times> timer" where
  "timer_register_callback cb user t =
     (if cb = 0 then (-1, t)
      else case List.find (\<lambda>i. callbacks t ! i = None) [0..<8] of
             Some i \<Rightarrow> (0, t\<lparr>callbacks := (callbacks t)[i := Some (cb, user)]\<rparr>)
           | None \<Rightarrow> (-1, t))"

definition timer_get_ticks :: "timer \<Rightarrow> u64" where "timer_get_ticks t = timer_ticks t"

section \<open>Rings as queues\<close>

text \<open>The interface of a lossy byte queue: what is pushed comes out in order, unless the queue was full.\<close>

locale lossy_queue =
  fixes push :: "'b \<Rightarrow> 'q \<Rightarrow> 'q option" and pop :: "'q \<Rightarrow> ('b \<times> 'q) option"
    and contents :: "'q \<Rightarrow> 'b list" and ok :: "'q \<Rightarrow> bool" and cap :: nat
  assumes push_full: "ok q \<Longrightarrow> \<not> length (contents q) < cap \<Longrightarrow> push b q = None"
    and push_room: "ok q \<Longrightarrow> length (contents q) < cap \<Longrightarrow>
      \<exists>q'. push b q = Some q' \<and> ok q' \<and> contents q' = contents q @ [b]"
    and pop_empty: "ok q \<Longrightarrow> contents q = [] \<Longrightarrow> pop q = None"
    and pop_some: "ok q \<Longrightarrow> contents q = c # cs \<Longrightarrow> \<exists>q'. pop q = Some (c, q') \<and> ok q' \<and> contents q' = cs"
begin

fun pushes :: "'b list \<Rightarrow> 'q \<Rightarrow> 'q" where
  "pushes [] q = q"
| "pushes (b # bs) q = pushes bs (case push b q of None \<Rightarrow> q | Some q' \<Rightarrow> q')"

lemma pushes_contents:
  assumes "ok q" "length (contents q) \<le> cap"
  shows "ok (pushes bs q) \<and> contents (pushes bs q) = take cap (contents q @ bs)"
  using assms
proof (induction bs arbitrary: q)
  case (Cons b bs)
  show ?case
  proof (cases "length (contents q) < cap")
    case True
    then obtain q' where q': "push b q = Some q'" "ok q'" "contents q' = contents q @ [b]"
      using push_room Cons.prems by blast
    then show ?thesis using Cons.IH [of q'] True by simp
  next
    case False
    then have "push b q = None" using push_full Cons.prems(1) by simp
    then show ?thesis using Cons.IH [OF Cons.prems] False Cons.prems(2) by simp
  qed
qed simp

lemma pop_contents:
  assumes "ok q"
  shows "pop q = None \<longleftrightarrow> contents q = []"
    "pop q = Some (c, q') \<Longrightarrow> ok q' \<and> contents q = c # contents q'"
  using assms pop_empty pop_some by (cases "contents q"; fastforce)+

end

definition ring_ok :: "u32 \<Rightarrow> ring \<Rightarrow> bool" where
  "ring_ok n r \<longleftrightarrow> 1 < unat n \<and> unat n < 2 ^ 31 \<and> length (rbuf r) = unat n \<and> rhead r < n \<and> rtail r < n"

definition ring_count :: "u32 \<Rightarrow> ring \<Rightarrow> nat" where
  "ring_count n r = (unat (rhead r) + unat n - unat (rtail r)) mod unat n"

definition ring_contents :: "u32 \<Rightarrow> ring \<Rightarrow> u8 list" where
  "ring_contents n r = map (\<lambda>i. rbuf r ! ((unat (rtail r) + i) mod unat n)) [0..<ring_count n r]"

lemma ring_okD:
  assumes "ring_ok n r"
  shows "1 < unat n" "length (rbuf r) = unat n" "unat (rhead r) < unat n" "unat (rtail r) < unat n"
    "unat ((rhead r + 1) mod n) = (unat (rhead r) + 1) mod unat n" "unat ((rtail r + 1) mod n) = (unat (rtail r) + 1) mod unat n"
    "(unat (rtail r) + ring_count n r) mod unat n = unat (rhead r)" "ring_count n r < unat n"
proof -
  have o: "1 < unat n" "unat n < 2 ^ 31" "length (rbuf r) = unat n" "unat (rhead r) < unat n" "unat (rtail r) < unat n"
    using assms by (simp_all add: ring_ok_def word_less_nat_alt)
  show "1 < unat n" "length (rbuf r) = unat n" "unat (rhead r) < unat n" "unat (rtail r) < unat n" using o by simp_all
  have "unat (x + 1) = unat x + 1" if "unat x < unat n" for x :: u32
    using that o(2) by (subst unat_add_no_wrap) simp_all
  then show "unat ((rhead r + 1) mod n) = (unat (rhead r) + 1) mod unat n"
    "unat ((rtail r + 1) mod n) = (unat (rtail r) + 1) mod unat n" using o by (simp_all add: unat_mod)
  have "unat (rtail r) + (unat (rhead r) + unat n - unat (rtail r)) = unat (rhead r) + unat n" using o by linarith
  then show "(unat (rtail r) + ring_count n r) mod unat n = unat (rhead r)"
    unfolding ring_count_def using o by (simp add: mod_add_right_eq)
  show "ring_count n r < unat n" unfolding ring_count_def using o by (intro mod_less_divisor) linarith
qed

lemma ring_count_unique:
  assumes "ring_ok n r" "(unat (rtail r) + k) mod unat n = unat (rhead r)" "k < unat n"
  shows "ring_count n r = k"
proof -
  have "(unat (rtail r) + ring_count n r) mod unat n = (unat (rtail r) + k) mod unat n"
    using ring_okD(7) [OF assms(1)] assms(2) by simp
  then show ?thesis unfolding mod_shift using ring_okD(8) [OF assms(1)] assms(3) by simp
qed

lemma ring_push_spec:
  assumes ok: "ring_ok n r"
  shows "\<not> length (ring_contents n r) < unat n - 1 \<Longrightarrow> ring_push n c r = None"
    "length (ring_contents n r) < unat n - 1 \<Longrightarrow>
      \<exists>r'. ring_push n c r = Some r' \<and> ring_ok n r' \<and> ring_contents n r' = ring_contents n r @ [c]"
proof -
  note D = ring_okD [OF ok]
  let ?t = "unat (rtail r)" and ?k = "ring_count n r" and ?n = "unat n"
  have h: "(unat (rhead r) + 1) mod ?n = (?t + Suc ?k) mod ?n"
    using D(7) by (metis add.assoc add_Suc_right mod_Suc_eq Suc_eq_plus1)
  have full: "(rhead r + 1) mod n = rtail r \<longleftrightarrow> Suc ?k = ?n"
  proof -
    have "(rhead r + 1) mod n = rtail r \<longleftrightarrow> (?t + Suc ?k) mod ?n = (?t + 0) mod ?n"
      using D(4,5) h by (simp add: word_eq_unat)
    also have "\<dots> \<longleftrightarrow> Suc ?k mod ?n = 0" unfolding mod_shift by simp
    also have "\<dots> \<longleftrightarrow> Suc ?k = ?n" using D(1,8) by (metis Suc_lessI mod_less mod_self nat.distinct(1))
    finally show ?thesis .
  qed
  have l: "length (ring_contents n r) = ?k" by (simp add: ring_contents_def)
  show "\<not> length (ring_contents n r) < ?n - 1 \<Longrightarrow> ring_push n c r = None"
    using full D(8) by (simp add: ring_push_def l)
  assume "length (ring_contents n r) < ?n - 1"
  then have k: "Suc ?k < ?n" by (simp add: l)
  define r' where "r' = r\<lparr>rbuf := (rbuf r)[unat (rhead r) := c], rhead := (rhead r + 1) mod n\<rparr>"
  have p: "ring_push n c r = Some r'" using full k by (simp add: ring_push_def r'_def)
  have ok': "ring_ok n r'" using ok D(1,5) by (auto simp: ring_ok_def r'_def word_less_nat_alt)
  have k': "ring_count n r' = Suc ?k"
    by (rule ring_count_unique [OF ok']) (use D(5) h k in \<open>auto simp: r'_def\<close>)
  have e: "rbuf r' ! ((?t + i) mod ?n) = (if i = ?k then c else rbuf r ! ((?t + i) mod ?n))" if "i < Suc ?k" for i
  proof -
    have "(?t + i) mod ?n = unat (rhead r) \<longleftrightarrow> (?t + i) mod ?n = (?t + ?k) mod ?n" using D(7) by simp
    also have "\<dots> \<longleftrightarrow> i = ?k" unfolding mod_shift using that k by simp
    finally show ?thesis using D(2,3) by (auto simp: r'_def nth_list_update)
  qed
  have t: "rtail r' = rtail r" by (simp add: r'_def)
  have "ring_contents n r' = ring_contents n r @ [c]"
    unfolding ring_contents_def k' t using e by (simp add: upt_Suc_append del: upt_Suc)
  with p ok' show "\<exists>r'. ring_push n c r = Some r' \<and> ring_ok n r' \<and> ring_contents n r' = ring_contents n r @ [c]" by blast
qed

lemma ring_pop_spec:
  assumes ok: "ring_ok n r"
  shows "ring_contents n r = [] \<Longrightarrow> ring_pop n r = None"
    "ring_contents n r = c # cs \<Longrightarrow> \<exists>r'. ring_pop n r = Some (c, r') \<and> ring_ok n r' \<and> ring_contents n r' = cs"
proof -
  note D = ring_okD [OF ok]
  let ?t = "unat (rtail r)" and ?k = "ring_count n r" and ?n = "unat n"
  have z: "rtail r = rhead r \<longleftrightarrow> ?k = 0"
  proof -
    have "rtail r = rhead r \<longleftrightarrow> (?t + ?k) mod ?n = (?t + 0) mod ?n" using D(4,7) by (auto simp: word_eq_unat)
    also have "\<dots> \<longleftrightarrow> ?k = 0" unfolding mod_shift using D(8) by simp
    finally show ?thesis .
  qed
  show "ring_contents n r = [] \<Longrightarrow> ring_pop n r = None" using z by (simp add: ring_contents_def ring_pop_def)
  assume c: "ring_contents n r = c # cs"
  then have k: "0 < ?k" by (cases ?k) (auto simp: ring_contents_def)
  define r' where "r' = r\<lparr>rtail := (rtail r + 1) mod n\<rparr>"
  have t': "unat (rtail r') = Suc ?t mod ?n" using D(6) by (simp add: r'_def)
  have ok': "ring_ok n r'" using ok D(1,6) by (auto simp: ring_ok_def r'_def word_less_nat_alt)
  have sh: "(Suc ?t mod ?n + i) mod ?n = (?t + Suc i) mod ?n" for i by (simp add: mod_add_left_eq)
  have k': "ring_count n r' = ?k - 1"
    by (rule ring_count_unique [OF ok']) (use D(7,8) sh [of "?k - 1"] k t' in \<open>auto simp: r'_def\<close>)
  have "[0..<?k] = 0 # map Suc [0..<?k - 1]" using k by (cases ?k) (simp_all add: upt_conv_Cons map_Suc_upt del: upt_Suc)
  then have "ring_contents n r = (rbuf r ! (?t mod ?n)) # ring_contents n r'"
    unfolding ring_contents_def k' t' sh by (simp add: r'_def comp_def)
  with c D(4) have "c = rbuf r ! ?t" "cs = ring_contents n r'" by simp_all
  moreover have "ring_pop n r = Some (rbuf r ! ?t, r')" using z k by (simp add: ring_pop_def r'_def)
  ultimately show "\<exists>r'. ring_pop n r = Some (c, r') \<and> ring_ok n r' \<and> ring_contents n r' = cs" using ok' by blast
qed

interpretation kbq: lossy_queue "ring_push KB_BUF_SIZE" "ring_pop KB_BUF_SIZE" "ring_contents KB_BUF_SIZE" "ring_ok KB_BUF_SIZE" 63
  using ring_push_spec [of KB_BUF_SIZE] ring_pop_spec [of KB_BUF_SIZE] by unfold_locales (simp_all add: KB_BUF_SIZE_def)

interpretation comq: lossy_queue "ring_push COM_BUF_SIZE" "ring_pop COM_BUF_SIZE" "ring_contents COM_BUF_SIZE" "ring_ok COM_BUF_SIZE" 127
  using ring_push_spec [of COM_BUF_SIZE] ring_pop_spec [of COM_BUF_SIZE] by unfold_locales (simp_all add: COM_BUF_SIZE_def)

section \<open>Line editing\<close>

text \<open>The reference: a line is edited character by character, backspace removes the last one, a newline or a
  full buffer completes it. Scan codes become characters under a running shift state.\<close>

fun line_edit :: "nat \<Rightarrow> u8 list \<Rightarrow> u8 list \<Rightarrow> u8 list \<times> bool" where
  "line_edit n buf [] = (buf, \<not> length buf < n)"
| "line_edit n buf (c # cs) =
     (if \<not> length buf < n then (buf, True)
      else if c = 8 then line_edit n (butlast buf) cs
      else if c = 10 then (buf @ [c], True)
      else line_edit n (buf @ [c]) cs)"

fun decode :: "bool \<Rightarrow> u8 list \<Rightarrow> u8 list" where
  "decode sh [] = []"
| "decode sh (k # ks) =
     (case scancode_to_char k sh of (sh', None) \<Rightarrow> decode sh' ks | (sh', Some c) \<Rightarrow> c # decode sh' ks)"

definition cr_to_lf :: "u8 \<Rightarrow> u8" where "cr_to_lf c = (if c = 13 then 10 else c)"

definition typed :: "tty \<Rightarrow> u8 list" where
  "typed t = map cr_to_lf (ring_contents COM_BUF_SIZE (com (inq t))) @
     decode (shift_state t) (ring_contents KB_BUF_SIZE (kb (inq t)))"

definition tty_ok :: "tty \<Rightarrow> bool" where
  "tty_ok t \<longleftrightarrow> ring_ok COM_BUF_SIZE (com (inq t)) \<and> ring_ok KB_BUF_SIZE (kb (inq t))"

text \<open>The buffer after a character.\<close>

definition line_char :: "u8 \<Rightarrow> u8 list \<Rightarrow> u8 list" where
  "line_char c buf = (if c = 8 then butlast buf else buf @ [c])"

definition old_char :: "u8 \<Rightarrow> u8 list \<Rightarrow> u8 list \<Rightarrow> u8 list" where
  "old_char c buf old = (if c = 8 then if buf = [] then old else last buf # old else tl old)"

lemma tty_char_spec:
  "tty_char c buf old t = (line_char c buf, old_char c buf old, c = 10, snd (snd (snd (tty_char c buf old t))))"
  "inq (snd (snd (snd (tty_char c buf old t)))) = inq t" "shift_state (snd (snd (snd (tty_char c buf old t)))) = shift_state t"
  by (auto simp: tty_char_def tty_write_def line_char_def old_char_def)

lemma char_lengths:
  assumes "length buf < n" "length buf + length old \<le> n"
  shows "length (line_char c buf) + length (old_char c buf old) \<le> n"
  using assms by (cases old; cases buf rule: rev_cases) (auto simp: line_char_def old_char_def)

lemma line_edit_full: "\<not> length buf < n \<Longrightarrow> line_edit n buf cs = (buf, True)"
  by (cases cs) auto

text \<open>What the loop has to deliver for a buffer and the characters to come.\<close>

definition delivers :: "u64 \<Rightarrow> u8 list \<Rightarrow> u8 list \<Rightarrow> (u8 list \<times> u8 list \<times> bool \<times> tty) option \<Rightarrow> bool" where
  "delivers len buf cs r \<longleftrightarrow> (\<exists>old' t'. r = Some (fst (line_edit (unat len) buf cs), old', snd (line_edit (unat len) buf cs), t') \<and>
     length (fst (line_edit (unat len) buf cs)) + length old' \<le> unat len)"

text \<open>One character of the loop against one character of the reference.\<close>

lemma tty_char_step:
  assumes lt: "length buf < unat len" and le: "length buf + length old \<le> unat len"
    and go: "delivers len (line_char c buf) cs (tty_loop len (line_char c buf) (old_char c buf old) (snd (snd (snd (tty_char c buf old t)))))"
  shows "delivers len buf (c # cs) (case tty_char c buf old t of (buf', old', fin, t') \<Rightarrow>
    if fin then Some (buf', old', True, t') else tty_loop len buf' old' t')"
proof (cases "c = 10")
  case True
  then show ?thesis using lt char_lengths [OF lt le, of c]
    by (subst tty_char_spec) (simp add: delivers_def line_char_def)
next
  case False
  then show ?thesis using go lt by (subst tty_char_spec) (simp add: delivers_def line_char_def split: if_splits)
qed

lemma tty_loop_edits:
  assumes "tty_ok t" "length buf + length old \<le> unat len"
  shows "delivers len buf (typed t) (tty_loop len buf old t)"
  using assms
proof (induction "length (ring_contents COM_BUF_SIZE (com (inq t))) + length (ring_contents KB_BUF_SIZE (kb (inq t)))"
    arbitrary: t buf old rule: less_induct)
  case less
  have o: "ring_ok COM_BUF_SIZE (com (inq t))" "ring_ok KB_BUF_SIZE (kb (inq t))" using less.prems by (simp_all add: tty_ok_def)
  let ?cs = "ring_contents COM_BUF_SIZE (com (inq t))" and ?ks = "ring_contents KB_BUF_SIZE (kb (inq t))"
  have "length buf < 2 ^ 64" using less.prems(2) unat_lt_64 [of len] by simp
  then have u: "of_nat (length buf) < len \<longleftrightarrow> length buf < unat len"
    by (simp add: word_less_nat_alt unat_of_nat_small)
  show ?case
  proof (cases "length buf < unat len")
    case False
    then show ?thesis using u less.prems(2) by (subst tty_loop.simps) (simp add: line_edit_full delivers_def)
  next
    case lt: True
    note len' = char_lengths [OF lt less.prems(2)]
    note step = tty_char_step [OF lt less.prems(2)]
    show ?thesis
    proof (cases ?cs)
      case (Cons c cs)
      obtain r where r: "ring_pop COM_BUF_SIZE (com (inq t)) = Some (c, r)" "ring_ok COM_BUF_SIZE r" "ring_contents COM_BUF_SIZE r = cs"
        using comq.pop_some [OF o(1) Cons] by blast
      let ?t1 = "t\<lparr>inq := (inq t)\<lparr>com := r\<rparr>\<rparr>" and ?c = "cr_to_lf c"
      have ty: "typed t = ?c # typed ?t1" using Cons r by (simp add: typed_def)
      have "delivers len (line_char ?c buf) (typed ?t1)
          (tty_loop len (line_char ?c buf) (old_char ?c buf old) (snd (snd (snd (tty_char ?c buf old ?t1)))))"
        using less.hyps [of "snd (snd (snd (tty_char ?c buf old ?t1)))", OF _ _ len' [of ?c]] Cons r o(2)
        by (simp add: tty_char_spec(2,3) typed_def tty_ok_def)
      from step [OF this] show ?thesis unfolding ty
        using lt u by (subst tty_loop.simps) (simp add: irq_com_pop_def r(1) cr_to_lf_def [symmetric])
    next
      case Nil
      have np: "irq_com_pop (inq t) = None" using comq.pop_empty [OF o(1) Nil] by (simp add: irq_com_pop_def)
      show ?thesis
      proof (cases ?ks)
        case nk: Nil
        then have "irq_kb_pop (inq t) = None" using kbq.pop_empty [OF o(2)] by (simp add: irq_kb_pop_def)
        then show ?thesis using lt u np Nil nk less.prems(2) by (subst tty_loop.simps) (simp add: typed_def delivers_def)
      next
        case (Cons k ks)
        obtain r where r: "ring_pop KB_BUF_SIZE (kb (inq t)) = Some (k, r)" "ring_ok KB_BUF_SIZE r" "ring_contents KB_BUF_SIZE r = ks"
          using kbq.pop_some [OF o(2) Cons] by blast
        obtain sh oc where sc: "scancode_to_char k (shift_state t) = (sh, oc)" by fastforce
        let ?t1 = "t\<lparr>inq := (inq t)\<lparr>kb := r\<rparr>, shift_state := sh\<rparr>"
        have kp: "irq_kb_pop (inq t) = Some (k, (inq t)\<lparr>kb := r\<rparr>)" by (simp add: irq_kb_pop_def r(1))
        have ok1: "tty_ok ?t1" using o r by (simp add: tty_ok_def)
        show ?thesis
        proof (cases oc)
          case None
          have ty: "typed t = typed ?t1" using Nil Cons r sc None by (simp add: typed_def)
          show ?thesis unfolding ty using less.hyps [of ?t1 buf] Nil Cons r ok1 less.prems(2) lt u np kp sc None
            by (subst tty_loop.simps) simp
        next
          case (Some c)
          have ty: "typed t = c # typed ?t1" using Nil Cons r sc Some by (simp add: typed_def)
          have "delivers len (line_char c buf) (typed ?t1)
              (tty_loop len (line_char c buf) (old_char c buf old) (snd (snd (snd (tty_char c buf old ?t1)))))"
            using less.hyps [of "snd (snd (snd (tty_char c buf old ?t1)))", OF _ _ len' [of c]] Nil Cons r o
            by (simp add: tty_char_spec(2,3) typed_def tty_ok_def)
          from step [OF this] show ?thesis unfolding ty
            using lt u np kp sc Some by (subst tty_loop.simps) simp
        qed
      qed
    qed
  qed
qed

lemma tty_read_edits:
  assumes "tty_ok t"
  shows "\<exists>old t'. tty_read len t = Ret (fst (line_edit (unat len) [] (typed t)), old, snd (line_edit (unat len) [] (typed t)), t') \<and>
    length (fst (line_edit (unat len) [] (typed t))) + length old \<le> unat len"
  using tty_loop_edits [OF assms, of "[]" "[]" len] line_edit_full [of "[]" 0 "typed t"]
  by (auto simp: tty_read_def delivers_def)

lemma tty_resume_edits:
  assumes "tty_ok t" "length buf + length old \<le> unat len"
  shows "\<exists>old' t'. tty_resume len buf old t =
      Ret (fst (line_edit (unat len) buf (typed t)), old', snd (line_edit (unat len) buf (typed t)), t') \<and>
    length (fst (line_edit (unat len) buf (typed t))) + length old' \<le> unat len"
  using tty_loop_edits [OF assms] by (auto simp: tty_resume_def delivers_def)

text \<open>(C19) Reading from the terminal edits a line. A call takes the characters waiting in the serial ring
  and then those decoded from the keyboard ring, applies backspaces, stops at a newline or when the buffer is
  full. Neither the line nor what backspaces leave above it goes past the length asked for. The part of the call up to the next sleep always ends; the
  flag says whether the line is complete.\<close>

theorem tty_read_edits_line:
  assumes "tty_ok t"
  shows "\<exists>old t'. tty_read len t = Ret (fst (line_edit (unat len) [] (typed t)), old, snd (line_edit (unat len) [] (typed t)), t') \<and>
    length (fst (line_edit (unat len) [] (typed t))) + length old \<le> unat len"
  by (rule tty_read_edits [OF assms])

text \<open>Interrupts that arrive one after the other: scan codes and serial bytes.\<close>

fun irq_events :: "(u8 + u8) list \<Rightarrow> irq \<Rightarrow> 'h sched \<Rightarrow> irq \<times> 'h sched" where
  "irq_events [] q s = (q, s)"
| "irq_events (Inl sc # es) q s = (case kb_push sc q s of (q', s') \<Rightarrow> irq_events es q' s')"
| "irq_events (Inr ch # es) q s = (case irq_com_push ch q s of (q', s') \<Rightarrow> irq_events es q' s')"

definition lefts :: "('a + 'b) list \<Rightarrow> 'a list" where "lefts es = List.map_filter (\<lambda>e. case e of Inl a \<Rightarrow> Some a | Inr _ \<Rightarrow> None) es"
definition rights :: "('a + 'b) list \<Rightarrow> 'b list" where "rights es = List.map_filter (\<lambda>e. case e of Inl _ \<Rightarrow> None | Inr b \<Rightarrow> Some b) es"

lemma lefts_rights_simps [simp]:
  "lefts [] = []" "lefts (Inl a # es) = a # lefts es" "lefts (Inr b # es) = lefts es"
  "rights [] = []" "rights (Inl a # es) = rights es" "rights (Inr b # es) = b # rights es"
  by (simp_all add: lefts_def rights_def List.map_filter_def)

lemma irq_wake_rings [simp]: "kb (fst (irq_wake q s)) = kb q" "com (fst (irq_wake q s)) = com q"
  by (simp_all add: irq_wake_def ensure_wq_init_def Let_def split: prod.splits)

lemma push_rings:
  "kb (fst (kb_push sc q s)) = (case ring_push KB_BUF_SIZE sc (kb q) of None \<Rightarrow> kb q | Some r \<Rightarrow> r)"
  "com (fst (kb_push sc q s)) = com q"
  "com (fst (irq_com_push ch q s)) = (case ring_push COM_BUF_SIZE ch (com q) of None \<Rightarrow> com q | Some r \<Rightarrow> r)"
  "kb (fst (irq_com_push ch q s)) = kb q"
  by (auto simp: kb_push_def irq_com_push_def split: option.splits)

lemma irq_events_rings:
  "kb (fst (irq_events es q s)) = kbq.pushes (lefts es) (kb q) \<and> com (fst (irq_events es q s)) = comq.pushes (rights es) (com q)"
proof (induction es q s rule: irq_events.induct)
  case (2 sc es q s)
  then show ?case using push_rings(1,2) [of sc q s] by (cases "kb_push sc q s") simp
next
  case (3 ch es q s)
  then show ?case using push_rings(3,4) [of ch q s] by (cases "irq_com_push ch q s") simp
qed simp

text \<open>(C36) Input interrupts fill two bounded queues. Whatever the order in which keyboard and serial
  interrupts arrive, each ring holds what it held followed by its new bytes in order of arrival; only bytes that
  find their ring full, at 63 scan codes or 127 serial bytes, are dropped.\<close>

theorem irq_events_queue:
  assumes "ring_ok KB_BUF_SIZE (kb q)" "ring_ok COM_BUF_SIZE (com q)"
  shows "ring_contents KB_BUF_SIZE (kb (fst (irq_events es q s))) = take 63 (ring_contents KB_BUF_SIZE (kb q) @ lefts es) \<and>
    ring_contents COM_BUF_SIZE (com (fst (irq_events es q s))) = take 127 (ring_contents COM_BUF_SIZE (com q) @ rights es)"
proof -
  have "length (ring_contents n r) \<le> unat n - 1" if "ring_ok n r" for n r
    using ring_okD(8) [OF that] by (simp add: ring_contents_def)
  from this [OF assms(1)] this [OF assms(2)] show ?thesis
    using kbq.pushes_contents [OF assms(1)] comq.pushes_contents [OF assms(2)]
    by (simp add: irq_events_rings KB_BUF_SIZE_def COM_BUF_SIZE_def)
qed

lemma irq_start_ok: "ring_ok KB_BUF_SIZE (kb irq_start)" "ring_ok COM_BUF_SIZE (com irq_start)"
  "ring_contents KB_BUF_SIZE (kb irq_start) = []" "ring_contents COM_BUF_SIZE (com irq_start) = []"
  by (simp_all add: ring_ok_def irq_start_def KB_BUF_SIZE_def COM_BUF_SIZE_def ring_contents_def ring_count_def)

theorem irq_events_queue_witness:
  "ring_contents KB_BUF_SIZE (kb (fst (irq_events [Inl 0x23, Inr 97, Inl 0x17] irq_start demo_sched))) = [0x23, 0x17] \<and>
   ring_contents COM_BUF_SIZE (com (fst (irq_events [Inl 0x23, Inr 97, Inl 0x17] irq_start demo_sched))) = [97]"
  using irq_events_queue [OF irq_start_ok(1,2), of "[Inl 0x23, Inr 97, Inl 0x17]" demo_sched] by (simp add: irq_start_ok)

text \<open>Typing h, x, backspace, i, return.\<close>

lemma tty_typing: "\<exists>t. tty_ok t \<and> typed t = [104, 120, 8, 105, 10]"
proof -
  let ?es = "map Inl [0x23, 0x2D, 0x0E, 0x17, 0x1C] :: (u8 + u8) list"
  define q where "q = fst (irq_events ?es irq_start demo_sched)"
  define t where "t = \<lparr>inq = q, shift_state = False, echo = []\<rparr>"
  have k: "kb q = kbq.pushes (lefts ?es) (kb irq_start)" "com q = com irq_start"
    using irq_events_rings [of ?es irq_start demo_sched] by (simp_all add: q_def)
  have ks: "ring_ok KB_BUF_SIZE (kb q)" "ring_contents KB_BUF_SIZE (kb q) = [0x23, 0x2D, 0x0E, 0x17, 0x1C]"
    unfolding k(1) using kbq.pushes_contents [OF irq_start_ok(1), of "lefts ?es"] by (simp_all add: irq_start_ok)
  have ok: "tty_ok t" using ks(1) k(2) irq_start_ok(2) by (simp add: tty_ok_def t_def)
  have d: "decode False [0x23, 0x2D, 0x0E, 0x17, 0x1C] = [104, 120, 8, 105, 10]" by code_simp
  have ty: "typed t = [104, 120, 8, 105, 10]" using ks(2) k(2) irq_start_ok(4) d by (simp add: typed_def t_def)
  show ?thesis using ok ty by blast
qed

theorem tty_read_edits_line_witness:
  "\<exists>t. tty_ok t \<and> typed t = [104, 120, 8, 105, 10] \<and> (\<exists>old t'. tty_read 16 t = Ret ([104, 105, 10], old, True, t'))"
proof -
  obtain t where t: "tty_ok t" "typed t = [104, 120, 8, 105, 10]" using tty_typing by blast
  show ?thesis using tty_read_edits_line [OF t(1), of 16] t by (intro exI [of _ t]) auto
qed

end
