(* ===== verification/User_Mem.thy ===== *)
theory User_Mem
  imports Mmu Kernel_Base
begin

text \<open>
  The border between the kernel and user memory: the checks of user pointers of kernel/syscall.c and the
  page faults of user code of kernel/arch/x86_64/idt.c. Page tables are reached by their physical addresses
  as in the theory of the page tables. The bytes of the current address space as the processor sees them
  are a function of the virtual address.
\<close>

section \<open>Layout of user space\<close>

definition USER_BASE :: u64 where "USER_BASE = 0x400000"
definition USER_STACK_TOP :: u64 where "USER_STACK_TOP = 0x7FFFFFF000"
definition USER_STACK_MAX_PAGES :: u64 where "USER_STACK_MAX_PAGES = 4"
definition USER_STACK_GUARD_PAGES :: u64 where "USER_STACK_GUARD_PAGES = 4"
definition USER_ARG_MAX :: nat where "USER_ARG_MAX = 8"
definition USER_ENV_MAX :: nat where "USER_ENV_MAX = 8"
definition USER_PATH_MAX :: nat where "USER_PATH_MAX = 64"
definition USER_STR_MAX :: nat where "USER_STR_MAX = 64"

lemmas user_layout = USER_BASE_def USER_STACK_TOP_def USER_STACK_MAX_PAGES_def USER_STACK_GUARD_PAGES_def

section \<open>Checking user pointers\<close>

definition user_bits :: "u64 \<Rightarrow> bool" where
  "user_bits e \<longleftrightarrow> e AND PTE_PRESENT \<noteq> 0 \<and> e AND PTE_USER \<noteq> 0"

definition user_page_present :: "pmm \<Rightarrow> u64 \<Rightarrow> u64 \<Rightarrow> bool" where
  "user_page_present s pml4_phys virt =
     (if pml4_phys = 0 then False
      else let pml4e = get_entry s pml4_phys (pml4_index virt)
      in if \<not> user_bits pml4e then False
      else let pdpte = get_entry s (page_of pml4e) (pdpt_index virt)
      in if \<not> user_bits pdpte then False
      else if pdpte AND PTE_PS \<noteq> 0 then True
      else let pde = get_entry s (page_of pdpte) (pd_index virt)
      in if \<not> user_bits pde then False
      else if pde AND PTE_PS \<noteq> 0 then True
      else user_bits (get_entry s (page_of pde) (pt_index virt)))"

text \<open>The loop over the pages of the range; every round goes to a higher address or leaves.\<close>

function check_pages :: "pmm \<Rightarrow> u64 \<Rightarrow> u64 \<Rightarrow> u64 \<Rightarrow> bool" where
  "check_pages s pml4_phys addr endp =
     (if addr < endp
      then if \<not> user_page_present s pml4_phys addr then False
           else let nxt = (addr AND NOT 0xFFF) + 0x1000
                in if nxt \<le> addr then False else check_pages s pml4_phys nxt endp
      else True)"
  by pat_completeness auto
termination
proof (relation "measure (\<lambda>(s, r, addr, endp). 2 ^ 64 - unat addr)")
  fix s :: pmm and r addr endp nxt :: u64
  assume "nxt = (addr AND NOT 0xFFF) + 0x1000" "\<not> nxt \<le> addr"
  then have "unat addr < unat nxt" by (simp add: word_less_nat_alt word_le_nat_alt)
  then show "((s, r, nxt, endp), (s, r, addr, endp)) \<in> measure (\<lambda>(s, r, addr, endp). 2 ^ 64 - unat addr)"
    using unat_lt_64 [of nxt] by simp
qed simp

declare check_pages.simps [simp del]

definition user_ptr_range :: "pmm \<Rightarrow> u64 \<Rightarrow> u64 \<Rightarrow> u64 \<Rightarrow> bool" where
  "user_ptr_range s pml4_phys ptr len =
     (if len = 0 then False
      else if ptr < USER_BASE then False
      else if ptr + len < ptr then False
      else if ptr + len > USER_STACK_TOP then False
      else check_pages s pml4_phys ptr (ptr + len))"

text \<open>Strings from user memory: at most \<open>dst_len - 1\<close> characters, each checked before it is read.\<close>

fun str_copy_loop :: "pmm \<Rightarrow> u64 \<Rightarrow> (u64 \<Rightarrow> u8) \<Rightarrow> u64 \<Rightarrow> nat \<Rightarrow> string option" where
  "str_copy_loop s r um addr 0 = None"
| "str_copy_loop s r um addr (Suc n) =
     (if \<not> user_ptr_range s r addr 1 then None
      else if um addr = 0 then Some []
      else map_option (\<lambda>cs. char_of (unat (um addr)) # cs) (str_copy_loop s r um (addr + 1) n))"

definition user_str_copy :: "pmm \<Rightarrow> u64 \<Rightarrow> (u64 \<Rightarrow> u8) \<Rightarrow> u64 \<Rightarrow> nat \<Rightarrow> string option" where
  "user_str_copy s r um user dst_len =
     (if user = 0 \<or> dst_len = 0 then None else str_copy_loop s r um user (dst_len - 1))"

text \<open>Vectors of strings; a vector of \<open>max\<close> or more strings is refused.\<close>

fun vec_copy_loop :: "pmm \<Rightarrow> u64 \<Rightarrow> (u64 \<Rightarrow> u8) \<Rightarrow> u64 \<Rightarrow> nat \<Rightarrow> string list option" where
  "vec_copy_loop s r um addr 0 = None"
| "vec_copy_loop s r um addr (Suc n) =
     (if \<not> user_ptr_range s r addr 8 then None
      else let ptr = rd64 um addr
      in if ptr = 0 then Some []
      else case user_str_copy s r um ptr USER_STR_MAX of
             None \<Rightarrow> None
           | Some str \<Rightarrow> map_option (\<lambda>v. str # v) (vec_copy_loop s r um (addr + 8) n))"

definition user_vec_copy :: "pmm \<Rightarrow> u64 \<Rightarrow> (u64 \<Rightarrow> u8) \<Rightarrow> u64 \<Rightarrow> nat \<Rightarrow> string list option" where
  "user_vec_copy s r um user_vec maxn = (if user_vec = 0 then Some [] else vec_copy_loop s r um user_vec maxn)"

section \<open>Page faults of user code\<close>

text \<open>An access of the kernel to a page through its direct-map address traps when that address is not
  canonical.\<close>

definition canonical :: "u64 \<Rightarrow> bool" where
  "canonical a \<longleftrightarrow> drop_bit 47 a = 0 \<or> drop_bit 47 a = 0x1FFFF"

definition pte_lookup :: "pmm \<Rightarrow> u64 \<Rightarrow> u64 \<Rightarrow> (u64 \<times> u64) option" where
  "pte_lookup s pml4_phys virt =
     (let pml4e = get_entry s pml4_phys (pml4_index virt)
      in if pml4e AND PTE_PRESENT = 0 then None
      else let pdpte = get_entry s (page_of pml4e) (pdpt_index virt)
      in if pdpte AND PTE_PRESENT = 0 \<or> pdpte AND PTE_PS \<noteq> 0 then None
      else let pde = get_entry s (page_of pdpte) (pd_index virt)
      in if pde AND PTE_PRESENT = 0 \<or> pde AND PTE_PS \<noteq> 0 then None
      else Some (page_of pde, pt_index virt))"

definition copy_page :: "u64 \<Rightarrow> u64 \<Rightarrow> pmm \<Rightarrow> pmm" where
  "copy_page dst src s = s\<lparr>pmem := wr_bytes (pmem s) dst (rd_bytes (pmem s) src 4096)\<rparr>"

definition handle_user_cow_fault :: "u64 \<Rightarrow> u64 \<Rightarrow> pmm \<Rightarrow> (bool \<times> pmm) run" where
  "handle_user_cow_fault aspace page s =
     (case pte_lookup s aspace page of
        None \<Rightarrow> Ret (False, s)
      | Some (pt, i) \<Rightarrow>
          (let entry = get_entry s pt i
           in if entry AND PTE_PRESENT = 0 \<or> entry AND PTE_COW = 0 then Ret (False, s)
           else let old_phys = entry AND NOT 0xFFF
           in bind_run (pmm_alloc_page s) (\<lambda>(new_phys, s1).
                if new_phys = 0 then Ret (False, s1)
                else if \<not> canonical (phys_to_hhdm new_phys) \<or> \<not> canonical (phys_to_hhdm old_phys)
                then Panic ''isr_general_protection'' 0
                else let flags = ((entry AND 0xFFF) OR PTE_RW) AND NOT PTE_COW
                in Ret (True, set_entry pt i ((new_phys AND NOT 0xFFF) OR flags OR (entry AND PTE_NX))
                         (copy_page new_phys old_phys s1)))))"

text \<open>The page of zeros is allocated on first use and kept: \<open>zero_phys\<close>.\<close>

definition get_zero_page :: "u64 \<Rightarrow> pmm \<Rightarrow> (u64 \<times> u64 \<times> pmm) run" where
  "get_zero_page zero_phys s =
     (if zero_phys \<noteq> 0 then Ret (zero_phys, zero_phys, s)
      else bind_run (pmm_alloc_page s) (\<lambda>(phys, s1).
        if phys = 0 then Ret (0, 0, s1)
        else Ret (phys, phys, s1\<lparr>pmem := zero_bytes (pmem s1) phys 4096\<rparr>)))"

definition stack_low :: u64 where "stack_low = USER_STACK_TOP - USER_STACK_MAX_PAGES * 4096"

definition handle_user_page_fault :: "u64 \<Rightarrow> u64 \<Rightarrow> u64 \<Rightarrow> u64 \<Rightarrow> u64 \<Rightarrow> pmm \<Rightarrow> (bool \<times> u64 \<times> pmm) run" where
  "handle_user_page_fault aspace cr2 err rsp zero_phys s =
     (let page = cr2 AND NOT 0xFFF
      in if aspace = 0 then Ret (False, zero_phys, s)
      else if err AND 1 \<noteq> 0
      then if err AND 2 \<noteq> 0
           then bind_run (handle_user_cow_fault aspace page s) (\<lambda>(ok, s1). Ret (ok, zero_phys, s1))
           else Ret (False, zero_phys, s)
      else if page < stack_low \<or> page \<ge> USER_STACK_TOP then Ret (False, zero_phys, s)
      else if rsp < stack_low \<or> rsp \<ge> USER_STACK_TOP then Ret (False, zero_phys, s)
      else let guard = USER_STACK_GUARD_PAGES * 4096;
               low = (if rsp > guard then rsp - guard else stack_low);
               low = (if low < stack_low then stack_low else low)
      in if page < low then Ret (False, zero_phys, s)
      else bind_run (get_zero_page zero_phys s) (\<lambda>(phys, z, s1).
        if phys = 0 then Ret (False, z, s1)
        else bind_run (mmu_map_page_in aspace page phys (MMU_FLAG_USER OR MMU_FLAG_NOEXEC OR MMU_FLAG_COW) s1)
          (\<lambda>(r, s2). Ret (r = 0, z, s2))))"

section \<open>What an accepted pointer guarantees\<close>

lemma page_mask: "(0xFFF :: u64) = mask 12"
  by (simp add: mask_eq_exp_minus_1)

lemma unat_page: "unat (a AND NOT 0xFFF :: u64) = unat a div 4096 * 4096"
  unfolding page_mask by (simp add: unat_and_not_mask)

lemma unat_page_minus: "unat (a AND - 4096 :: u64) = unat a div 4096 * 4096"
  using unat_page [of a] by simp

lemma index_page:
  fixes a b :: u64
  assumes "unat a div 4096 = unat b div 4096"
  shows "pml4_index a = pml4_index b" "pdpt_index a = pdpt_index b" "pd_index a = pd_index b" "pt_index a = pt_index b"
proof -
  have e: "drop_bit 12 a = drop_bit 12 b"
    using assms by (simp add: word_eq_unat drop_bit_eq_div unat_div)
  have d: "drop_bit (12 + k) a = drop_bit (12 + k) b" for k
    using arg_cong [OF e, of "drop_bit k"] by (simp add: add.commute)
  show "pml4_index a = pml4_index b" using d [of 27] by (simp add: pml4_index_def)
  show "pdpt_index a = pdpt_index b" using d [of 18] by (simp add: pdpt_index_def)
  show "pd_index a = pd_index b" using d [of 9] by (simp add: pd_index_def)
  show "pt_index a = pt_index b" using e by (simp add: pt_index_def)
qed

lemma user_page_present_page:
  "unat a div 4096 = unat b div 4096 \<Longrightarrow> user_page_present s r a = user_page_present s r b"
  by (simp only: user_page_present_def index_page [of a b])

lemma check_pages_iff:
  assumes "unat endp \<le> unat USER_STACK_TOP"
  shows "check_pages s r addr endp \<longleftrightarrow> (\<forall>a. addr \<le> a \<and> a < endp \<longrightarrow> user_page_present s r a)"
  using assms
proof (induction s r addr endp rule: check_pages.induct)
  case (1 s r addr endp)
  have top: "unat endp \<le> 0x7FFFFFF000" using "1.prems" by (simp add: USER_STACK_TOP_def)
  let ?nxt = "(addr AND NOT 0xFFF) + 0x1000"
  show ?case
  proof (cases "addr < endp \<and> user_page_present s r addr")
    case False
    then show ?thesis by (subst check_pages.simps) (auto simp: not_less)
  next
    case True
    have la: "unat addr < unat endp" using True by (simp add: word_less_nat_alt)
    have "unat addr div 4096 * 4096 \<le> unat addr" by simp
    then have n: "unat ?nxt = unat addr div 4096 * 4096 + 4096"
      using la top by (subst unat_add_no_wrap) (simp_all add: unat_page_minus)
    have gt: "unat addr < unat ?nxt" unfolding n by (simp add: dividend_less_div_times)
    then have ng: "\<not> ?nxt \<le> addr" by (simp add: word_le_nat_alt)
    have pg: "user_page_present s r a" if "addr \<le> a" "\<not> ?nxt \<le> a" for a
    proof -
      have "unat addr \<le> unat a" "unat a < unat addr div 4096 * 4096 + 4096"
        using that n by (simp_all add: word_le_nat_alt)
      then have "unat a div 4096 = unat addr div 4096" by linarith
      then show ?thesis using True user_page_present_page by blast
    qed
    have up: "addr \<le> a" if "?nxt \<le> a" for a using that gt by (simp add: word_le_nat_alt)
    have "check_pages s r addr endp = check_pages s r ?nxt endp"
      using True ng by (subst check_pages.simps) (simp add: Let_def)
    also have "\<dots> \<longleftrightarrow> (\<forall>a. ?nxt \<le> a \<and> a < endp \<longrightarrow> user_page_present s r a)"
      using "1.IH" [OF _ _ refl ng "1.prems"] True by blast
    also have "\<dots> \<longleftrightarrow> (\<forall>a. addr \<le> a \<and> a < endp \<longrightarrow> user_page_present s r a)" using pg up by blast
    finally show ?thesis .
  qed
qed

text \<open>For the examples: a root table with one user page at the base of user space, and a second page that
  is a grown stack page.\<close>

definition user_demo :: pmm where
  "user_demo = set_entry 0x200000 0 0x201007 (set_entry 0x201000 0 0x202007
     (set_entry 0x202000 2 0x203007 (set_entry 0x203000 0 0x300007
     (set_entry 0x203000 1 0x8000000000301205 pmm_demo))))"

lemma user_demo_entries:
  "get_entry user_demo 0x200000 0 = 0x201007" "get_entry user_demo 0x201000 0 = 0x202007"
  "get_entry user_demo 0x202000 2 = 0x203007" "get_entry user_demo 0x203000 0 = 0x300007"
  "get_entry user_demo 0x203000 1 = 0x8000000000301205"
proof -
  have t: "tbl 0x200000" "tbl 0x201000" "tbl 0x202000" "tbl 0x203000" by (simp_all add: tbl_def)
  show "get_entry user_demo 0x200000 0 = 0x201007" "get_entry user_demo 0x201000 0 = 0x202007"
    "get_entry user_demo 0x202000 2 = 0x203007" "get_entry user_demo 0x203000 0 = 0x300007"
    "get_entry user_demo 0x203000 1 = 0x8000000000301205"
    by (simp_all add: user_demo_def get_set_entry t)
qed

lemma user_ptr_range_char:
  "user_ptr_range s r ptr len \<longleftrightarrow>
     len \<noteq> 0 \<and> USER_BASE \<le> ptr \<and> unat ptr + unat len \<le> unat USER_STACK_TOP \<and>
     (\<forall>a. ptr \<le> a \<and> unat a < unat ptr + unat len \<longrightarrow> user_page_present s r a)"
proof -
  have top: "unat USER_STACK_TOP = 0x7FFFFFF000" by (simp add: USER_STACK_TOP_def)
  show ?thesis
  proof (cases "unat ptr + unat len \<le> unat USER_STACK_TOP")
    case True
    then have e: "unat (ptr + len) = unat ptr + unat len"
      unfolding top by (intro unat_add_no_wrap) simp
    have "\<not> ptr + len < ptr" "\<not> ptr + len > USER_STACK_TOP"
      using True by (simp_all add: word_less_nat_alt e)
    moreover have "check_pages s r ptr (ptr + len) \<longleftrightarrow>
        (\<forall>a. ptr \<le> a \<and> unat a < unat ptr + unat len \<longrightarrow> user_page_present s r a)"
      using True by (subst check_pages_iff) (simp_all add: e word_less_nat_alt)
    ultimately show ?thesis using True by (auto simp: user_ptr_range_def not_less)
  next
    case False
    have "ptr + len < ptr \<or> ptr + len > USER_STACK_TOP"
    proof (cases "unat ptr + unat len < 2 ^ 64")
      case True
      then have "unat (ptr + len) = unat ptr + unat len" by (intro unat_add_no_wrap) simp
      then show ?thesis using False by (simp add: word_less_nat_alt)
    next
      case wrap: False
      have "unat (ptr + len) = unat ptr + unat len - 2 ^ 64"
        using wrap unat_lt_64 [of ptr] unat_lt_64 [of len]
        by (simp add: unat_word_ariths mod_if)
      then have "unat (ptr + len) < unat ptr" using wrap unat_lt_64 [of len] by simp
      then show ?thesis by (simp add: word_less_nat_alt)
    qed
    then show ?thesis using False by (auto simp: user_ptr_range_def)
  qed
qed

lemma user_demo_present:
  assumes "a \<ge> 0x400000" "unat a < 0x401000" shows "user_page_present user_demo 0x200000 a"
proof -
  have "unat a div 4096 = unat (0x400000 :: u64) div 4096" using assms by (simp add: word_le_nat_alt)
  then have "user_page_present user_demo 0x200000 a = user_page_present user_demo 0x200000 0x400000"
    by (rule user_page_present_page)
  also have "\<dots>"
    by (simp add: user_page_present_def user_bits_def Let_def pml4_index_def pdpt_index_def pd_index_def
        pt_index_def user_demo_entries page_of_def PTE_PRESENT_def PTE_USER_def PTE_PS_def)
  finally show ?thesis by simp
qed

text \<open>(C15) A pointer range is accepted exactly when it is not empty, lies between the base of user
  space and the top of the stack without wrapping around, and every byte of it is in a page that the tables of the
  current process map for user code. The check always ends. It says nothing about write permission.\<close>

theorem user_ptr_range_iff:
  "user_ptr_range s r ptr len \<longleftrightarrow>
     len \<noteq> 0 \<and> USER_BASE \<le> ptr \<and> unat ptr + unat len \<le> unat USER_STACK_TOP \<and>
     (\<forall>a. ptr \<le> a \<and> unat a < unat ptr + unat len \<longrightarrow> user_page_present s r a)"
  by (rule user_ptr_range_char)

theorem user_ptr_range_iff_witness: "user_ptr_range user_demo 0x200000 0x400010 32"
  unfolding user_ptr_range_iff
  using user_demo_present by (auto simp: user_layout word_le_nat_alt)

text \<open>Copied strings are what user memory holds.\<close>

lemma str_copy_loop_spec:
  "str_copy_loop s r um addr n = Some cs \<Longrightarrow>
     length cs < n \<and> (\<forall>i<length cs. char_of (unat (um (addr + of_nat i))) = cs ! i \<and> um (addr + of_nat i) \<noteq> 0) \<and>
     um (addr + of_nat (length cs)) = 0 \<and> (\<forall>i\<le>length cs. user_page_present s r (addr + of_nat i))"
proof (induction n arbitrary: addr cs)
  case (Suc n)
  from Suc.prems have p: "user_ptr_range s r addr 1" by (auto split: if_splits)
  then have pa: "user_page_present s r addr"
    unfolding user_ptr_range_char by (metis order_refl less_add_one unat_1)
  show ?case
  proof (cases "um addr = 0")
    case True
    then show ?thesis using Suc.prems pa p by auto
  next
    case False
    then obtain ds where ds: "str_copy_loop s r um (addr + 1) n = Some ds" "cs = char_of (unat (um addr)) # ds"
      using Suc.prems p by auto
    note IH = Suc.IH [OF ds(1)]
    have "char_of (unat (um (addr + of_nat i))) = cs ! i \<and> um (addr + of_nat i) \<noteq> 0" if "i < length cs" for i
      using that IH False by (cases i) (auto simp: ds(2) ac_simps)
    moreover have "user_page_present s r (addr + of_nat i)" if "i \<le> length cs" for i
      using that IH pa by (cases i) (auto simp: ds(2) ac_simps)
    ultimately show ?thesis using IH by (auto simp: ds(2) ac_simps)
  qed
qed simp

section \<open>Copy on write\<close>

lemma noexec_source_not_canonical:
  assumes "page_of e = PTE_NX OR phys" "tbl phys" "unat phys < 2 ^ 47"
  shows "\<not> canonical (phys_to_hhdm (e AND NOT 0xFFF))"
proof -
  have nx: "PTE_NX = 2 ^ 63" by (simp add: PTE_NX_def)
  have "phys AND 2 ^ 63 = 0" using tbl_bits(2) [OF assms(2), of 63] by (simp only: and_exp_eq_0_iff_not_bit) simp
  then have "PTE_NX AND phys = 0" by (simp only: nx and.commute)
  then have "page_of e = PTE_NX + phys" using assms(1) by (simp add: disjunctive_add_eq_or)
  then have e: "phys_to_hhdm (e AND NOT 0xFFF) = 0x7FFF800000000000 + phys"
    unfolding page_of_def [symmetric] by (simp add: phys_to_hhdm_def HHDM_BASE_def PTE_NX_def)
  have "unat (0x7FFF800000000000 + phys) = 0x7FFF800000000000 + unat phys"
    using assms(3) by (subst unat_add_no_wrap) simp_all
  then have "unat (drop_bit 47 (0x7FFF800000000000 + phys)) = 0xFFFF"
    using assms(3) by (simp add: drop_bit_eq_div unat_div)
  then show ?thesis unfolding e canonical_def by (auto simp: word_eq_unat)
qed

text \<open>(C35) A write to a grown stack page brings down the kernel. The page is mapped without execute
  permission and with the copy-on-write mark; the write fault computes the address of the old page from the
  entry without removing the no-execute bit, which gives an address that is not canonical, and the
  copy traps in the kernel.\<close>

theorem cow_fault_noexec_traps:
  assumes "pte_lookup s aspace (cr2 AND NOT 0xFFF) = Some (pt, i)"
    and "get_entry s pt i AND PTE_PRESENT \<noteq> 0" "get_entry s pt i AND PTE_COW \<noteq> 0"
    and "page_of (get_entry s pt i) = PTE_NX OR phys" "tbl phys" "unat phys < 2 ^ 47"
    and "pmm_alloc_page s = Ret (new_phys, s1)" "new_phys \<noteq> 0" "aspace \<noteq> 0" "err AND 1 \<noteq> 0" "err AND 2 \<noteq> 0"
  shows "handle_user_page_fault aspace cr2 err rsp zero_phys s = Panic ''isr_general_protection'' 0"
  using assms noexec_source_not_canonical [OF assms(4-6)]
  by (simp add: handle_user_page_fault_def handle_user_cow_fault_def Let_def)

theorem cow_fault_noexec_traps_witness:
  "handle_user_page_fault 0x200000 0x401008 3 0x401008 0x301000 user_demo = Panic ''isr_general_protection'' 0"
proof -
  have l: "pte_lookup user_demo 0x200000 (0x401008 AND NOT 0xFFF) = Some (0x203000, 1)"
    by (simp add: pte_lookup_def Let_def pml4_index_def pdpt_index_def pd_index_def pt_index_def user_demo_entries
        page_of_def PTE_PRESENT_def PTE_PS_def)
  have a: "ret_val (pmm_alloc_page user_demo) \<noteq> None \<and> map_option fst (ret_val (pmm_alloc_page user_demo)) \<noteq> Some 0"
    by code_simp
  then obtain n s1 where "pmm_alloc_page user_demo = Ret (n, s1)" "n \<noteq> 0" by (auto simp: run_simps)
  then show ?thesis
    using cow_fault_noexec_traps [OF l, where phys = "0x301000" and new_phys = n and ?s1.0 = s1 and err = 3]
    by (simp add: user_demo_entries PTE_PRESENT_def PTE_COW_def PTE_NX_def page_of_def tbl_def)
qed

end
