(* ===== verification/Elf_User.thy ===== *)
theory Elf_User
  imports User_Mem Memfs
begin

text \<open>
  Starting a program: the ELF loader, kernel/elf.c, and the address space, stack and image of a user process,
  kernel/user.c. An image is the list of its bytes; a read outside of it is an outcome of its own,
  since the code reads whatever lies behind the image. The page tables and the memory are the state of the
  physical memory manager.
\<close>

section \<open>Headers\<close>

definition PT_LOAD :: u64 where "PT_LOAD = 1"
definition PF_X :: u64 where "PF_X = 1"
definition PF_W :: u64 where "PF_W = 2"

record Elf64_Ehdr =
  e_ident :: "u8 list"
  e_entry :: u64
  e_phoff :: u64
  e_phentsize :: u64
  e_phnum :: u64

record Elf64_Phdr =
  p_type :: u64
  p_flags :: u64
  p_offset :: u64
  p_vaddr :: u64
  p_filesz :: u64
  p_memsz :: u64

definition outside :: "u64 \<Rightarrow> 'a run" where "outside a = Panic ''read outside the image'' a"

definition img_read :: "u8 list \<Rightarrow> u64 \<Rightarrow> nat \<Rightarrow> (u8 list) run" where
  "img_read img off n = (if uint off + int n \<le> int (length img) then Ret (take n (drop (unat off) img)) else outside off)"

text \<open>The fields of the two structures at their offsets, all little endian.\<close>

definition parse_ehdr :: "u8 list \<Rightarrow> Elf64_Ehdr" where
  "parse_ehdr b = \<lparr>e_ident = take 16 b, e_entry = le_word (take 8 (drop 24 b)), e_phoff = le_word (take 8 (drop 32 b)),
     e_phentsize = le_word (take 2 (drop 54 b)), e_phnum = le_word (take 2 (drop 56 b))\<rparr>"

definition parse_phdr :: "u8 list \<Rightarrow> Elf64_Phdr" where
  "parse_phdr b = \<lparr>p_type = le_word (take 4 b), p_flags = le_word (take 4 (drop 4 b)), p_offset = le_word (take 8 (drop 8 b)),
     p_vaddr = le_word (take 8 (drop 16 b)), p_filesz = le_word (take 8 (drop 32 b)), p_memsz = le_word (take 8 (drop 40 b))\<rparr>"

definition elf_check_header :: "u8 list \<Rightarrow> Elf64_Ehdr option" where
  "elf_check_header img =
     (if length img < 64 then None
      else let eh = parse_ehdr (take 64 img)
      in if e_ident eh ! 0 \<noteq> 0x7F \<or> e_ident eh ! 1 \<noteq> 0x45 \<or> e_ident eh ! 2 \<noteq> 0x4C \<or> e_ident eh ! 3 \<noteq> 0x46 then None
      else if e_ident eh ! 4 \<noteq> 2 \<or> e_ident eh ! 5 \<noteq> 1 \<or> e_ident eh ! 6 \<noteq> 1 then None
      else if e_phentsize eh \<noteq> 56 \<or> e_phnum eh = 0 then None
      else if e_phoff eh + e_phnum eh * 56 > of_nat (length img) then None
      else Some eh)"

section \<open>The address space of a process\<close>

record user_space =
  us_pml4 :: u64
  us_entry :: u64
  stack_top :: u64
  stack_bottom :: u64
  stack_pages :: u64
  stack_phys :: "u64 list"

definition user_space_init :: "u64 \<Rightarrow> pmm \<Rightarrow> (user_space option \<times> pmm) run" where
  "user_space_init root s =
     bind_run (mmu_create_user_pml4 root s) (\<lambda>(pml4, s1).
       if pml4 = 0 then Ret (None, s1)
       else Ret (Some \<lparr>us_pml4 = pml4, us_entry = USER_BASE, stack_top = USER_STACK_TOP, stack_bottom = USER_STACK_TOP,
                  stack_pages = 0, stack_phys = replicate 4 0\<rparr>, s1))"

definition user_space_map_page :: "user_space \<Rightarrow> u64 \<Rightarrow> u64 \<Rightarrow> u64 \<Rightarrow> pmm \<Rightarrow> (int \<times> pmm) run" where
  "user_space_map_page space virt phys flags s =
     (if us_pml4 space = 0 then Ret (-1, s) else mmu_map_page_in (us_pml4 space) virt phys (flags OR MMU_FLAG_USER) s)"

section \<open>Loading segments\<close>

definition seg_flags :: "Elf64_Phdr \<Rightarrow> u64" where
  "seg_flags ph = (if p_flags ph AND PF_W \<noteq> 0 then MMU_FLAG_WRITE else 0) OR
     (if p_flags ph AND PF_X = 0 then MMU_FLAG_NOEXEC else 0)"

text \<open>One page: fresh, mapped, cleared, and filled with the part of the file that belongs there.\<close>

definition load_page :: "u8 list \<Rightarrow> user_space \<Rightarrow> Elf64_Phdr \<Rightarrow> u64 \<Rightarrow> pmm \<Rightarrow> (int \<times> pmm) run" where
  "load_page img space ph v s =
     bind_run (pmm_alloc_page s) (\<lambda>(phys, s1).
       if phys = 0 then Ret (-1, s1)
       else bind_run (user_space_map_page space v phys (seg_flags ph) s1) (\<lambda>(r, s2).
         if r \<noteq> 0 then Ret (-1, s2)
         else let s3 = s2\<lparr>pmem := zero_bytes (pmem s2) phys 4096\<rparr>;
                  data_start = p_vaddr ph; data_end = p_vaddr ph + p_filesz ph;
                  copy_start = (if v > data_start then v else data_start);
                  copy_end = (if v + 4096 < data_end then v + 4096 else data_end)
              in if copy_start < copy_end
                 then bind_run (img_read img (p_offset ph + (copy_start - p_vaddr ph)) (unat (copy_end - copy_start)))
                        (\<lambda>bs. Ret (0, s3\<lparr>pmem := wr_bytes (pmem s3) (phys + (copy_start - v)) bs\<rparr>))
                 else Ret (0, s3)))"

fun load_pages :: "u8 list \<Rightarrow> user_space \<Rightarrow> Elf64_Phdr \<Rightarrow> u64 \<Rightarrow> nat \<Rightarrow> pmm \<Rightarrow> (int \<times> pmm) run" where
  "load_pages img space ph v 0 s = Ret (0, s)"
| "load_pages img space ph v (Suc n) s =
     bind_run (load_page img space ph v s) (\<lambda>(r, s1).
       if r \<noteq> 0 then Ret (r, s1) else load_pages img space ph (v + 4096) n s1)"

definition load_min :: u64 where "load_min = (if USER_BASE \<ge> 0x1000 then USER_BASE - 0x1000 else USER_BASE)"

text \<open>The checks of a segment, in the order of the code; the loop over its pages goes from the first page to
  the end, both multiples of the page size and at most \<open>USER_STACK_TOP\<close>.\<close>

definition seg_start :: "Elf64_Phdr \<Rightarrow> u64" where "seg_start ph = align_down (p_vaddr ph) 4096"
definition seg_end :: "Elf64_Phdr \<Rightarrow> u64" where "seg_end ph = align_up (p_vaddr ph + p_memsz ph) 4096"

definition seg_ok :: "u8 list \<Rightarrow> Elf64_Phdr \<Rightarrow> bool" where
  "seg_ok img ph \<longleftrightarrow> \<not> (p_memsz ph = 0 \<or> p_filesz ph > p_memsz ph) \<and>
     \<not> p_offset ph + p_filesz ph > of_nat (length img) \<and>
     \<not> p_vaddr ph + p_memsz ph < p_vaddr ph \<and>
     \<not> (seg_start ph < load_min \<or> seg_end ph > USER_STACK_TOP)"

definition load_segment :: "u8 list \<Rightarrow> user_space \<Rightarrow> Elf64_Phdr \<Rightarrow> pmm \<Rightarrow> (int \<times> pmm) run" where
  "load_segment img space ph s =
     (if p_type ph \<noteq> PT_LOAD then Ret (0, s)
      else if \<not> seg_ok img ph then Ret (-1, s)
      else load_pages img space ph (seg_start ph)
             (if seg_start ph < seg_end ph then unat ((seg_end ph - seg_start ph) div 4096) else 0) s)"

fun load_segments :: "u8 list \<Rightarrow> user_space \<Rightarrow> u64 \<Rightarrow> nat \<Rightarrow> pmm \<Rightarrow> (int \<times> pmm) run" where
  "load_segments img space off 0 s = Ret (0, s)"
| "load_segments img space off (Suc n) s =
     bind_run (img_read img off 56) (\<lambda>b.
       bind_run (load_segment img space (parse_phdr b) s) (\<lambda>(r, s1).
         if r \<noteq> 0 then Ret (r, s1) else load_segments img space (off + 56) n s1))"

definition elf_load_user :: "u8 list \<Rightarrow> user_space \<Rightarrow> pmm \<Rightarrow> (int \<times> user_space \<times> pmm) run" where
  "elf_load_user img space s =
     (if img = [] then Ret (-1, space, s)
      else case elf_check_header img of
        None \<Rightarrow> Ret (-1, space, s)
      | Some eh \<Rightarrow>
          bind_run (load_segments img space (e_phoff eh) (unat (e_phnum eh)) s) (\<lambda>(r, s1).
            if r \<noteq> 0 then Ret (-1, space, s1) else Ret (0, space\<lparr>us_entry := e_entry eh\<rparr>, s1)))"

section \<open>The stack\<close>

fun map_stack_loop :: "user_space \<Rightarrow> u64 \<Rightarrow> nat \<Rightarrow> nat \<Rightarrow> pmm \<Rightarrow> (int \<times> user_space \<times> pmm) run" where
  "map_stack_loop space bottom i 0 s = Ret (0, space, s)"
| "map_stack_loop space bottom i (Suc n) s =
     bind_run (pmm_alloc_page s) (\<lambda>(phys, s1).
       if phys = 0 then Ret (-1, space, s1)
       else bind_run (user_space_map_page space (bottom + of_nat i * 4096) phys (MMU_FLAG_WRITE OR MMU_FLAG_NOEXEC) s1)
         (\<lambda>(r, s2). if r \<noteq> 0 then Ret (-1, space, s2)
            else map_stack_loop (space\<lparr>stack_phys := (stack_phys space)[i := phys]\<rparr>) bottom (Suc i) n s2))"

definition user_space_map_stack :: "user_space \<Rightarrow> u64 \<Rightarrow> pmm \<Rightarrow> (int \<times> user_space \<times> pmm) run" where
  "user_space_map_stack space pages s =
     (if us_pml4 space = 0 \<or> pages = 0 \<or> pages > USER_STACK_MAX_PAGES then Ret (-1, space, s)
      else let bottom = USER_STACK_TOP - pages * 4096
      in bind_run (map_stack_loop space bottom 0 (unat pages) s) (\<lambda>(r, space1, s1).
           if r \<noteq> 0 then Ret (-1, space1, s1)
           else Ret (0, space1\<lparr>stack_top := USER_STACK_TOP, stack_bottom := bottom, stack_pages := pages\<rparr>, s1)))"

text \<open>Bytes go to the stack through the physical pages behind it, page by page.\<close>

function write_chunks :: "user_space \<Rightarrow> u64 \<Rightarrow> u8 list \<Rightarrow> pmm \<Rightarrow> pmm option" where
  "write_chunks space off src s =
     (if src = [] then Some s
      else let page_index = off div 4096; page_off = off mod 4096
      in if page_index \<ge> stack_pages space then None
      else let phys = stack_phys space ! unat page_index;
               chunk = min (4096 - unat page_off) (length src)
      in write_chunks space (off + of_nat chunk) (drop chunk src)
           (s\<lparr>pmem := wr_bytes (pmem s) (phys + page_off) (take chunk src)\<rparr>))"
  by pat_completeness auto
termination
proof (relation "measure (\<lambda>(space, off, src, s). length src)")
  fix space :: user_space and off :: u64 and src :: "u8 list" and s :: pmm and pi po phys :: u64 and chunk :: nat
  assume a: "src \<noteq> []" "po = off mod 4096" "chunk = min (4096 - unat po) (length src)"
  have "unat po < 4096" by (simp add: a(2) unat_mod)
  then show "((space, off + of_nat chunk, drop chunk src, s\<lparr>pmem := wr_bytes (pmem s) (phys + po) (take chunk src)\<rparr>),
      (space, off, src, s)) \<in> measure (\<lambda>(space, off, src, s). length src)"
    using a(1,3) by auto
qed simp

declare write_chunks.simps [simp del]

definition stack_write :: "user_space \<Rightarrow> u64 \<Rightarrow> u8 list \<Rightarrow> pmm \<Rightarrow> pmm option" where
  "stack_write space addr src s =
     (if src = [] then None
      else if addr < stack_bottom space \<or> addr + of_nat (length src) > stack_top space then None
      else write_chunks space (addr - stack_bottom space) src s)"

definition push_bytes :: "user_space \<Rightarrow> u8 list \<Rightarrow> u64 \<times> pmm \<Rightarrow> (u64 \<times> pmm) option" where
  "push_bytes space src = (\<lambda>(sp, s).
     if src = [] then None
     else if sp < stack_bottom space + of_nat (length src) then None
     else map_option (\<lambda>s'. (sp - of_nat (length src), s')) (stack_write space (sp - of_nat (length src)) src s))"

definition push_u64 :: "user_space \<Rightarrow> u64 \<Rightarrow> u64 \<times> pmm \<Rightarrow> (u64 \<times> pmm) option" where
  "push_u64 space v st = push_bytes space (le_bytes 8 v) st"

text \<open>A C string is the list of its characters before the terminating NUL, so \<open>str_len\<close> is the length of the list;
  arguments come from \<open>user_str_copy\<close>, which stops at the first NUL.\<close>

definition push_string :: "user_space \<Rightarrow> string \<Rightarrow> u64 \<times> pmm \<Rightarrow> (u64 \<times> pmm) option" where
  "push_string space str st = push_bytes space (map of_char str @ [0]) st"

fun push_strings :: "user_space \<Rightarrow> string list \<Rightarrow> u64 \<times> pmm \<Rightarrow> (u64 list \<times> u64 \<times> pmm) option" where
  "push_strings space [] st = Some ([], st)"
| "push_strings space (x # xs) st =
     (case push_string space x st of
        None \<Rightarrow> None
      | Some st1 \<Rightarrow> map_option (\<lambda>(as, st2). (fst st1 # as, st2)) (push_strings space xs st1))"

text \<open>Words are pushed last to first.\<close>

fun push_words :: "user_space \<Rightarrow> u64 list \<Rightarrow> u64 \<times> pmm \<Rightarrow> (u64 \<times> pmm) option" where
  "push_words space [] st = Some st"
| "push_words space (w # ws) st = (case push_words space ws st of None \<Rightarrow> None | Some st1 \<Rightarrow> push_u64 space w st1)"

definition user_stack_setup :: "user_space \<Rightarrow> string list \<Rightarrow> string list \<Rightarrow> pmm \<Rightarrow> (u64 \<times> pmm) option" where
  "user_stack_setup space argv envp s =
     (if stack_pages space = 0 \<or> length argv > USER_ARG_MAX \<or> length envp > USER_ENV_MAX then None
      else case push_strings space argv (stack_top space, s) of
        None \<Rightarrow> None
      | Some (argv_addr, st1) \<Rightarrow>
          (case push_strings space envp st1 of
             None \<Rightarrow> None
           | Some (env_addr, sp, s2) \<Rightarrow>
               push_words space (of_nat (length argv) # argv_addr @ 0 # env_addr @ [0]) (sp AND NOT 0xF, s2)))"

section \<open>Preparing an image\<close>

text \<open>A failure leaves pages and bytes behind that nothing refers to any more; the bytes already on the stack are
  not part of the result then.\<close>

definition user_prepare_image ::
  "u64 \<Rightarrow> (nat \<Rightarrow> u8 list) \<Rightarrow> string \<Rightarrow> string list \<Rightarrow> string list \<Rightarrow> pmm \<Rightarrow> ((user_space \<times> u64) option \<times> pmm) run" where
  "user_prepare_image root images path argv envp s =
     bind_run (user_space_init root s) (\<lambda>(sp0, s1).
       case sp0 of
         None \<Rightarrow> Ret (None, s1)
       | Some space0 \<Rightarrow>
           (case memfs_lookup images path of
              None \<Rightarrow> Ret (None, s1)
            | Some i \<Rightarrow>
                bind_run (elf_load_user (images i) space0 s1) (\<lambda>(r1, space1, s2).
                  if r1 \<noteq> 0 then Ret (None, s2)
                  else bind_run (user_space_map_stack space1 1 s2) (\<lambda>(r2, space2, s3).
                    if r2 \<noteq> 0 then Ret (None, s3)
                    else case user_stack_setup space2 argv envp s3 of
                           None \<Rightarrow> Ret (None, s3)
                         | Some (sp, s4) \<Rightarrow> Ret (Some (space2, sp), s4)))))"

section \<open>The stack as a memory\<close>

text \<open>The pages behind the stack are different frames; \<open>stk\<close> is the byte a stack address shows.\<close>

definition space_ok :: "user_space \<Rightarrow> bool" where
  "space_ok sp \<longleftrightarrow> 0 < stack_pages sp \<and> unat (stack_pages sp) \<le> 4 \<and> length (stack_phys sp) = 4 \<and>
     unat (stack_bottom sp) + 4096 * unat (stack_pages sp) = unat (stack_top sp) \<and> unat (stack_top sp) < 2 ^ 48 \<and>
     (\<forall>i<unat (stack_pages sp). tbl (stack_phys sp ! i)) \<and>
     (\<forall>i<unat (stack_pages sp). \<forall>j<unat (stack_pages sp). stack_phys sp ! i = stack_phys sp ! j \<longrightarrow> i = j)"

definition stk :: "user_space \<Rightarrow> pmm \<Rightarrow> nat \<Rightarrow> u8" where
  "stk sp s off = pmem s (stack_phys sp ! (off div 4096) + of_nat (off mod 4096))"

lemma frame_offset:
  assumes "tbl p" "k < 4096" shows "unat (p + of_nat k) = unat p + k"
proof -
  have "unat (of_nat k :: u64) = k" using assms(2) by (intro unat_of_nat_small) simp
  then show ?thesis using assms by (subst unat_add_no_wrap) (simp_all add: tbl_def)
qed

lemma frames_apart:
  assumes "tbl p" "tbl q" "p \<noteq> q" "i < 4096" shows "\<not> (unat q \<le> unat p + i \<and> unat p + i < unat q + 4096)"
proof
  assume a: "unat q \<le> unat p + i \<and> unat p + i < unat q + 4096"
  obtain c d where "unat p = 4096 * c" "unat q = 4096 * d" using assms(1,2) by (auto simp: tbl_def dvd_def)
  then have "c = d" using a assms(4) by linarith
  then show False using \<open>unat p = 4096 * c\<close> \<open>unat q = 4096 * d\<close> assms(3) by (simp add: word_eq_unat)
qed

lemma stk_write_page:
  assumes ok: "space_ok sp" and pg: "pgi < unat (stack_pages sp)" "po + length bs \<le> 4096"
    and o: "off < 4096 * unat (stack_pages sp)"
  shows "stk sp (s\<lparr>pmem := wr_bytes (pmem s) (stack_phys sp ! pgi + of_nat po) bs\<rparr>) off =
    (if 4096 * pgi + po \<le> off \<and> off < 4096 * pgi + po + length bs then bs ! (off - (4096 * pgi + po)) else stk sp s off)"
proof (cases "bs = []")
  case False
  let ?p = "stack_phys sp ! pgi" and ?q = "stack_phys sp ! (off div 4096)"
  have po: "po < 4096" using pg(2) False by (cases bs) auto
  have oi: "off div 4096 < unat (stack_pages sp)" using o by (simp add: less_mult_imp_div_less mult.commute)
  have t: "tbl ?p" "tbl ?q" using ok pg(1) oi by (simp_all add: space_ok_def)
  have up: "unat (?p + of_nat po) = unat ?p + po" by (rule frame_offset [OF t(1) po])
  have uq: "unat (?q + of_nat (off mod 4096)) = unat ?q + off mod 4096" by (rule frame_offset [OF t(2)]) simp
  have b: "unat (?p + of_nat po) + length bs \<le> 2 ^ 64" using up pg(2) t(1) by (simp add: tbl_def)
  note E = wr_bytes_eval [OF b, of "pmem s" "?q + of_nat (off mod 4096)", unfolded up uq]
  have dm: "off = 4096 * (off div 4096) + off mod 4096" by simp
  show ?thesis
  proof (cases "off div 4096 = pgi")
    case True
    then have e: "off = 4096 * pgi + off mod 4096" using dm by simp
    then have d: "off - (4096 * pgi + po) = off mod 4096 - po" by linarith
    have "4096 * pgi + po \<le> off \<longleftrightarrow> po \<le> off mod 4096" "off < 4096 * pgi + po + length bs \<longleftrightarrow> off mod 4096 < po + length bs"
      using e by linarith+
    then show ?thesis using E unfolding stk_def d by (simp add: True)
  next
    case False
    then have "?p \<noteq> ?q" using ok pg(1) oi by (auto simp: space_ok_def)
    have "\<not> (unat ?p + po \<le> unat ?q + off mod 4096 \<and> unat ?q + off mod 4096 < unat ?p + po + length bs)"
      using frames_apart [OF t(2,1) \<open>?p \<noteq> ?q\<close> [symmetric], of "off mod 4096"] pg(2) by auto
    moreover have "\<not> (4096 * pgi + po \<le> off \<and> off < 4096 * pgi + po + length bs)"
    proof
      assume "4096 * pgi + po \<le> off \<and> off < 4096 * pgi + po + length bs"
      then have "off div 4096 = pgi" using pg(2) by (intro div_nat_eqI) auto
      with False show False by simp
    qed
    ultimately show ?thesis using E unfolding stk_def by (simp only: if_False) simp
  qed
qed (auto simp: stk_def)

lemma write_chunks_spec:
  assumes "space_ok sp" "unat off + length src \<le> 4096 * unat (stack_pages sp)"
  shows "\<exists>s'. write_chunks sp off src s = Some s' \<and> (\<forall>x<4096 * unat (stack_pages sp).
     stk sp s' x = (if unat off \<le> x \<and> x < unat off + length src then src ! (x - unat off) else stk sp s x))"
  using assms
proof (induction sp off src s rule: write_chunks.induct)
  case (1 sp off src s)
  show ?case
  proof (cases "src = []")
    case True
    then show ?thesis by (subst write_chunks.simps) auto
  next
    case False
    let ?pgi = "unat (off div 4096)" and ?po = "unat (off mod 4096)"
    define c where "c = min (4096 - ?po) (length src)"
    define s1 where "s1 = s\<lparr>pmem := wr_bytes (pmem s) (stack_phys sp ! ?pgi + off mod 4096) (take c src)\<rparr>"
    have N: "unat (stack_pages sp) \<le> 4" using "1.prems"(1) by (simp add: space_ok_def)
    have dm: "?pgi = unat off div 4096" "?po = unat off mod 4096" by (simp_all add: unat_div unat_mod)
    have pl: "?po < 4096" using dm by simp
    have l0: "0 < length src" using False by simp
    have pg: "?pgi < unat (stack_pages sp)" using "1.prems"(2) l0 dm(1) by linarith
    have c: "?po + length (take c src) \<le> 4096" "length (take c src) = c" "c \<le> length src" using pl by (auto simp: c_def)
    have o: "4096 * ?pgi + ?po = unat off" using dm by simp
    have ocast: "off mod 4096 = of_nat ?po" by simp
    have u: "unat (off + of_nat c) = unat off + c"
    proof -
      have "unat (of_nat c :: u64) = c" using c(1,2) by (intro unat_of_nat_small) simp
      then show ?thesis using "1.prems"(2) N c(3) by (subst unat_add_no_wrap) simp_all
    qed
    have st: "write_chunks sp off src s = write_chunks sp (off + of_nat c) (drop c src) s1"
      using False pg by (subst write_chunks.simps) (simp add: Let_def s1_def c_def word_le_nat_alt)
    have w: "stk sp s1 x = (if unat off \<le> x \<and> x < unat off + c then take c src ! (x - unat off) else stk sp s x)"
      if "x < 4096 * unat (stack_pages sp)" for x
      using stk_write_page [OF "1.prems"(1) pg c(1) that, of s] unfolding o c(2) s1_def ocast [symmetric] by simp
    have "\<exists>s'. write_chunks sp (off + of_nat c) (drop c src) s1 = Some s' \<and> (\<forall>x<4096 * unat (stack_pages sp).
       stk sp s' x = (if unat (off + of_nat c) \<le> x \<and> x < unat (off + of_nat c) + length (drop c src)
         then drop c src ! (x - unat (off + of_nat c)) else stk sp s1 x))"
      using "1.IH" [OF False refl refl _ refl c_def, folded s1_def] pg "1.prems" u c(3)
      by (simp add: word_le_nat_alt)
    then obtain s' where s': "write_chunks sp (off + of_nat c) (drop c src) s1 = Some s'"
      "\<And>x. x < 4096 * unat (stack_pages sp) \<Longrightarrow> stk sp s' x = (if unat off + c \<le> x \<and> x < unat off + length src
         then drop c src ! (x - (unat off + c)) else stk sp s1 x)"
      using c(3) by (auto simp: u)
    have "stk sp s' x = (if unat off \<le> x \<and> x < unat off + length src then src ! (x - unat off) else stk sp s x)"
      if x: "x < 4096 * unat (stack_pages sp)" for x
      using s'(2) [OF x] w [OF x] c(3) by auto
    then show ?thesis using st s'(1) by (intro exI [of _ s']) simp
  qed
qed

text \<open>What lies at a stack address.\<close>

definition on_stack :: "user_space \<Rightarrow> pmm \<Rightarrow> u64 \<Rightarrow> u8 list \<Rightarrow> bool" where
  "on_stack sp s a bs \<longleftrightarrow> unat (stack_bottom sp) \<le> unat a \<and> unat a + length bs \<le> unat (stack_top sp) \<and>
     (\<forall>i<length bs. stk sp s (unat a - unat (stack_bottom sp) + i) = bs ! i)"

definition keeps :: "user_space \<Rightarrow> u64 \<Rightarrow> pmm \<Rightarrow> pmm \<Rightarrow> bool" where
  "keeps sp a s s' \<longleftrightarrow> (\<forall>b bs. on_stack sp s b bs \<and> unat a \<le> unat b \<longrightarrow> on_stack sp s' b bs)"

lemma keepsD: "keeps sp a s s' \<Longrightarrow> on_stack sp s b bs \<Longrightarrow> unat a \<le> unat b \<Longrightarrow> on_stack sp s' b bs"
  by (simp add: keeps_def)

lemma keeps_trans: "keeps sp a s s1 \<Longrightarrow> keeps sp a' s1 s2 \<Longrightarrow> unat a' \<le> unat a \<Longrightarrow> keeps sp a s s2"
  unfolding keeps_def by (meson order_trans)

lemma push_bytes_spec:
  assumes ok: "space_ok sp" and r: "src \<noteq> []" "unat (stack_bottom sp) + length src \<le> unat a" "unat a \<le> unat (stack_top sp)"
  obtains s' where "push_bytes sp src (a, s) = Some (a - of_nat (length src), s')"
    "unat (a - of_nat (length src)) = unat a - length src" "on_stack sp s' (a - of_nat (length src)) src" "keeps sp a s s'"
proof -
  let ?b = "unat (stack_bottom sp)" and ?a = "a - of_nat (length src)" and ?N = "4096 * unat (stack_pages sp)"
  have top: "unat (stack_top sp) < 2 ^ 48" "?b + ?N = unat (stack_top sp)" using ok by (simp_all add: space_ok_def)
  have l: "unat (of_nat (length src) :: u64) = length src"
    using r top by (intro unat_of_nat_small) simp
  have ua: "unat ?a = unat a - length src" using r(2) l by (subst unat_sub) (simp_all add: word_le_nat_alt)
  have e: "unat (?a + of_nat (length src)) = unat a" by simp
  have bl: "unat (stack_bottom sp + of_nat (length src)) = ?b + length src"
    using l r top by (subst unat_add_no_wrap) simp_all
  have off: "unat (?a - stack_bottom sp) = unat a - length src - ?b"
    using r(2) ua by (subst unat_sub) (simp_all add: word_le_nat_alt)
  have fit: "unat (?a - stack_bottom sp) + length src \<le> ?N" using off r top by linarith
  from write_chunks_spec [OF ok fit, of s] obtain s' where
    w: "write_chunks sp (?a - stack_bottom sp) src s = Some s'" and
    v: "\<And>x. x < ?N \<Longrightarrow> stk sp s' x = (if unat a - length src - ?b \<le> x \<and> x < unat a - length src - ?b + length src
      then src ! (x - (unat a - length src - ?b)) else stk sp s x)" unfolding off by blast
  have "stack_write sp ?a src s = Some s'"
    using w r top ua bl by (simp add: stack_write_def word_less_nat_alt e)
  then have 1: "push_bytes sp src (a, s) = Some (?a, s')"
    using r bl by (simp add: push_bytes_def word_less_nat_alt)
  have 2: "on_stack sp s' ?a src"
    unfolding on_stack_def ua using r top v by auto
  have 3: "keeps sp a s s'"
    unfolding keeps_def on_stack_def
  proof (intro allI impI conjI; elim conjE)
    fix b :: u64 and bs :: "u8 list" and i
    assume b: "unat a \<le> unat b" "unat b + length bs \<le> unat (stack_top sp)" "i < length bs"
      "\<forall>i<length bs. stk sp s (unat b - ?b + i) = bs ! i" "?b \<le> unat b"
    have "unat b - ?b + i < ?N" "\<not> unat b - ?b + i < unat a - length src - ?b + length src" using b r top by linarith+
    then show "stk sp s' (unat b - ?b + i) = bs ! i" using v [of "unat b - ?b + i"] b(3,4) by simp
  qed
  from that [OF 1 ua 2 3] show thesis .
qed

lemma push_strings_spec:
  assumes "space_ok sp" "unat (stack_bottom sp) + (\<Sum>x\<leftarrow>xs. length x + 1) \<le> unat a" "unat a \<le> unat (stack_top sp)"
  shows "\<exists>as a' s'. push_strings sp xs (a, s) = Some (as, a', s') \<and> unat a' + (\<Sum>x\<leftarrow>xs. length x + 1) = unat a \<and>
    length as = length xs \<and> (\<forall>i<length xs. on_stack sp s' (as ! i) (map of_char (xs ! i) @ [0]) \<and> unat a' \<le> unat (as ! i)) \<and>
    keeps sp a s s'"
  using assms(2,3)
proof (induction xs arbitrary: a s)
  case Nil
  then show ?case by (auto simp: keeps_def)
next
  case (Cons x xs)
  let ?src = "map of_char x @ [0] :: u8 list"
  have ne: "?src \<noteq> []" by simp
  have r1: "unat (stack_bottom sp) + length ?src \<le> unat a" using Cons.prems(1) by simp
  from push_bytes_spec [OF assms(1) ne r1 Cons.prems(2), of s] obtain s1 where
    p: "push_bytes sp ?src (a, s) = Some (a - of_nat (length ?src), s1)" and
    u: "unat (a - of_nat (length ?src)) = unat a - length ?src" and
    o: "on_stack sp s1 (a - of_nat (length ?src)) ?src" and k: "keeps sp a s s1" by metis
  let ?a1 = "a - of_nat (length ?src) :: u64"
  have "unat (stack_bottom sp) + (\<Sum>x\<leftarrow>xs. length x + 1) \<le> unat ?a1" "unat ?a1 \<le> unat (stack_top sp)"
    using Cons.prems u r1 by simp_all
  from Cons.IH [OF this, of s1] obtain as a' s' where
    q: "push_strings sp xs (?a1, s1) = Some (as, a', s')" and
    I: "unat a' + (\<Sum>x\<leftarrow>xs. length x + 1) = unat ?a1" "length as = length xs"
       "\<forall>i<length xs. on_stack sp s' (as ! i) (map of_char (xs ! i) @ [0]) \<and> unat a' \<le> unat (as ! i)" "keeps sp ?a1 s1 s'"
    by blast
  have "push_strings sp (x # xs) (a, s) = Some (?a1 # as, a', s')" using p q by (simp add: push_string_def)
  moreover have "unat a' + (\<Sum>x\<leftarrow>x # xs. length x + 1) = unat a" using I(1) u r1 by simp
  moreover have "keeps sp a s s'" by (rule keeps_trans [OF k I(4)]) (simp only: u diff_le_self)
  moreover have "on_stack sp s' ?a1 ?src" using I(4) o by (auto simp: keeps_def)
  moreover have "unat a' \<le> unat ?a1" using I(1) by simp
  ultimately show ?case using I(2,3) by (intro exI [of _ "?a1 # as"] exI [of _ a'] exI [of _ s']) (auto simp: nth_Cons')
qed

lemma push_words_spec:
  assumes "space_ok sp" "unat (stack_bottom sp) + 8 * length ws \<le> unat a" "unat a \<le> unat (stack_top sp)"
  shows "\<exists>a' s'. push_words sp ws (a, s) = Some (a', s') \<and> unat a' + 8 * length ws = unat a \<and> keeps sp a s s' \<and>
    (\<forall>i<length ws. on_stack sp s' (a' + 8 * of_nat i) (le_bytes 8 (ws ! i)))"
  using assms(2)
proof (induction ws)
  case Nil
  then show ?case by (auto simp: keeps_def)
next
  case (Cons w ws)
  then obtain a1 s1 where p: "push_words sp ws (a, s) = Some (a1, s1)" and
    I: "unat a1 + 8 * length ws = unat a" "keeps sp a s s1" "\<forall>i<length ws. on_stack sp s1 (a1 + 8 * of_nat i) (le_bytes 8 (ws ! i))"
    by auto
  have l8: "length (le_bytes 8 w) = 8" by (rule length_le_bytes)
  then have ne: "le_bytes 8 w \<noteq> []" by (metis list.size(3) zero_neq_numeral)
  have r: "unat (stack_bottom sp) + length (le_bytes 8 w) \<le> unat a1" "unat a1 \<le> unat (stack_top sp)"
    using Cons.prems I(1) assms(3) l8 by (simp_all del: length_le_bytes)
  obtain s' where q: "push_bytes sp (le_bytes 8 w) (a1, s1) = Some (a1 - 8, s')"
    "unat (a1 - 8) = unat a1 - 8" "on_stack sp s' (a1 - 8) (le_bytes 8 w)" "keeps sp a1 s1 s'"
    by (rule push_bytes_spec [OF assms(1) ne r, of s1]) (simp only: l8 of_nat_numeral)
  have "on_stack sp s' (a1 - 8 + 8 * of_nat i) (le_bytes 8 ((w # ws) ! i))" if i: "i < length (w # ws)" for i
  proof (cases i)
    case 0
    then show ?thesis using q(3) by simp
  next
    case (Suc j)
    have o: "on_stack sp s1 (a1 + 8 * of_nat j) (le_bytes 8 (ws ! j))" using I(3) i Suc by simp
    have "unat a1 \<le> unat (a1 + 8 * of_nat j)"
    proof -
      have top: "unat (stack_top sp) < 2 ^ 48" using assms(1) by (simp add: space_ok_def)
      have "unat (of_nat j :: u64) = j" using I(1) i Suc top assms(3) by (intro unat_of_nat_small) simp
      then have "unat (8 * of_nat j :: u64) = 8 * j" using I(1) i Suc top assms(3) by (subst unat_mult_no_wrap) simp_all
      then show ?thesis using I(1) i Suc top assms(3) by (subst unat_add_no_wrap) simp_all
    qed
    with q(4) o have "on_stack sp s' (a1 + 8 * of_nat j) (le_bytes 8 (ws ! j))" by (simp add: keeps_def)
    then show ?thesis by (simp add: Suc algebra_simps)
  qed
  moreover have "keeps sp a s s'" by (rule keeps_trans [OF I(2) q(4)]) (use I(1) in linarith)
  moreover have "unat (a1 - 8) + 8 * length (w # ws) = unat a" using q(2) I(1) r(1) l8 by simp
  ultimately show ?case using p q(1) by (intro exI [of _ "a1 - 8"] exI [of _ s']) (simp add: push_u64_def)
qed

lemma sum_string_sizes:
  "\<forall>x\<in>set xs. length x < USER_STR_MAX \<Longrightarrow> (\<Sum>x\<leftarrow>xs. length x + 1) \<le> 64 * length xs"
  by (induction xs) (auto simp: USER_STR_MAX_def)

lemma unat_align_16: "unat (a AND NOT 0xF :: u64) = unat a div 16 * 16"
proof -
  have "(0xF :: u64) = mask 4" by (simp add: mask_eq_exp_minus_1)
  then show ?thesis by (simp only: unat_and_not_mask) simp
qed

text \<open>(C20) The initial stack of a process. With at most eight arguments and eight environment strings
  of less than 64 characters the set-up always succeeds, on a single page already. The new stack pointer then
  addresses the argument count, the argument pointers, a null pointer, the environment pointers and a null pointer;
  every pointer addresses its string with the terminating zero byte, as the process will read them through its
  own mapping. The pointer is a multiple of sixteen only when the number of strings is odd.\<close>

theorem user_stack_layout:
  assumes ok: "space_ok space" and n: "length argv \<le> USER_ARG_MAX" "length envp \<le> USER_ENV_MAX"
    and str: "\<forall>x\<in>set argv \<union> set envp. length x < USER_STR_MAX"
  shows "\<exists>sp s' as es. user_stack_setup space argv envp s = Some (sp, s') \<and> length as = length argv \<and> length es = length envp \<and>
    (\<forall>i<length argv. on_stack space s' (as ! i) (map of_char (argv ! i) @ [0])) \<and>
    (\<forall>i<length envp. on_stack space s' (es ! i) (map of_char (envp ! i) @ [0])) \<and>
    (\<forall>i<length argv + length envp + 3.
       on_stack space s' (sp + 8 * of_nat i) (le_bytes 8 ((of_nat (length argv) # as @ 0 # es @ [0]) ! i))) \<and>
    unat sp mod 16 = (if odd (length argv + length envp) then 0 else 8)"
proof -
  let ?b = "unat (stack_bottom space)" and ?t = "unat (stack_top space)"
  have n8: "length argv \<le> 8" "length envp \<le> 8" using n by (simp_all add: USER_ARG_MAX_def USER_ENV_MAX_def)
  have room: "?b + 4096 \<le> ?t" "0 < stack_pages space" using ok by (auto simp: space_ok_def word_less_nat_alt)
  have za: "(\<Sum>x\<leftarrow>argv. length x + 1) \<le> 512" "(\<Sum>x\<leftarrow>envp. length x + 1) \<le> 512"
    using sum_string_sizes [of argv] sum_string_sizes [of envp] str n8 by (simp_all add: le_trans)
  obtain as a1 s1 where p1: "push_strings space argv (stack_top space, s) = Some (as, a1, s1)" and
    P1: "unat a1 + (\<Sum>x\<leftarrow>argv. length x + 1) = ?t" "length as = length argv"
      "\<forall>i<length argv. on_stack space s1 (as ! i) (map of_char (argv ! i) @ [0]) \<and> unat a1 \<le> unat (as ! i)"
    using push_strings_spec [OF ok, of argv "stack_top space" s] room za by auto
  obtain es a2 s2 where p2: "push_strings space envp (a1, s1) = Some (es, a2, s2)" and
    P2: "unat a2 + (\<Sum>x\<leftarrow>envp. length x + 1) = unat a1" "length es = length envp"
      "\<forall>i<length envp. on_stack space s2 (es ! i) (map of_char (envp ! i) @ [0]) \<and> unat a2 \<le> unat (es ! i)" "keeps space a1 s1 s2"
    using push_strings_spec [OF ok, of envp a1 s1] room za P1(1) by auto
  let ?ws = "of_nat (length argv) # as @ 0 # es @ [0] :: u64 list" and ?a3 = "a2 AND NOT 0xF"
  have lw: "length ?ws = length argv + length envp + 3" using P1(2) P2(2) by simp
  have u3: "unat ?a3 = unat a2 div 16 * 16" by (rule unat_align_16)
  have a2: "unat a2 \<le> ?t" "?b + 3072 \<le> unat a2" using P1(1) P2(1) room(1) za by simp_all
  have "unat a2 < unat a2 div 16 * 16 + 16" by (simp add: dividend_less_div_times)
  then have r3: "?b + 8 * length ?ws \<le> unat ?a3" "unat ?a3 \<le> ?t"
    unfolding u3 lw using a2 n8 by simp_all
  obtain sp s' where p3: "push_words space ?ws (?a3, s2) = Some (sp, s')" and
    P3: "unat sp + 8 * length ?ws = unat ?a3" "keeps space ?a3 s2 s'"
      "\<forall>i<length ?ws. on_stack space s' (sp + 8 * of_nat i) (le_bytes 8 (?ws ! i))"
    using push_words_spec [OF ok r3, of s2] by blast
  have ua: "unat ?a3 \<le> unat a2" unfolding u3 by simp
  have g: "\<not> (stack_pages space = 0 \<or> length argv > USER_ARG_MAX \<or> length envp > USER_ENV_MAX)"
    using room(2) n by auto
  have "user_stack_setup space argv envp s = Some (sp, s')"
    unfolding user_stack_setup_def if_not_P [OF g] p1 option.case prod.case p2 by (rule p3)
  moreover have "on_stack space s' (as ! i) (map of_char (argv ! i) @ [0])" if "i < length argv" for i
  proof -
    have o: "on_stack space s1 (as ! i) (map of_char (argv ! i) @ [0])" "unat a1 \<le> unat (as ! i)" using P1(3) that by blast+
    have "unat ?a3 \<le> unat (as ! i)" using o(2) P2(1) ua by linarith
    then show ?thesis by (rule keepsD [OF P3(2) keepsD [OF P2(4) o]])
  qed
  moreover have "on_stack space s' (es ! i) (map of_char (envp ! i) @ [0])" if "i < length envp" for i
    by (rule keepsD [OF P3(2)]) (use P2(3) ua that le_trans in blast)+
  moreover have "unat sp mod 16 = (if odd (length argv + length envp) then 0 else 8)"
  proof -
    obtain q where q: "unat sp + 8 * (length argv + length envp + 3) = 16 * q"
      using P3(1) unfolding u3 lw by (metis mult.commute)
    show ?thesis
    proof (cases "odd (length argv + length envp)")
      case True
      then obtain k where "length argv + length envp = 2 * k + 1" by (elim oddE)
      then have "unat sp = 16 * (q - k - 2)" using q by (simp add: algebra_simps)
      then show ?thesis using True by simp
    next
      case False
      then have "even (length argv + length envp)" by simp
      then obtain k where "length argv + length envp = 2 * k" by (elim evenE)
      then have e: "unat sp + 16 * k + 24 = 16 * q" using q by simp
      then have "k + 2 \<le> q" by linarith
      then obtain d where "q = k + 2 + d" using le_Suc_ex by blast
      then have "unat sp = 8 + 16 * d" using e by simp
      then have "unat sp mod 16 = 8" by simp
      then show ?thesis using False by simp
    qed
  qed
  ultimately show ?thesis using P1(2) P2(2) P3(3) unfolding lw by blast
qed

definition demo_space :: user_space where
  "demo_space = \<lparr>us_pml4 = 0x200000, us_entry = USER_BASE, stack_top = USER_STACK_TOP, stack_bottom = USER_STACK_TOP - 4096,
     stack_pages = 1, stack_phys = [0x300000, 0, 0, 0]\<rparr>"

theorem user_stack_layout_witness:
  "\<exists>sp s' as es. user_stack_setup demo_space [''/bin/init''] [''TERM=neptune'', ''USER=guest''] user_demo = Some (sp, s') \<and>
    on_stack demo_space s' (as ! 0) (map of_char ''/bin/init'' @ [0]) \<and>
    on_stack demo_space s' (es ! 1) (map of_char ''USER=guest'' @ [0]) \<and> on_stack demo_space s' sp (le_bytes 8 1) \<and> unat sp mod 16 = 0"
proof -
  have ok: "space_ok demo_space" by (simp add: space_ok_def demo_space_def USER_STACK_TOP_def tbl_def)
  note L = user_stack_layout [OF ok, of "[''/bin/init'']" "[''TERM=neptune'', ''USER=guest'']" user_demo]
  from L obtain sp s' as es where R: "user_stack_setup demo_space [''/bin/init''] [''TERM=neptune'', ''USER=guest''] user_demo = Some (sp, s')"
    "on_stack demo_space s' (as ! 0) (map of_char ''/bin/init'' @ [0])"
    "\<forall>i<Suc (Suc 0). on_stack demo_space s' (es ! i) (map of_char ([''TERM=neptune'', ''USER=guest''] ! i) @ [0])"
    "\<forall>i<6. on_stack demo_space s' (sp + 8 * of_nat i) (le_bytes 8 ((1 # as @ 0 # es @ [0]) ! i))" "16 dvd unat sp"
    by (auto simp: USER_ARG_MAX_def USER_ENV_MAX_def USER_STR_MAX_def simp del: le_bytes.simps)
  have "on_stack demo_space s' (es ! 1) (map of_char ''USER=guest'' @ [0])"
    using spec [OF R(3), of 1] by simp
  moreover have "on_stack demo_space s' sp (le_bytes 8 1)" using spec [OF R(4), of 0] by simp
  ultimately show ?thesis using R(1,2,5) unfolding dvd_eq_mod_eq_0
    by (intro exI [of _ sp] exI [of _ s'] exI [of _ as] exI [of _ es] conjI)
qed

section \<open>The loader stays inside the image\<close>

definition inside :: "'a run \<Rightarrow> bool" where
  "inside m \<longleftrightarrow> (case m of Panic msg a \<Rightarrow> msg \<noteq> ''read outside the image'' | _ \<Rightarrow> True)"

lemma inside_simps [simp]: "inside (Ret x)" "inside Hang" "\<not> inside (outside a)"
  by (simp_all add: inside_def outside_def)

lemma inside_bind: "inside m \<Longrightarrow> (\<And>x. m = Ret x \<Longrightarrow> inside (f x)) \<Longrightarrow> inside (bind_run m f)"
  by (cases m) (simp_all add: inside_def)

lemma inside_pmm_alloc_page: "inside (pmm_alloc_page s)"
  by (simp add: pmm_alloc_page_def Let_def inside_def split: option.splits)

lemma inside_ensure_table: "inside (ensure_table p i f s)"
  unfolding ensure_table_def split_2m_def Let_def
  by (auto intro!: inside_bind inside_pmm_alloc_page)

lemma inside_walk_tables: "inside (walk_tables r v f s)"
  unfolding walk_tables_def by (auto intro!: inside_bind inside_ensure_table)

lemma inside_user_space_map_page: "inside (user_space_map_page sp v p f s)"
  unfolding user_space_map_page_def mmu_map_page_in_def Let_def
  by (auto intro!: inside_bind inside_walk_tables)

lemma img_read_unat:
  "img_read img off n = (if unat off + n \<le> length img then Ret (take n (drop (unat off) img)) else outside off)"
  by (simp only: img_read_def uint_nat of_nat_add [symmetric] of_nat_le_iff)

lemma img_read_inside: "unat off + n \<le> length img \<Longrightarrow> inside (img_read img off n)"
  by (simp add: img_read_unat)

text \<open>A segment that passed the checks and whose file range does not wrap around is copied from inside the
  image.\<close>

lemma load_page_inside:
  assumes ok: "seg_ok img ph" and len: "length img < 2 ^ 64" and nw: "unat (p_offset ph) + unat (p_filesz ph) < 2 ^ 64"
  shows "inside (load_page img space ph v s)"
proof -
  have fs: "unat (p_filesz ph) \<le> unat (p_memsz ph)" using ok by (simp add: seg_ok_def word_less_nat_alt)
  have vm: "unat (p_vaddr ph + p_memsz ph) = unat (p_vaddr ph) + unat (p_memsz ph)"
    using ok unfolding seg_ok_def by (simp add: not_less unat_plus_simple)
  have ve: "unat (p_vaddr ph + p_filesz ph) = unat (p_vaddr ph) + unat (p_filesz ph)"
    using vm fs unat_lt_64 [of "p_vaddr ph + p_memsz ph"] by (intro unat_add_no_wrap) simp
  have "unat (p_offset ph + p_filesz ph) \<le> unat (of_nat (length img) :: u64)"
    using ok by (simp add: seg_ok_def word_less_nat_alt)
  then have fl: "unat (p_offset ph) + unat (p_filesz ph) \<le> length img"
    using len nw by (simp add: unat_add_no_wrap unat_of_nat_small)
  let ?cs = "if v > p_vaddr ph then v else p_vaddr ph"
  let ?ce = "if v + 4096 < p_vaddr ph + p_filesz ph then v + 4096 else p_vaddr ph + p_filesz ph"
  have r: "inside (img_read img (p_offset ph + (?cs - p_vaddr ph)) (unat (?ce - ?cs)))" if c: "?cs < ?ce"
  proof (rule img_read_inside)
    have b: "unat (p_vaddr ph) \<le> unat ?cs" "unat ?cs < unat ?ce" "unat ?ce \<le> unat (p_vaddr ph) + unat (p_filesz ph)"
      using c by (auto simp: word_less_nat_alt ve not_less)
    have d: "unat (?cs - p_vaddr ph) = unat ?cs - unat (p_vaddr ph)" "unat (?ce - ?cs) = unat ?ce - unat ?cs"
      using b by (subst unat_sub; simp add: word_le_nat_alt)+
    have "unat (p_offset ph + (?cs - p_vaddr ph)) = unat (p_offset ph) + (unat ?cs - unat (p_vaddr ph))"
      using b nw d(1) by (subst unat_add_no_wrap) simp_all
    then show "unat (p_offset ph + (?cs - p_vaddr ph)) + unat (?ce - ?cs) \<le> length img" using b fl d(2) by linarith
  qed
  show ?thesis
    unfolding load_page_def Let_def using r
    by (auto intro!: inside_bind inside_pmm_alloc_page inside_user_space_map_page)
qed

lemma load_pages_inside:
  assumes "seg_ok img ph" "length img < 2 ^ 64" "unat (p_offset ph) + unat (p_filesz ph) < 2 ^ 64"
  shows "inside (load_pages img space ph v n s)"
  by (induction n arbitrary: v s) (auto intro!: inside_bind load_page_inside [OF assms])

definition phdr_at :: "u8 list \<Rightarrow> u64 \<Rightarrow> nat \<Rightarrow> Elf64_Phdr" where
  "phdr_at img phoff i = parse_phdr (take 56 (drop (unat phoff + 56 * i) img))"

lemma load_segments_inside:
  assumes len: "length img < 2 ^ 64" and r: "unat off + 56 * n \<le> length img"
    and seg: "\<forall>i<n. p_type (phdr_at img off i) = PT_LOAD \<longrightarrow>
      unat (p_offset (phdr_at img off i)) + unat (p_filesz (phdr_at img off i)) < 2 ^ 64"
  shows "inside (load_segments img space off n s)"
  using r seg
proof (induction n arbitrary: off s)
  case (Suc n)
  let ?ph = "phdr_at img off 0"
  have rd: "img_read img off 56 = Ret (take 56 (drop (unat off) img))" using Suc.prems(1) by (simp add: img_read_unat)
  have ls: "inside (load_segment img space ?ph s)"
    unfolding load_segment_def using load_pages_inside [OF _ len, of ?ph] spec [OF Suc.prems(2), of 0] by simp
  have "inside (load_segments img space (off + 56) n s1)" for s1
  proof (cases n)
    case (Suc m)
    have u: "unat (off + 56) = unat off + 56" using Suc.prems(1) len by (subst unat_add_no_wrap) simp_all
    show ?thesis
    proof (rule Suc.IH)
      show "unat (off + 56) + 56 * n \<le> length img" using Suc.prems(1) u by simp
      show "\<forall>i<n. p_type (phdr_at img (off + 56) i) = PT_LOAD \<longrightarrow>
          unat (p_offset (phdr_at img (off + 56) i)) + unat (p_filesz (phdr_at img (off + 56) i)) < 2 ^ 64"
      proof (intro allI impI)
        fix i assume i: "i < n" "p_type (phdr_at img (off + 56) i) = PT_LOAD"
        have e: "phdr_at img (off + 56) i = phdr_at img off (Suc i)" by (simp add: phdr_at_def u add.assoc)
        show "unat (p_offset (phdr_at img (off + 56) i)) + unat (p_filesz (phdr_at img (off + 56) i)) < 2 ^ 64"
          using spec [OF Suc.prems(2), of "Suc i"] i e by simp
      qed
    qed
  qed simp
  then show ?case using ls rd by (auto simp: phdr_at_def intro!: inside_bind)
qed simp

lemma if_None_Some: "(if b then None else x) = Some y \<longleftrightarrow> \<not> b \<and> x = Some y"
  by simp

lemma elf_check_header_table:
  assumes "elf_check_header img = Some eh" shows "\<not> e_phoff eh + e_phnum eh * 56 > of_nat (length img)"
  using assms by (simp only: elf_check_header_def Let_def if_None_Some option.inject) (elim conjE; hypsubst; assumption)

text \<open>(C37) The loader reads only bytes of the image, provided that neither the end of the program
  header table nor the end of a segment's file range wraps around at 64 bits. The checks of the code are enough then:
  whatever the other fields say, every header and every copied byte lies inside the image.\<close>

theorem elf_load_in_bounds:
  assumes len: "length img < 2 ^ 64"
    and nw: "\<forall>eh. elf_check_header img = Some eh \<longrightarrow> unat (e_phoff eh) + 56 * unat (e_phnum eh) < 2 ^ 64 \<and>
      (\<forall>i<unat (e_phnum eh). p_type (phdr_at img (e_phoff eh) i) = PT_LOAD \<longrightarrow>
         unat (p_offset (phdr_at img (e_phoff eh) i)) + unat (p_filesz (phdr_at img (e_phoff eh) i)) < 2 ^ 64)"
  shows "elf_load_user img space s \<noteq> Panic ''read outside the image'' a"
proof -
  have "inside (elf_load_user img space s)"
  proof (cases "elf_check_header img")
    case (Some eh)
    have w: "unat (e_phoff eh) + 56 * unat (e_phnum eh) < 2 ^ 64" using nw Some by blast
    have "\<not> e_phoff eh + e_phnum eh * 56 > of_nat (length img)" by (rule elf_check_header_table [OF Some])
    moreover have "unat (e_phnum eh * 56) = 56 * unat (e_phnum eh)" using w by (subst unat_mult_no_wrap) simp_all
    moreover have "unat (e_phoff eh + e_phnum eh * 56) = unat (e_phoff eh) + unat (e_phnum eh * 56)"
      using w calculation(2) by (intro unat_add_no_wrap) simp
    ultimately have "unat (e_phoff eh) + 56 * unat (e_phnum eh) \<le> length img"
      using len by (simp add: word_less_nat_alt unat_of_nat_small)
    then have "inside (load_segments img space (e_phoff eh) (unat (e_phnum eh)) s)"
      using nw Some by (intro load_segments_inside [OF len]) blast+
    then show ?thesis using Some unfolding elf_load_user_def by (auto intro!: inside_bind)
  qed (simp add: elf_load_user_def)
  then show ?thesis by (auto simp: inside_def)
qed

text \<open>An image with one loadable segment of 32 bytes at 0x402000 and its file offset as an argument.\<close>

definition demo_elf :: "u64 \<Rightarrow> u8 list" where
  "demo_elf off = [0x7F, 0x45, 0x4C, 0x46, 2, 1, 1] @ replicate 17 0 @ le_bytes 8 0x402000 @ le_bytes 8 64 @ replicate 12 0 @
     [64, 0, 56, 0, 1, 0, 0, 0, 0, 0, 0, 0] @
     [1, 0, 0, 0, 5, 0, 0, 0] @ le_bytes 8 off @ le_bytes 8 0x402000 @ replicate 8 0 @ le_bytes 8 32 @ le_bytes 8 32 @ replicate 8 0 @
     replicate 32 0x90"

definition demo_ehdr :: Elf64_Ehdr where
  "demo_ehdr = \<lparr>e_ident = [0x7F, 0x45, 0x4C, 0x46, 2, 1, 1, 0, 0, 0, 0, 0, 0, 0, 0, 0], e_entry = 0x402000, e_phoff = 64,
     e_phentsize = 56, e_phnum = 1\<rparr>"

definition demo_phdr :: "u64 \<Rightarrow> Elf64_Phdr" where
  "demo_phdr off = \<lparr>p_type = 1, p_flags = 5, p_offset = off, p_vaddr = 0x402000, p_filesz = 32, p_memsz = 32\<rparr>"

lemma demo_elf_headers:
  "elf_check_header (demo_elf 120) = Some demo_ehdr" "phdr_at (demo_elf 120) 64 0 = demo_phdr 120"
  "elf_check_header (demo_elf (- 16)) = Some demo_ehdr" "phdr_at (demo_elf (- 16)) 64 0 = demo_phdr (- 16)"
  by code_simp+

lemma length_demo_elf [simp]: "length (demo_elf off) = 152"
  by (simp add: demo_elf_def)

theorem elf_load_in_bounds_witness:
  "\<nexists>a. elf_load_user (demo_elf 120) demo_space user_demo = Panic ''read outside the image'' a"
  using elf_load_in_bounds [of "demo_elf 120" demo_space user_demo] by (simp add: demo_elf_headers demo_ehdr_def demo_phdr_def)

text \<open>(C38) Without that condition the loader leaves the image: a segment at file offset -16 of length
  32 passes all checks, since the sum of the two fields is 16, and as soon as its page is mapped the copy starts
  16 bytes before the image.\<close>

theorem elf_offset_wraps:
  assumes "pmm_alloc_page s = Ret (phys, s1)" "phys \<noteq> 0" "user_space_map_page space 0x402000 phys 0 s1 = Ret (0, s2)"
  shows "elf_load_user (demo_elf (- 16)) space s = Panic ''read outside the image'' (- 16)"
proof -
  have fl: "seg_flags (demo_phdr (- 16)) = 0" by code_simp
  have so: "seg_ok (demo_elf (- 16)) (demo_phdr (- 16))" "seg_start (demo_phdr (- 16)) = 0x402000" "seg_end (demo_phdr (- 16)) = 0x403000"
    by code_simp+
  have pg: "load_page (demo_elf (- 16)) space (demo_phdr (- 16)) 0x402000 s = Panic ''read outside the image'' (- 16)"
    using assms fl by (simp add: load_page_def Let_def demo_phdr_def img_read_unat outside_def)
  have rd: "img_read (demo_elf (- 16)) 64 56 = Ret (take 56 (drop 64 (demo_elf (- 16))))" by (simp add: img_read_unat)
  have ph: "parse_phdr (take 56 (drop 64 (demo_elf (- 16)))) = demo_phdr (- 16)"
    using demo_elf_headers(4) by (simp add: phdr_at_def)
  have "load_segment (demo_elf (- 16)) space (demo_phdr (- 16)) s = Panic ''read outside the image'' (- 16)"
    using so pg by (simp add: load_segment_def) (simp add: demo_phdr_def PT_LOAD_def)
  then have "load_segments (demo_elf (- 16)) space 64 1 s = Panic ''read outside the image'' (- 16)"
    unfolding One_nat_def load_segments.simps rd bind_run.simps ph by simp
  moreover have "demo_elf (- 16) \<noteq> []" by (simp add: demo_elf_def)
  ultimately show ?thesis by (simp add: elf_load_user_def demo_elf_headers(3) demo_ehdr_def)
qed

lemma ensure_table_present:
  assumes "get_entry s t i AND PTE_PS = 0" "get_entry s t i AND PTE_PRESENT \<noteq> 0" "get_entry s t i AND PTE_USER \<noteq> 0"
  shows "ensure_table t i f s = Ret (page_of (get_entry s t i), s)"
  using assms by (simp add: ensure_table_def Let_def)

theorem elf_offset_wraps_witness:
  "elf_load_user (demo_elf (- 16)) demo_space user_demo = Panic ''read outside the image'' (- 16)"
proof -
  have a: "case pmm_alloc_page user_demo of Ret (p, s1) \<Rightarrow> p \<noteq> 0 \<and> p AND 0xFFF = 0 \<and>
      get_entry s1 0x200000 0 = 0x201007 \<and> get_entry s1 0x201000 0 = 0x202007 \<and> get_entry s1 0x202000 2 = 0x203007 \<and>
      get_entry s1 0x203000 2 = 0 | _ \<Rightarrow> False" by code_simp
  obtain p s1 where p: "pmm_alloc_page user_demo = Ret (p, s1)" using a by (auto split: run.splits)
  note E = a [unfolded p, simplified]
  have w: "walk_tables 0x200000 0x402000 4 s1 = Ret (0x203000, s1)"
    using E by (simp add: walk_tables_def ensure_table_present pml4_index_def pdpt_index_def pd_index_def
        PTE_PS_def PTE_PRESENT_def PTE_USER_def page_of_def)
  have "pt_index 0x402000 = 2" by (simp add: pt_index_def)
  then have m: "\<exists>s2. user_space_map_page demo_space 0x402000 p 0 s1 = Ret (0, s2)"
    using E w by (simp add: user_space_map_page_def demo_space_def mmu_map_page_in_def MMU_FLAG_USER_def Let_def)
  then obtain s2 where "user_space_map_page demo_space 0x402000 p 0 s1 = Ret (0, s2)" ..
  with elf_offset_wraps [OF p] E show ?thesis by blast
qed

end
