(* ===== verification/Syscall.thy ===== *)
theory Syscall
  imports Vfs Tty Elf_User
begin

text \<open>
  System calls, kernel/syscall.c: the table of global handles with reference counts, the descriptors of a
  process, and the dispatcher. The scheduler reaches the handle table through its two handle operations,
  which are instantiated here; the table and the virtual file system are the handle part of the scheduler's state. User memory
  of the current process is a function of the virtual address; a store of the kernel to a page that is not
  writable ends in the kernel's page fault panic. That function is the content of the pages of the caller's address
  space when the call starts. The physical memory behind \<open>pages\<close>, with the page tables and the image that \<open>sys_exec\<close>
  builds for a new address space, is a part of its own: a successful \<open>sys_exec\<close> leaves the memory of the
  address space that the process gives up as it was and ends with \<open>Entered\<close>, from where the process runs on the new one. A call that has to wait returns \<open>Waiting\<close>
  with what it keeps on its stack, and \<open>sys_resume\<close> goes on from there.
\<close>

section \<open>Handles\<close>

datatype handle_type = HANDLE_FREE | HANDLE_TTY | HANDLE_VFS

record handle =
  htype :: handle_type
  hfile :: "nat option"
  owner_pid :: int
  hrefs :: int

definition HANDLE_MAX :: int where "HANDLE_MAX = 128"

record 'h hstate =
  htab :: "handle list"
  handles_ready :: bool
  hvfs :: "'h vfs"

definition free_handle :: handle where
  "free_handle = \<lparr>htype = HANDLE_FREE, hfile = None, owner_pid = 0, hrefs = 0\<rparr>"

definition hstate_start :: "'h vfs \<Rightarrow> 'h hstate" where
  "hstate_start v = \<lparr>htab = replicate 128 free_handle, handles_ready = False, hvfs = v\<rparr>"

definition upd_handle :: "int \<Rightarrow> (handle \<Rightarrow> handle) \<Rightarrow> 'h hstate \<Rightarrow> 'h hstate" where
  "upd_handle i g h = h\<lparr>htab := (htab h)[nat i := g (htab h ! nat i)]\<rparr>"

definition close_opt :: "nat option \<Rightarrow> 'h hstate \<Rightarrow> 'h hstate" where
  "close_opt fl h = (case fl of None \<Rightarrow> h | Some n \<Rightarrow> h\<lparr>hvfs := vfs_close n (hvfs h)\<rparr>)"

definition syscall_acquire_handle :: "int \<Rightarrow> 'h hstate \<Rightarrow> 'h hstate" where
  "syscall_acquire_handle i h =
     (if i < 0 \<or> i \<ge> HANDLE_MAX then h
      else if htype (htab h ! nat i) \<noteq> HANDLE_FREE then upd_handle i (\<lambda>x. x\<lparr>hrefs := hrefs x + 1\<rparr>) h else h)"

definition syscall_release_handle :: "int \<Rightarrow> 'h hstate \<Rightarrow> 'h hstate" where
  "syscall_release_handle i h =
     (if i < 0 \<or> i \<ge> HANDLE_MAX then h
      else if htype (htab h ! nat i) = HANDLE_FREE then h
      else let h1 = upd_handle i (\<lambda>x. x\<lparr>hrefs := hrefs x - 1\<rparr>) h; x = htab h1 ! nat i
      in if hrefs x \<le> 0
         then upd_handle i (\<lambda>_. free_handle) (if htype x = HANDLE_VFS then close_opt (hfile x) h1 else h1)
         else h1)"

definition handles_init :: "'h hstate \<Rightarrow> 'h hstate" where
  "handles_init h =
     h\<lparr>htab := map (\<lambda>i. (htab h ! i)\<lparr>htype := (if i < 3 then HANDLE_TTY else HANDLE_FREE), hfile := None, owner_pid := 0\<rparr>) [0..<128],
       handles_ready := True\<rparr>"

definition handle_alloc :: "handle_type \<Rightarrow> nat option \<Rightarrow> int \<Rightarrow> 'h hstate \<Rightarrow> int \<times> 'h hstate" where
  "handle_alloc ty fl p h =
     (case List.find (\<lambda>i. htype (htab h ! i) = HANDLE_FREE) [0..<128] of
        None \<Rightarrow> (-1, h)
      | Some i \<Rightarrow> (int i, upd_handle (int i) (\<lambda>_. \<lparr>htype = ty, hfile = fl, owner_pid = p, hrefs = 1\<rparr>) h))"

definition handle_valid :: "int \<Rightarrow> int \<Rightarrow> 'h hstate \<Rightarrow> bool" where
  "handle_valid fd p h =
     (if fd < 0 \<or> fd \<ge> HANDLE_MAX then False
      else if htype (htab h ! nat fd) = HANDLE_FREE then False
      else owner_pid (htab h ! nat fd) = 0 \<or> owner_pid (htab h ! nat fd) = p)"

definition syscall_ops :: "'h hstate handle_ops" where
  "syscall_ops = \<lparr>acquire_handle = syscall_acquire_handle, release_handle = syscall_release_handle\<rparr>"

section \<open>State of the kernel during a call\<close>

record user_launch =
  l_path :: string
  l_argv :: "string list"
  l_envp :: "string list"
  override_fds :: "int list"

record 'h ksys =
  sch :: "'h hstate sched"
  ktty :: tty
  pages :: pmm
  umem :: "u64 \<Rightarrow> u8"
  launches :: "nat \<Rightarrow> user_launch option"

record syscall_regs =
  rax :: u64
  rdi :: u64
  rsi :: u64
  rdx :: u64
  r10 :: u64

text \<open>A call that has to wait keeps, on its kernel stack, what it needs to go on: a terminal read the
  buffer and what it has put there, a read or write of a pipe the pipe and the section to run next,
  a wait for a child the address for the exit code.\<close>

datatype pending =
    Read_tty u64 u64 "u8 list" "u8 list"
  | Read_pipe u64 nat pipe_call
  | Write_pipe nat pipe_call
  | Wait_child u64

datatype sys_result =
    Value u64
  | Waiting pending
  | Switched
  | Entered u64 u64 u64

definition syscall_error :: "int \<Rightarrow> u64" where "syscall_error err = of_int (- err)"

definition int_of_reg :: "u64 \<Rightarrow> int" where "int_of_reg r = sint (ucast r :: u32)"

definition with_h :: "('h hstate \<Rightarrow> 'h hstate) \<Rightarrow> 'h ksys \<Rightarrow> 'h ksys" where
  "with_h g k = k\<lparr>sch := (sch k)\<lparr>handles := g (handles (sch k))\<rparr>\<rparr>"

definition hs :: "'h ksys \<Rightarrow> 'h hstate" where "hs k = handles (sch k)"

definition set_vfs :: "'h vfs \<Rightarrow> 'h ksys \<Rightarrow> 'h ksys" where
  "set_vfs v k = with_h (\<lambda>h. h\<lparr>hvfs := v\<rparr>) k"

definition kaspace :: "'h ksys \<Rightarrow> u64" where "kaspace k = sched_current_aspace (sch k)"

definition user_ok :: "'h ksys \<Rightarrow> u64 \<Rightarrow> u64 \<Rightarrow> bool" where
  "user_ok k ptr len = user_ptr_range (pages k) (kaspace k) ptr len"

text \<open>The pages the processor lets the kernel write, with write protection in force: every level has the
  write bit. A store elsewhere panics in the exception handler.\<close>

definition user_page_writable :: "pmm \<Rightarrow> u64 \<Rightarrow> u64 \<Rightarrow> bool" where
  "user_page_writable s r virt =
     (let e4 = get_entry s r (pml4_index virt)
      in if e4 AND PTE_PRESENT = 0 \<or> e4 AND PTE_RW = 0 then False
      else let e3 = get_entry s (page_of e4) (pdpt_index virt)
      in if e3 AND PTE_PRESENT = 0 \<or> e3 AND PTE_RW = 0 then False
      else if e3 AND PTE_PS \<noteq> 0 then True
      else let e2 = get_entry s (page_of e3) (pd_index virt)
      in if e2 AND PTE_PRESENT = 0 \<or> e2 AND PTE_RW = 0 then False
      else if e2 AND PTE_PS \<noteq> 0 then True
      else let e1 = get_entry s (page_of e2) (pt_index virt)
      in e1 AND PTE_PRESENT \<noteq> 0 \<and> e1 AND PTE_RW \<noteq> 0)"

definition user_store :: "u64 \<Rightarrow> u8 list \<Rightarrow> 'h ksys \<Rightarrow> 'h ksys run" where
  "user_store a bs k =
     (case List.find (\<lambda>i. \<not> user_page_writable (pages k) (kaspace k) (a + of_nat i)) [0..<length bs] of
        Some i \<Rightarrow> Panic ''isr_page_fault'' 3
      | None \<Rightarrow> Ret (k\<lparr>umem := wr_bytes (umem k) a bs\<rparr>))"

definition resolve_path :: "u64 \<Rightarrow> nat \<Rightarrow> 'h ksys \<Rightarrow> string option" where
  "resolve_path user_path out_len k =
     (if user_path = 0 \<or> out_len = 0 then None
      else if \<not> user_ok k user_path 1 then None
      else case user_str_copy (pages k) (kaspace k) (umem k) user_path 256 of
        None \<Rightarrow> None
      | Some temp \<Rightarrow>
          if take 1 temp = ''/'' then sys_normalize_path temp out_len
          else let cwd = sched_get_cwd 256 (sch k)
          in if length cwd + 1 + length temp \<ge> 256 then None
          else sys_normalize_path (cwd @ (if cwd \<noteq> [] \<and> last cwd \<noteq> CHR ''/'' then ''/'' else []) @ temp) out_len)"

definition user_launch_fill :: "string \<Rightarrow> u64 \<Rightarrow> u64 \<Rightarrow> 'h ksys \<Rightarrow> user_launch option" where
  "user_launch_fill path argv envp k =
     (let p = take 63 path
      in case user_vec_copy (pages k) (kaspace k) (umem k) argv USER_ARG_MAX of
           None \<Rightarrow> None
         | Some av \<Rightarrow>
             (case user_vec_copy (pages k) (kaspace k) (umem k) envp USER_ENV_MAX of
                None \<Rightarrow> None
              | Some ev \<Rightarrow> Some \<lparr>l_path = p, l_argv = (if av = [] then [p] else av), l_envp = ev, override_fds = [-1, -1, -1]\<rparr>))"

section \<open>The calls\<close>

text \<open>What the calls need from outside: the ports of the disk, the memory check of the ramfs, the root page table, and the
  address of the function that a spawned thread starts with.\<close>

record 'h kenv =
  ports :: "'h port_io"
  rmem :: "u64 \<Rightarrow> bool"
  root :: u64
  launch_entry :: nat

type_synonym 'h outcome = "(sys_result \<times> 'h ksys) run"

definition err :: "int \<Rightarrow> 'h ksys \<Rightarrow> 'h outcome" where
  "err e k = Ret (Value (syscall_error e), k)"

text \<open>The end of a section of a read or a write: its result, or the wait for the next section. The bytes
  of a terminal read are in the caller's buffer when the call sleeps.\<close>

definition tty_result :: "u64 \<Rightarrow> u64 \<Rightarrow> u8 list \<times> u8 list \<times> bool \<times> tty \<Rightarrow> 'h ksys \<Rightarrow> 'h outcome" where
  "tty_result buf len r k =
     (case r of (bs, old, fin, t) \<Rightarrow>
        bind_run (user_store buf (bs @ old) (k\<lparr>ktty := t\<rparr>)) (\<lambda>k1.
          Ret (if fin then Value (of_nat (length bs)) else Waiting (Read_tty buf len bs old), k1)))"

definition read_result :: "u64 \<Rightarrow> io \<Rightarrow> 'h ksys \<Rightarrow> 'h outcome" where
  "read_result buf io k =
     (case io of
        Blocked p c \<Rightarrow> Ret (Waiting (Read_pipe buf p c), k)
      | Io r bs \<Rightarrow>
          bind_run (user_store buf bs k) (\<lambda>k1. if r < 0 then err (- r) k1 else Ret (Value (of_int r), k1)))"

definition write_result :: "io \<Rightarrow> 'h ksys \<Rightarrow> 'h outcome" where
  "write_result io k =
     (case io of
        Blocked p c \<Rightarrow> Ret (Waiting (Write_pipe p c), k)
      | Io r _ \<Rightarrow> if r < 0 then err (- r) k else Ret (Value (of_int r), k))"

definition sys_read :: "'h kenv \<Rightarrow> int \<Rightarrow> u64 \<Rightarrow> u64 \<Rightarrow> 'h ksys \<Rightarrow> 'h outcome" where
  "sys_read env fd buf len k =
     (if buf = 0 \<or> len = 0 then Ret (Value 0, k)
      else if \<not> user_ok k buf len then err SYSCALL_EINVAL k
      else let g = sched_get_fd fd (sch k)
      in if g < 0 then err SYSCALL_EBADF k
      else let h = htab (hs k) ! nat g
      in case htype h of
           HANDLE_TTY \<Rightarrow>
             bind_run (tty_read len (ktty k)) (\<lambda>r. tty_result buf len r k)
         | HANDLE_VFS \<Rightarrow>
             (case hfile h of
                None \<Rightarrow> err SYSCALL_EINVAL k
              | Some n \<Rightarrow>
                  bind_run (vfs_read (ports env) n len (hvfs (hs k))) (\<lambda>(io, v). read_result buf io (set_vfs v k)))
         | HANDLE_FREE \<Rightarrow> err SYSCALL_EBADF k)"

definition sys_write :: "'h kenv \<Rightarrow> int \<Rightarrow> u64 \<Rightarrow> u64 \<Rightarrow> 'h ksys \<Rightarrow> 'h outcome" where
  "sys_write env fd buf len k =
     (let g = sched_get_fd fd (sch k)
      in if g < 0 then err SYSCALL_EBADF k
      else let h = htab (hs k) ! nat g
      in if htype h = HANDLE_FREE then err SYSCALL_EBADF k
      else if \<not> user_ok k buf len then err SYSCALL_ERANGE k
      else let bs = rd_bytes (umem k) buf (unat len)
      in case htype h of
           HANDLE_TTY \<Rightarrow> (let (n, t) = tty_write bs (ktty k) in Ret (Value (of_nat n), k\<lparr>ktty := t\<rparr>))
         | HANDLE_VFS \<Rightarrow>
             (case hfile h of
                None \<Rightarrow> err SYSCALL_EINVAL k
              | Some n \<Rightarrow>
                  bind_run (vfs_write (rmem env) (ports env) n bs (hvfs (hs k))) (\<lambda>(io, v). write_result io (set_vfs v k)))
         | HANDLE_FREE \<Rightarrow> err SYSCALL_EBADF k)"

text \<open>Installing a handle in the first free descriptor; \<open>undo\<close> is what the code does when there is none.\<close>

definition install :: "handle_type \<Rightarrow> nat option \<Rightarrow> 'h ksys \<Rightarrow> int \<times> 'h ksys" where
  "install ty fl k = (let (g, h) = handle_alloc ty fl (sched_current_pid (sch k)) (hs k) in (g, with_h (\<lambda>_. h) k))"

definition alloc_fd :: "int \<Rightarrow> 'h ksys \<Rightarrow> int \<times> 'h ksys" where
  "alloc_fd g k = (let (fd, s) = sched_allocate_fd g (sch k) in (fd, k\<lparr>sch := s\<rparr>))"

definition release :: "int \<Rightarrow> 'h ksys \<Rightarrow> 'h ksys" where
  "release g k = with_h (syscall_release_handle g) k"

definition close_file :: "nat \<Rightarrow> 'h ksys \<Rightarrow> 'h ksys" where
  "close_file n k = set_vfs (vfs_close n (hvfs (hs k))) k"

definition set_fd :: "int \<Rightarrow> int \<Rightarrow> 'h ksys \<Rightarrow> 'h ksys" where
  "set_fd fd g k = k\<lparr>sch := sched_set_fd fd g (sch k)\<rparr>"

definition sys_open :: "'h kenv \<Rightarrow> u64 \<Rightarrow> 'h ksys \<Rightarrow> 'h outcome" where
  "sys_open env path k =
     (case resolve_path path USER_PATH_MAX k of
        None \<Rightarrow> err SYSCALL_EINVAL k
      | Some p \<Rightarrow>
          if streq p ''/dev/tty'' \<or> streq p ''/dev/console''
          then let (g, k1) = install HANDLE_TTY None k
               in if g < 0 then err SYSCALL_ENOMEM k1
               else let (fd, k2) = alloc_fd g k1
               in if fd < 0 then err SYSCALL_ENOMEM (release g k2) else Ret (Value (of_int fd), k2)
          else bind_run (vfs_open (ports env) p (hvfs (hs k))) (\<lambda>(r, v). case r of
            Inl e \<Rightarrow> err e (set_vfs v k)
          | Inr n \<Rightarrow>
              (let (g, k1) = install HANDLE_VFS (Some n) (set_vfs v k)
               in if g < 0 then err SYSCALL_ENOMEM (close_file n k1)
               else let (fd, k2) = alloc_fd g k1
               in if fd < 0 then err SYSCALL_ENOMEM (close_file n (release g k2)) else Ret (Value (of_int fd), k2))))"

definition sys_close :: "int \<Rightarrow> 'h ksys \<Rightarrow> 'h outcome" where
  "sys_close fd k =
     (let g = sched_get_fd fd (sch k)
      in if g < 0 then err SYSCALL_EBADF k else Ret (Value 0, release g (set_fd fd (-1) k)))"

definition sys_dup2 :: "int \<Rightarrow> int \<Rightarrow> 'h ksys \<Rightarrow> 'h outcome" where
  "sys_dup2 oldfd newfd k =
     (let g = sched_get_fd oldfd (sch k)
      in if g < 0 then err SYSCALL_EBADF k
      else if newfd < 0 \<or> newfd \<ge> 16 then err SYSCALL_EBADF k
      else if oldfd = newfd then Ret (Value (of_int newfd), k)
      else let g' = sched_get_fd newfd (sch k);
               k1 = (if g' \<ge> 0 then release g' (set_fd newfd (-1) k) else k)
      in Ret (Value (of_int newfd), with_h (syscall_acquire_handle g) (set_fd newfd g k1)))"

definition le_int :: "int \<Rightarrow> u8 list" where "le_int i = le_bytes 4 (of_int i)"

definition sys_pipe :: "u64 \<Rightarrow> 'h ksys \<Rightarrow> 'h outcome" where
  "sys_pipe pipefd k =
     (if \<not> user_ok k pipefd 8 then err SYSCALL_EINVAL k
      else case pipe_create (hvfs (hs k)) of
        (None, v) \<Rightarrow> err SYSCALL_ENOMEM (set_vfs v k)
      | (Some (r, w), v) \<Rightarrow>
          (let (h1, k1) = install HANDLE_VFS (Some r) (set_vfs v k)
           in if h1 < 0 then err SYSCALL_ENOMEM (close_file w (close_file r k1))
           else let (h2, k2) = install HANDLE_VFS (Some w) k1
           in if h2 < 0 then err SYSCALL_ENOMEM (close_file w (release h1 k2))
           else let (fd1, k3) = alloc_fd h1 k2; (fd2, k4) = alloc_fd h2 k3
           in if fd1 < 0 \<or> fd2 < 0
              then let k5 = (if fd1 \<ge> 0 then set_fd fd1 (-1) k4 else k4);
                       k6 = (if fd2 \<ge> 0 then set_fd fd2 (-1) k5 else k5)
                   in err SYSCALL_ENOMEM (release h2 (release h1 k6))
              else bind_run (user_store pipefd (le_int fd1 @ le_int fd2) k4) (\<lambda>k5. Ret (Value 0, k5))))"

definition sys_chdir :: "'h kenv \<Rightarrow> u64 \<Rightarrow> 'h ksys \<Rightarrow> 'h outcome" where
  "sys_chdir env path k =
     (case resolve_path path USER_PATH_MAX k of
        None \<Rightarrow> err SYSCALL_EINVAL k
      | Some p \<Rightarrow>
          bind_run (vfs_open (ports env) p (hvfs (hs k))) (\<lambda>(r, v). case r of
             Inl e \<Rightarrow> err e (set_vfs v k)
           | Inr n \<Rightarrow>
               (let k1 = close_file n (set_vfs v k) in Ret (Value 0, k1\<lparr>sch := sched_set_cwd p (sch k1)\<rparr>))))"

definition sys_getcwd :: "u64 \<Rightarrow> u64 \<Rightarrow> 'h ksys \<Rightarrow> 'h outcome" where
  "sys_getcwd buf len k =
     (if buf = 0 \<or> len = 0 then err SYSCALL_EINVAL k
      else if \<not> user_ok k buf len then err SYSCALL_EINVAL k
      else let cwd = sched_get_cwd 256 (sch k)
      in if of_nat (length cwd) \<ge> len then err SYSCALL_ERANGE k
      else bind_run (user_store buf (map of_char cwd @ [0]) k) (\<lambda>k1. Ret (Value 0, k1)))"

text \<open>One round of waiting for a child; after the yield at its end the caller tries again.\<close>

definition wait_round :: "u64 \<Rightarrow> 'h ksys \<Rightarrow> 'h outcome" where
  "wait_round status k =
     bind_run (sched_wait_child (sched_current_pid (sch k)) (sch k)) (\<lambda>(w, s).
        case w of
          Wait_again \<Rightarrow> Ret (Waiting (Wait_child status), k\<lparr>sch := s\<rparr>)
        | No_child \<Rightarrow> err SYSCALL_ENOENT (k\<lparr>sch := s\<rparr>)
        | Reaped p code \<Rightarrow>
            if p < 0 then err SYSCALL_ENOENT (k\<lparr>sch := s\<rparr>)
            else bind_run (if status \<noteq> 0 then user_store status (le_int code) (k\<lparr>sch := s\<rparr>) else Ret (k\<lparr>sch := s\<rparr>))
              (\<lambda>k1. Ret (Value (of_int p), k1)))"

definition sys_wait :: "u64 \<Rightarrow> 'h ksys \<Rightarrow> 'h outcome" where
  "sys_wait status k =
     (if status \<noteq> 0 \<and> \<not> user_ok k status 4 then err SYSCALL_EINVAL k else wait_round status k)"

text \<open>The descriptors that the caller wants the new process to have: their handles are acquired and noted.\<close>

definition take_override :: "u64 \<Rightarrow> nat \<Rightarrow> user_launch \<times> 'h ksys \<Rightarrow> user_launch \<times> 'h ksys" where
  "take_override fd_map i = (\<lambda>(l, k).
     let m = sint (rd32 (umem k) (fd_map + 4 * of_nat i))
     in if m \<ge> 0
        then let g = sched_get_fd m (sch k)
             in if g \<ge> 0 then (l\<lparr>override_fds := (override_fds l)[i := g]\<rparr>, with_h (syscall_acquire_handle g) k) else (l, k)
        else (l, k))"

definition sys_spawn :: "'h kenv \<Rightarrow> u64 \<Rightarrow> u64 \<Rightarrow> u64 \<Rightarrow> u64 \<Rightarrow> 'h ksys \<Rightarrow> 'h outcome" where
  "sys_spawn env path argv envp fd_map k =
     (case resolve_path path USER_PATH_MAX k of
        None \<Rightarrow> err SYSCALL_EINVAL k
      | Some p \<Rightarrow>
          (case sched_new_obj (sch k) of
             (None, s) \<Rightarrow> err SYSCALL_ENOMEM (k\<lparr>sch := s\<rparr>)
           | (Some obj, s) \<Rightarrow>
               (case user_launch_fill p argv envp (k\<lparr>sch := s\<rparr>) of
                  None \<Rightarrow> err SYSCALL_EINVAL (k\<lparr>sch := s\<rparr>)
                | Some l0 \<Rightarrow>
                    (let (l, k1) = (if fd_map \<noteq> 0 \<and> user_ok (k\<lparr>sch := s\<rparr>) fd_map 12
                                    then take_override fd_map 2 (take_override fd_map 1 (take_override fd_map 0 (l0, k\<lparr>sch := s\<rparr>)))
                                    else (l0, k\<lparr>sch := s\<rparr>))
                     in bind_run (sched_create_user syscall_ops (launch_entry env) obj (sched_current_pid (sch k1)) (sch k1))
                          (\<lambda>(r, p2, s2).
                             if r \<noteq> 0 then err SYSCALL_ENOMEM (k1\<lparr>sch := s2\<rparr>)
                             else Ret (Value (of_int p2), k1\<lparr>sch := s2, launches := (launches k1)(obj \<mapsto> l)\<rparr>))))))"

definition sys_exec :: "'h kenv \<Rightarrow> u64 \<Rightarrow> u64 \<Rightarrow> u64 \<Rightarrow> 'h ksys \<Rightarrow> 'h outcome" where
  "sys_exec env path argv envp k =
     (case resolve_path path USER_PATH_MAX k of
        None \<Rightarrow> err SYSCALL_EINVAL k
      | Some p \<Rightarrow>
          (case user_launch_fill p argv envp k of
             None \<Rightarrow> err SYSCALL_EINVAL k
           | Some l \<Rightarrow>
               bind_run (user_prepare_image (root env) (images (hvfs (hs k))) (l_path l) (l_argv l) (l_envp l) (pages k)) (\<lambda>(r, pg).
                 case r of
                   None \<Rightarrow> err SYSCALL_ENOENT (k\<lparr>pages := pg\<rparr>)
                 | Some (space, sp) \<Rightarrow>
                     Ret (Entered (us_entry space) sp (us_pml4 space),
                          k\<lparr>pages := pg, sch := sched_set_current_aspace (us_pml4 space) (sch k)\<rparr>))))"

text \<open>Leaving: the exit code is set and the scheduler goes on with another thread.\<close>

definition user_exit_with_code :: "int \<Rightarrow> 'h ksys \<Rightarrow> 'h outcome" where
  "user_exit_with_code code k =
     bind_run (sched_exit syscall_ops (sched_set_current_exit_code code (sch k))) (\<lambda>s. Ret (Switched, k\<lparr>sch := s\<rparr>))"

text \<open>The two kinds of thread that enter user mode: the first process, and a spawned process with the launch that its
  creator left. The result is where user mode starts, or nothing when the thread function returns.\<close>

definition start_image :: "'h kenv \<Rightarrow> string \<Rightarrow> string list \<Rightarrow> string list \<Rightarrow> int \<Rightarrow> 'h ksys \<Rightarrow>
    ((u64 \<times> u64 \<times> u64) option \<times> 'h ksys) run" where
  "start_image env path argv envp to_kernel k =
     bind_run (user_prepare_image (root env) (images (hvfs (hs k))) path argv envp (pages k)) (\<lambda>(r, pg).
       case r of
         None \<Rightarrow> Ret (None, k\<lparr>pages := pg\<rparr>)
       | Some (space, sp) \<Rightarrow>
           Ret (Some (us_entry space, sp, us_pml4 space),
                k\<lparr>pages := pg, sch := sched_set_current_exit_to_kernel to_kernel (sched_set_current_aspace (us_pml4 space) (sch k))\<rparr>))"

definition user_smoke_thread :: "'h kenv \<Rightarrow> 'h ksys \<Rightarrow> ((u64 \<times> u64 \<times> u64) option \<times> 'h ksys) run" where
  "user_smoke_thread env k = start_image env ''/bin/init'' [''/bin/init''] [''TERM=neptune'', ''USER=guest''] 1 k"

definition user_launch_thread :: "'h kenv \<Rightarrow> nat \<Rightarrow> 'h ksys \<Rightarrow> ((u64 \<times> u64 \<times> u64) option \<times> 'h ksys) run" where
  "user_launch_thread env obj k =
     (case launches k obj of
        None \<Rightarrow> Ret (None, k)
      | Some l \<Rightarrow>
          bind_run (start_image env (l_path l) (l_argv l) (l_envp l) 0 k) (\<lambda>(r, k1).
            Ret (r, k1\<lparr>launches := (launches k1)(obj := None)\<rparr>)))"

text \<open>The dispatcher: the switch over the call number, and the whole function with the first-time set-up.\<close>

definition syscall_switch :: "'h kenv \<Rightarrow> syscall_regs \<Rightarrow> 'h ksys \<Rightarrow> 'h outcome" where
  "syscall_switch env r k =
     (let num = rax r
      in if num = 1 then user_exit_with_code (int_of_reg (rdi r)) k
      else if num = 2 then bind_run (sched_yield (sch k)) (\<lambda>s. Ret (Value 0, k\<lparr>sch := s\<rparr>))
      else if num = 3 then sys_read env (int_of_reg (rdi r)) (rsi r) (rdx r) k
      else if num = 4 then sys_write env (int_of_reg (rdi r)) (rsi r) (rdx r) k
      else if num = 5 then sys_open env (rdi r) k
      else if num = 6 then sys_close (int_of_reg (rdi r)) k
      else if num = 7 then sys_spawn env (rdi r) (rsi r) (rdx r) (r10 r) k
      else if num = 8 then sys_exec env (rdi r) (rsi r) (rdx r) k
      else if num = 9 then Ret (Value (of_int (sched_current_pid (sch k))), k)
      else if num = 10 then sys_wait (rdi r) k
      else if num = 11 then sys_dup2 (int_of_reg (rdi r)) (int_of_reg (rsi r)) k
      else if num = 12 then sys_pipe (rdi r) k
      else if num = 13 then sys_chdir env (rdi r) k
      else if num = 14 then sys_getcwd (rdi r) (rsi r) k
      else err SYSCALL_EINVAL k)"

definition syscall_handle :: "'h kenv \<Rightarrow> syscall_regs \<Rightarrow> 'h ksys \<Rightarrow> 'h outcome" where
  "syscall_handle env r k = syscall_switch env r (if \<not> handles_ready (hs k) then with_h handles_init k else k)"

text \<open>A waiting call goes on when its process runs again.\<close>

definition sys_resume :: "pending \<Rightarrow> 'h ksys \<Rightarrow> 'h outcome" where
  "sys_resume p k =
     (case p of
        Read_tty buf len bs old \<Rightarrow> bind_run (tty_resume len bs old (ktty k)) (\<lambda>r. tty_result buf len r k)
      | Read_pipe buf q c \<Rightarrow> (let (io, v) = vfs_resume q c (hvfs (hs k)) in read_result buf io (set_vfs v k))
      | Write_pipe q c \<Rightarrow> (let (io, v) = vfs_resume q c (hvfs (hs k)) in write_result io (set_vfs v k))
      | Wait_child status \<Rightarrow> wait_round status k)"

end
