(* ===== verification/Syscall_Inv.thy ===== *)
theory Syscall_Inv
  imports Syscall
begin

text \<open>
  What system calls guarantee: the kernel changes user memory only where the caller may access it.
\<close>

section \<open>Stores to user memory\<close>

lemma user_store_Ret: "user_store a bs k = Ret k' \<Longrightarrow> k' = k\<lparr>umem := wr_bytes (umem k) a bs\<rparr>"
  by (simp add: user_store_def split: option.splits)

lemma wr_bytes_change: "wr_bytes m a bs x \<noteq> m x \<Longrightarrow> \<exists>i<length bs. x = a + of_nat i"
  using wr_bytes_other by blast

text \<open>The addresses that differ are addresses of the caller.\<close>

definition only_user :: "'h ksys \<Rightarrow> 'h ksys \<Rightarrow> bool" where
  "only_user k k' \<longleftrightarrow> (\<forall>x. umem k' x \<noteq> umem k x \<longrightarrow> user_page_present (pages k) (kaspace k) x)"

lemma only_user_same: "umem k' = umem k \<Longrightarrow> only_user k k'"
  by (simp add: only_user_def)

lemma only_user_store:
  assumes ok: "user_ok k a len" and l: "length bs \<le> unat len"
    and k1: "umem k1 = umem k" and st: "user_store a bs k1 = Ret k'"
  shows "only_user k k'"
  unfolding only_user_def
proof (intro allI impI)
  fix x
  assume "umem k' x \<noteq> umem k x"
  then obtain i where i: "i < length bs" "x = a + of_nat i"
    using user_store_Ret [OF st] k1 wr_bytes_change [of "umem k" a bs x] by auto
  have r: "unat a + unat len \<le> unat USER_STACK_TOP"
    "\<And>y. a \<le> y \<and> unat y < unat a + unat len \<longrightarrow> user_page_present (pages k) (kaspace k) y"
    using ok unfolding user_ok_def user_ptr_range_char by blast+
  have t: "unat USER_STACK_TOP < 2 ^ 64" using unat_lt_64 [of USER_STACK_TOP] by simp
  have "unat (of_nat i :: u64) = i" using i(1) l r(1) t by (intro unat_of_nat_small) simp
  then have "unat x = unat a + i" unfolding i(2) using i(1) l r(1) t by (subst unat_add_no_wrap) simp_all
  then show "user_page_present (pages k) (kaspace k) x" using r(2) [of x] i(1) l by (simp add: word_le_nat_alt)
qed

lemma umem_simps [simp]:
  "umem (with_h g k) = umem k" "umem (set_vfs v k) = umem k" "umem (release g' k) = umem k" "umem (close_file n k) = umem k"
  "umem (set_fd fd g' k) = umem k" "umem (snd (alloc_fd g' k)) = umem k" "umem (snd (install ty fl k)) = umem k"
  by (simp_all add: with_h_def set_vfs_def release_def close_file_def set_fd_def alloc_fd_def install_def split: prod.splits)

lemma umem_pairs:
  "alloc_fd g k = (fd, k') \<Longrightarrow> umem k' = umem k" "install ty fl k = (g, k') \<Longrightarrow> umem k' = umem k"
  using umem_simps(6) [of g k] umem_simps(7) [of ty fl k] by simp_all

text \<open>Reads deliver at most as many bytes as asked for.\<close>

lemma pipe_drain_length: "length (fst (pipe_drain n p)) \<le> n"
  by (induction n p rule: pipe_drain.induct) (auto simp: Let_def split: prod.splits)

lemma memfs_read_length: "length (memfs_read f off len) \<le> unat len"
  by (auto simp: memfs_read_def Let_def word_less_nat_alt)

lemma ramfs_read_length: "length (fst (ramfs_read f off len)) \<le> unat len"
  by (auto simp: ramfs_read_def Let_def word_less_nat_alt)

lemma vfs_read_length:
  assumes r: "vfs_read P n len v = Ret (Io r bs, v')" shows "length bs \<le> unat len"
proof -
  have p: "length bs \<le> unat len" if "pipe_read_impl len pp = (Done r bs, pp')" for pp pp'
    using that pipe_drain_length [of "unat len" pp]
    by (auto simp: pipe_read_impl_def Let_def split: prod.splits if_splits)
  show ?thesis
  proof (cases "files v n")
    case None
    then show ?thesis using r by (simp add: vfs_read_def)
  next
    case (Some f)
    show ?thesis
    proof (cases "backend f")
      case VFS_BACKEND_MEMFS
      then show ?thesis using r Some memfs_read_length
        by (auto simp: vfs_read_def Let_def split: if_splits option.splits)
    next
      case VFS_BACKEND_RAMFS
      then show ?thesis using r Some ramfs_read_length [of _ "offset f" len]
        by (auto simp: vfs_read_def Let_def split: if_splits option.splits prod.splits) (metis fst_conv)
    next
      case VFS_BACKEND_LIST
      then show ?thesis using r Some by (cases "listing P f v") (auto simp: vfs_read_def Let_def split: if_splits)
    next
      case VFS_BACKEND_FAT
      then show ?thesis using r Some
        by (auto simp: vfs_read_def run_simps dest: fat_read_length split: if_splits option.splits)
    next
      case VFS_BACKEND_PIPE
      then show ?thesis using r Some p
        by (auto simp: vfs_read_def split: if_splits option.splits prod.splits pipe_call.splits)
    qed
  qed
qed

lemma tty_read_length:
  assumes "tty_ok t" "tty_read len t = Ret (bs, old, fin, t')" shows "length (bs @ old) \<le> unat len"
  using tty_read_edits [OF assms(1), of len] assms(2) by auto

lemma tty_resume_length:
  assumes "tty_ok t" "length (bs0 @ old0) \<le> unat len" "tty_resume len bs0 old0 t = Ret (bs, old, fin, t')"
  shows "length (bs @ old) \<le> unat len"
  using tty_resume_edits [OF assms(1), of bs0 old0 len] assms(2,3) by auto

lemma vfs_resume_length:
  assumes "vfs_resume p (Read_call len) v = (Io r bs, v')" shows "length bs \<le> unat len"
  using assms pipe_drain_length [of "unat len"]
  by (auto simp: vfs_resume_def pipe_read_impl_def Let_def split: option.splits prod.splits if_splits pipe_call.splits)
    (metis fst_conv)+

text \<open>What a waiting call keeps: the buffer it will go on to write was checked, and it will write no more
  than was checked.\<close>

definition pending_ok :: "'h ksys \<Rightarrow> pending \<Rightarrow> bool" where
  "pending_ok k p =
     (case p of
        Read_tty buf len bs old \<Rightarrow> user_ok k buf len \<and> length (bs @ old) \<le> unat len
      | Read_pipe buf q c \<Rightarrow> (case c of Read_call len \<Rightarrow> user_ok k buf len | _ \<Rightarrow> False)
      | Write_pipe q c \<Rightarrow> True
      | Wait_child status \<Rightarrow> status \<noteq> 0 \<longrightarrow> user_ok k status 4)"

definition res_ok :: "'h ksys \<Rightarrow> sys_result \<Rightarrow> bool" where
  "res_ok k res = (case res of Waiting p \<Rightarrow> pending_ok k p | _ \<Rightarrow> True)"

text \<open>One stretch of a call: only memory of the caller changes, and what it keeps is in order.\<close>

definition stretch_ok :: "'h ksys \<Rightarrow> sys_result \<Rightarrow> 'h ksys \<Rightarrow> bool" where
  "stretch_ok k res k' \<longleftrightarrow> only_user k k' \<and> res_ok k res"

lemma stretch_same: "umem k' = umem k \<Longrightarrow> stretch_ok k (Value v) k'"
  by (simp add: stretch_ok_def res_ok_def only_user_same)

lemma err_stretch: "err e k1 = Ret (res, k') \<Longrightarrow> umem k1 = umem k \<Longrightarrow> stretch_ok k res k'"
  by (auto simp: err_def intro: stretch_same)

lemma tty_result_ok:
  assumes ok: "user_ok k buf len" and l: "length (bs @ old) \<le> unat len"
    and r: "tty_result buf len (bs, old, fin, t) k = Ret (res, k')"
  shows "stretch_ok k res k'"
proof -
  have "user_store buf (bs @ old) (k\<lparr>ktty := t\<rparr>) = Ret k'"
    and res: "res = (if fin then Value (of_nat (length bs)) else Waiting (Read_tty buf len bs old))"
    using r by (auto simp: tty_result_def run_simps)
  then have "only_user k k'" using only_user_store [OF ok l, of "k\<lparr>ktty := t\<rparr>"] by simp
  then show ?thesis using ok l by (simp add: stretch_ok_def res_ok_def pending_ok_def res)
qed

lemma read_result_ok:
  assumes ok: "user_ok k buf len" and u: "umem k1 = umem k"
    and l: "\<And>r bs. io = Io r bs \<Longrightarrow> length bs \<le> unat len" and b: "\<And>p c. io = Blocked p c \<Longrightarrow> c = Read_call len"
    and r: "read_result buf io k1 = Ret (res, k')"
  shows "stretch_ok k res k'"
proof (cases io)
  case (Io n bs)
  then obtain k2 where st: "user_store buf bs k1 = Ret k2" and v: "\<exists>v. res = Value v" "k' = k2"
    using r by (auto simp: read_result_def run_simps err_def split: if_splits)
  show ?thesis using only_user_store [OF ok l [OF Io] u st] v by (auto simp: stretch_ok_def res_ok_def)
next
  case (Blocked p c)
  then show ?thesis using r u b [OF Blocked] ok
    by (auto simp: read_result_def stretch_ok_def res_ok_def pending_ok_def intro: only_user_same)
qed

lemma write_result_ok:
  assumes "write_result io k1 = Ret (res, k')" "umem k1 = umem k" shows "stretch_ok k res k'"
  using assms by (cases io)
    (auto simp: write_result_def err_def stretch_ok_def res_ok_def pending_ok_def intro: only_user_same split: if_splits)

lemma vfs_read_blocked: "vfs_read P n len v = Ret (Blocked p c, v') \<Longrightarrow> c = Read_call len"
proof -
  assume r: "vfs_read P n len v = Ret (Blocked p c, v')"
  show ?thesis
  proof (cases "files v n")
    case (Some f)
    have "c = Read_call len" if "pipe_read_impl len pp = (c, pp')" "\<nexists>r out. c = Done r out" for pp pp'
      using that by (auto simp: pipe_read_impl_def Let_def split: if_splits prod.splits)
    note p = this
    show ?thesis
    proof (cases "backend f")
      case VFS_BACKEND_PIPE
      then obtain q pp pp' where "pipes v q = Some pp" "pipe_read_impl len pp = (c, pp')" "\<nexists>r out. c = Done r out"
        using r Some by (auto simp: vfs_read_def split: if_splits option.splits prod.splits pipe_call.splits)
      then show ?thesis using p by blast
    next
      case VFS_BACKEND_LIST
      then show ?thesis using r Some by (cases "listing P f v") (auto simp: vfs_read_def Let_def split: if_splits)
    qed (use r Some in \<open>auto simp: vfs_read_def Let_def run_simps split: if_splits option.splits prod.splits\<close>)
  qed (use r in \<open>simp add: vfs_read_def\<close>)
qed

lemma vfs_resume_blocked:
  assumes "vfs_resume q (Read_call len) v = (Blocked p c, v')" shows "c = Read_call len"
  using assms by (auto simp: vfs_resume_def pipe_read_impl_def Let_def
      split: option.splits prod.splits if_splits pipe_call.splits)

lemma sys_read_ok:
  assumes "tty_ok (ktty k)" "sys_read env fd buf len k = Ret (res, k')"
  shows "stretch_ok k res k'"
proof (cases "buf = 0 \<or> len = 0 \<or> \<not> user_ok k buf len \<or> sched_get_fd fd (sch k) < 0")
  case True
  then show ?thesis using assms(2) unfolding sys_read_def Let_def err_def
    by (elim disjE) (auto intro: stretch_same split: if_split_asm)
next
  case False
  then have ok: "user_ok k buf len" by simp
  let ?h = "htab (hs k) ! nat (sched_get_fd fd (sch k))"
  show ?thesis
  proof (cases "htype ?h")
    case HANDLE_FREE
    then show ?thesis using assms(2) False by (auto simp: sys_read_def err_def Let_def intro: stretch_same)
  next
    case HANDLE_TTY
    then obtain bs old fin t where t: "tty_read len (ktty k) = Ret (bs, old, fin, t)" and
      r: "tty_result buf len (bs, old, fin, t) k = Ret (res, k')"
      using assms(2) False by (auto simp: sys_read_def Let_def run_simps)
    show ?thesis by (rule tty_result_ok [OF ok tty_read_length [OF assms(1) t] r])
  next
    case HANDLE_VFS
    show ?thesis
    proof (cases "hfile ?h")
      case None
      then show ?thesis using HANDLE_VFS assms(2) False by (auto simp: sys_read_def err_def Let_def intro: stretch_same)
    next
      case (Some n)
      then obtain io v where v: "vfs_read (ports env) n len (hvfs (hs k)) = Ret (io, v)"
        and r: "read_result buf io (set_vfs v k) = Ret (res, k')"
        using HANDLE_VFS assms(2) False by (auto simp: sys_read_def Let_def run_simps)
      show ?thesis
        by (rule read_result_ok [OF ok _ _ _ r]) (use v vfs_read_length vfs_read_blocked in auto)
    qed
  qed
qed

lemma sys_pipe_only_user: "sys_pipe fdp k = Ret (res, k') \<Longrightarrow> only_user k k'"
proof -
  assume r: "sys_pipe fdp k = Ret (res, k')"
  show ?thesis
  proof (cases "user_ok k fdp 8")
    case ok: True
    have "umem k' = umem k \<or> (\<exists>k4 bs. umem k4 = umem k \<and> length bs = 8 \<and> user_store fdp bs k4 = Ret k')"
    proof (cases "pipe_create (hvfs (hs k))")
      case (Pair o1 v)
      show ?thesis
      proof (cases o1)
        case None
        then show ?thesis using r ok Pair by (auto simp: sys_pipe_def err_def)
      next
        case (Some rw)
        obtain r1 w1 where rw: "rw = (r1, w1)" by fastforce
        obtain h1 k1 where 1: "install HANDLE_VFS (Some r1) (set_vfs v k) = (h1, k1)" by fastforce
        obtain h2 k2 where 2: "install HANDLE_VFS (Some w1) k1 = (h2, k2)" by fastforce
        obtain fd1 k3 where 3: "alloc_fd h1 k2 = (fd1, k3)" by fastforce
        obtain fd2 k4 where 4: "alloc_fd h2 k3 = (fd2, k4)" by fastforce
        have u: "umem k1 = umem k" "umem k2 = umem k" "umem k4 = umem k"
          using umem_pairs(2) [OF 1] umem_pairs(2) [OF 2] umem_pairs(1) [OF 3] umem_pairs(1) [OF 4] by simp_all
        have l: "length (le_int fd1 @ le_int fd2) = 8" by (simp add: le_int_def)
        show ?thesis using r ok Pair Some rw u l
          by (auto simp: sys_pipe_def 1 2 3 4 err_def Let_def run_simps simp del: length_append split: if_splits)
      qed
    qed
    moreover have "only_user k k'" if "umem k4 = umem k" "length bs = 8" "user_store fdp bs k4 = Ret k'" for k4 bs
      by (rule only_user_store [OF ok _ that(1,3)]) (simp add: that(2))
    ultimately show ?thesis using only_user_same by blast
  qed (use r in \<open>auto simp: sys_pipe_def err_def intro: only_user_same\<close>)
qed

lemma sys_getcwd_only_user:
  assumes "sys_getcwd buf len k = Ret (res, k')" shows "only_user k k'"
proof (cases "user_ok k buf len \<and> \<not> of_nat (length (sched_get_cwd 256 (sch k))) \<ge> len")
  case True
  let ?c = "sched_get_cwd 256 (sch k)"
  have "length ?c \<le> 255" by (auto simp: sched_get_cwd_def split: option.splits)
  then have "unat (of_nat (length ?c) :: u64) = length ?c" by (intro unat_of_nat_small) simp
  then have l: "length (map of_char ?c @ [0] :: u8 list) \<le> unat len" using True by (simp add: word_less_nat_alt not_le)
  have "umem k' = umem k \<or> user_store buf (map of_char ?c @ [0]) k = Ret k'"
    using assms True by (auto simp: sys_getcwd_def err_def Let_def run_simps split: if_splits)
  then show ?thesis using only_user_store [of k buf len "map of_char ?c @ [0]" k k'] True l by (auto intro: only_user_same)
qed (use assms in \<open>auto simp: sys_getcwd_def err_def Let_def intro: only_user_same split: if_splits\<close>)

lemma wait_round_ok:
  assumes ok: "status \<noteq> 0 \<longrightarrow> user_ok k status 4" and r: "wait_round status k = Ret (res, k')"
  shows "stretch_ok k res k'"
proof -
  obtain w s where w: "sched_wait_child (sched_current_pid (sch k)) (sch k) = Ret (w, s)"
    using r by (auto simp: wait_round_def run_simps)
  show ?thesis
  proof (cases w)
    case (Reaped p code)
    have st: "only_user k k1" if "user_store status (le_int code) (k\<lparr>sch := s\<rparr>) = Ret k1" "status \<noteq> 0" for k1
      by (rule only_user_store [OF ok [rule_format, OF that(2)] _ _ that(1)]) (simp_all add: le_int_def)
    show ?thesis using r w Reaped st
      by (auto simp: wait_round_def err_def run_simps stretch_ok_def res_ok_def intro: only_user_same split: if_splits)
  next
    case No_child
    then show ?thesis using r w by (auto simp: wait_round_def err_def intro: stretch_same)
  next
    case Wait_again
    then show ?thesis using r w ok
      by (auto simp: wait_round_def stretch_ok_def res_ok_def pending_ok_def intro: only_user_same)
  qed
qed

lemma sys_wait_ok: "sys_wait status k = Ret (res, k') \<Longrightarrow> stretch_ok k res k'"
  using wait_round_ok [of status k res k'] by (auto simp: sys_wait_def err_def intro: stretch_same split: if_splits)

text \<open>A call that waited goes on.\<close>

lemma sys_resume_ok:
  assumes t: "tty_ok (ktty k)" and p: "pending_ok k p" and r: "sys_resume p k = Ret (res, k')"
  shows "stretch_ok k res k'"
proof (cases p)
  case (Read_tty buf len bs0 old0)
  then obtain bs old fin t where t': "tty_resume len bs0 old0 (ktty k) = Ret (bs, old, fin, t)" and
    r': "tty_result buf len (bs, old, fin, t) k = Ret (res, k')"
    using r by (auto simp: sys_resume_def run_simps)
  have ok: "user_ok k buf len" "length (bs0 @ old0) \<le> unat len" using p Read_tty by (simp_all add: pending_ok_def)
  show ?thesis by (rule tty_result_ok [OF ok(1) tty_resume_length [OF t ok(2) t'] r'])
next
  case (Read_pipe buf q c)
  then obtain len where c: "c = Read_call len" and ok: "user_ok k buf len"
    using p by (cases c) (auto simp: pending_ok_def)
  obtain io v where v: "vfs_resume q (Read_call len) (hvfs (hs k)) = (io, v)" by fastforce
  then have "read_result buf io (set_vfs v k) = Ret (res, k')" using r Read_pipe c by (simp add: sys_resume_def)
  then show ?thesis
    by (rule read_result_ok [OF ok, rotated -1]) (use v vfs_resume_length vfs_resume_blocked in auto)
next
  case (Write_pipe q c)
  obtain io v where v: "vfs_resume q c (hvfs (hs k)) = (io, v)" by fastforce
  then have "write_result io (set_vfs v k) = Ret (res, k')" using r Write_pipe by (simp add: sys_resume_def)
  then show ?thesis by (rule write_result_ok) simp
next
  case (Wait_child status)
  then show ?thesis using p r wait_round_ok [of status k res k'] by (simp add: sys_resume_def pending_ok_def)
qed

lemma sys_write_ok:
  assumes "sys_write env fd buf len k = Ret (res, k')" shows "stretch_ok k res k'"
proof -
  let ?g = "sched_get_fd fd (sch k)" and ?bs = "rd_bytes (umem k) buf (unat len)"
  let ?h = "htab (hs k) ! nat ?g"
  show ?thesis
  proof (cases "?g < 0 \<or> htype ?h \<noteq> HANDLE_VFS \<or> \<not> user_ok k buf len \<or> hfile ?h = None")
    case True
    then show ?thesis using assms
      by (auto simp: sys_write_def err_def Let_def intro: stretch_same
          split: if_splits handle_type.splits option.splits prod.splits)
  next
    case False
    then obtain n where n: "hfile ?h = Some n" by auto
    then obtain io v where io: "vfs_write (rmem env) (ports env) n ?bs (hvfs (hs k)) = Ret (io, v)"
      using assms False by (auto simp: sys_write_def Let_def run_simps)
    have "write_result io (set_vfs v k) = Ret (res, k')" using assms False n io by (auto simp: sys_write_def Let_def)
    then show ?thesis by (rule write_result_ok) simp
  qed
qed

text \<open>The other calls leave user memory alone and never wait.\<close>

definition waits :: "sys_result \<Rightarrow> bool" where
  "waits res = (case res of Waiting p \<Rightarrow> True | _ \<Rightarrow> False)"

lemma waits_simps [simp]: "\<not> waits (Value v)" "\<not> waits Switched" "\<not> waits (Entered e sp a)"
  by (simp_all add: waits_def)

lemma sys_open_quiet:
  assumes "sys_open env path k = Ret (res, k')" shows "umem k' = umem k \<and> \<not> waits res"
proof (cases "resolve_path path USER_PATH_MAX k")
  case None
  then show ?thesis using assms by (auto simp: sys_open_def err_def)
next
  case (Some p)
  show ?thesis
  proof (cases "streq p ''/dev/tty'' \<or> streq p ''/dev/console''")
    case True
    obtain g1 k1 where 1: "install HANDLE_TTY None k = (g1, k1)" by fastforce
    obtain fd2 k2 where 2: "alloc_fd g1 k1 = (fd2, k2)" by fastforce
    have "umem k1 = umem k" "umem k2 = umem k" using umem_pairs(2) [OF 1] umem_pairs(1) [OF 2] by simp_all
    then show ?thesis using True assms Some by (auto simp: sys_open_def 1 2 err_def split: if_splits)
  next
    case False
    then obtain e v where v: "vfs_open (ports env) p (hvfs (hs k)) = Ret (e, v)"
      using assms Some by (auto simp: sys_open_def run_simps)
    show ?thesis
    proof (cases e)
      case (Inl a)
      then show ?thesis using assms Some v False by (auto simp: sys_open_def err_def)
    next
      case (Inr n)
      obtain g3 k3 where 3: "install HANDLE_VFS (Some n) (set_vfs v k) = (g3, k3)" by fastforce
      obtain fd4 k4 where 4: "alloc_fd g3 k3 = (fd4, k4)" by fastforce
      have "umem k3 = umem k" "umem k4 = umem k" using umem_pairs(2) [OF 3] umem_pairs(1) [OF 4] by simp_all
      then show ?thesis using Inr assms Some v False by (auto simp: sys_open_def 3 4 err_def split: if_splits)
    qed
  qed
qed

lemma sys_close_umem: "sys_close fd k = Ret (res, k') \<Longrightarrow> umem k' = umem k"
  by (auto simp: sys_close_def err_def Let_def split: if_splits)

lemma sys_dup2_umem: "sys_dup2 a b k = Ret (res, k') \<Longrightarrow> umem k' = umem k"
  by (auto simp: sys_dup2_def err_def Let_def split: if_splits)

lemma sys_chdir_quiet: "sys_chdir env path k = Ret (res, k') \<Longrightarrow> umem k' = umem k \<and> \<not> waits res"
proof -
  assume r: "sys_chdir env path k = Ret (res, k')"
  show ?thesis
  proof (cases "resolve_path path USER_PATH_MAX k")
    case None
    then show ?thesis using r by (auto simp: sys_chdir_def err_def)
  next
    case (Some p)
    then obtain e v where v: "vfs_open (ports env) p (hvfs (hs k)) = Ret (e, v)" using r by (auto simp: sys_chdir_def run_simps)
    then show ?thesis using r Some by (cases e) (auto simp: sys_chdir_def err_def Let_def)
  qed
qed

lemma take_override_umem: "take_override fd_map i lk = (l', k') \<Longrightarrow> umem k' = umem (snd lk)"
  by (auto simp: take_override_def Let_def split: prod.splits if_splits)

lemma sys_spawn_umem:
  assumes "sys_spawn env path argv envp fd_map k = Ret (res, k')" shows "umem k' = umem k"
proof (cases "resolve_path path USER_PATH_MAX k")
  case None
  then show ?thesis using assms by (simp add: sys_spawn_def err_def)
next
  case (Some p)
  obtain o1 s where o1: "sched_new_obj (sch k) = (o1, s)" by fastforce
  let ?k = "k\<lparr>sch := s\<rparr>"
  show ?thesis
  proof (cases "o1 = None \<or> user_launch_fill p argv envp ?k = None")
    case True
    then show ?thesis using assms Some o1 by (auto simp: sys_spawn_def err_def split: option.splits)
  next
    case False
    then obtain obj l0 where f: "o1 = Some obj" "user_launch_fill p argv envp ?k = Some l0" by auto
    obtain l k1 where k1: "(if fd_map \<noteq> 0 \<and> user_ok ?k fd_map 12
        then take_override fd_map 2 (take_override fd_map 1 (take_override fd_map 0 (l0, ?k))) else (l0, ?k)) = (l, k1)" by fastforce
    have "umem k1 = umem k"
      using k1 take_override_umem [of fd_map 2 _ l k1] take_override_umem [of fd_map 1] take_override_umem [of fd_map 0]
      by (metis (no_types, lifting) Pair_inject prod.collapse snd_conv ksys.ext_inject ksys.surjective ksys.update_convs(1))
    then show ?thesis using assms Some o1 f unfolding sys_spawn_def
      by (auto simp: k1 err_def run_simps Let_def split: prod.splits if_splits)
  qed
qed

lemma sys_exec_umem: "sys_exec env path argv envp k = Ret (res, k') \<Longrightarrow> umem k' = umem k"
  by (auto simp: sys_exec_def err_def run_simps split: option.splits prod.splits)

lemma exit_umem: "user_exit_with_code c k = Ret (res, k') \<Longrightarrow> umem k' = umem k"
  by (auto simp: user_exit_with_code_def run_simps)

lemma no_wait:
  "sys_getcwd buf n k = Ret (res, k') \<Longrightarrow> \<not> waits res" "sys_pipe a k = Ret (res, k') \<Longrightarrow> \<not> waits res"
  "sys_close fd k = Ret (res, k') \<Longrightarrow> \<not> waits res"
  "sys_dup2 a' b k = Ret (res, k') \<Longrightarrow> \<not> waits res"
  "sys_exec env path argv envp k = Ret (res, k') \<Longrightarrow> \<not> waits res"
  "user_exit_with_code c k = Ret (res, k') \<Longrightarrow> \<not> waits res"
  "sys_spawn env path argv envp fd_map k = Ret (res, k') \<Longrightarrow> \<not> waits res"
  subgoal by (auto simp: sys_getcwd_def err_def run_simps Let_def split: if_splits)
  subgoal by (auto simp: sys_pipe_def err_def run_simps Let_def split: if_splits option.splits prod.splits sum.splits)
  subgoal by (auto simp: sys_close_def err_def Let_def split: if_splits)
  subgoal by (auto simp: sys_dup2_def err_def Let_def split: if_splits)
  subgoal by (auto simp: sys_exec_def err_def run_simps split: option.splits prod.splits)
  subgoal by (auto simp: user_exit_with_code_def run_simps)
  subgoal unfolding sys_spawn_def
    by (auto simp: err_def run_simps Let_def split: option.splits prod.splits if_split_asm)
  done

lemma stretchI: "only_user k k' \<Longrightarrow> \<not> waits res \<Longrightarrow> stretch_ok k res k'"
  by (cases res) (auto simp: stretch_ok_def res_ok_def waits_def)

lemma other_calls_ok:
  "sys_getcwd buf n k = Ret (res, k') \<Longrightarrow> stretch_ok k res k'" "sys_pipe a k = Ret (res, k') \<Longrightarrow> stretch_ok k res k'"
  "sys_open env path k = Ret (res, k') \<Longrightarrow> stretch_ok k res k'" "sys_close fd k = Ret (res, k') \<Longrightarrow> stretch_ok k res k'"
  "sys_dup2 a' b k = Ret (res, k') \<Longrightarrow> stretch_ok k res k'"
  "sys_chdir env path k = Ret (res, k') \<Longrightarrow> stretch_ok k res k'"
  "sys_exec env path argv envp k = Ret (res, k') \<Longrightarrow> stretch_ok k res k'"
  "user_exit_with_code c k = Ret (res, k') \<Longrightarrow> stretch_ok k res k'"
  "sys_spawn env path argv envp fd_map k = Ret (res, k') \<Longrightarrow> stretch_ok k res k'"
  by (intro stretchI; (erule no_wait | (drule sys_open_quiet sys_chdir_quiet, simp add: only_user_same) | erule sys_getcwd_only_user sys_pipe_only_user |
        (rule only_user_same, erule sys_close_umem sys_dup2_umem sys_exec_umem exit_umem
           sys_spawn_umem)))+

lemma with_h_access [simp]: "pages (with_h g k) = pages k" "kaspace (with_h g k) = kaspace k" "ktty (with_h g k) = ktty k"
  by (simp_all add: with_h_def kaspace_def sched_current_aspace_def th_def split: option.splits)

lemma stretch_with_h: "stretch_ok (with_h g k) res k' = stretch_ok k res k'"
  by (simp add: stretch_ok_def only_user_def res_ok_def pending_ok_def user_ok_def cong: sys_result.case_cong pending.case_cong pipe_call.case_cong)

lemma syscall_switch_ok:
  assumes t: "tty_ok (ktty k)" and r: "syscall_switch env r k = Ret (res, k')"
  shows "stretch_ok k res k'"
  using r unfolding syscall_switch_def err_def Let_def
  by (auto simp: run_simps intro: stretch_same sys_read_ok [OF t] sys_wait_ok sys_write_ok other_calls_ok split: if_split_asm)

lemma syscall_handle_ok:
  assumes t: "tty_ok (ktty k)" and r: "syscall_handle env r k = Ret (res, k')"
  shows "stretch_ok k res k'"
proof -
  have "stretch_ok (if \<not> handles_ready (hs k) then with_h handles_init k else k) res k'"
    using r t by (intro syscall_switch_ok) (simp_all add: syscall_handle_def split: if_splits)
  then show ?thesis by (simp add: stretch_with_h split: if_splits)
qed

text \<open>A whole call, as the stretches from its start or from a wake-up to its next wait or its end, the last one first;
  each is the state before it and the state after it. While the call waits, other threads and the keyboard change the
  state; they leave the pages that the waiting process may access mapped.\<close>

definition keeps_access :: "'h ksys \<Rightarrow> 'h ksys \<Rightarrow> bool" where
  "keeps_access k k1 \<longleftrightarrow>
     (\<forall>x. user_page_present (pages k) (kaspace k) x \<longrightarrow> user_page_present (pages k1) (kaspace k1) x)"

inductive syscall_run :: "'h kenv \<Rightarrow> syscall_regs \<Rightarrow> ('h ksys \<times> 'h ksys) list \<Rightarrow> sys_result \<Rightarrow> bool" for env r where
  start: "tty_ok (ktty k) \<Longrightarrow> syscall_handle env r k = Ret (res, k') \<Longrightarrow> syscall_run env r [(k, k')] res"
| resume: "syscall_run env r ((k, k') # segs) (Waiting p) \<Longrightarrow> keeps_access k k1 \<Longrightarrow> tty_ok (ktty k1) \<Longrightarrow>
    sys_resume p k1 = Ret (res, k2) \<Longrightarrow> syscall_run env r ((k1, k2) # (k, k') # segs) res"

lemma user_ok_keeps: "keeps_access k k1 \<Longrightarrow> user_ok k a n \<Longrightarrow> user_ok k1 a n"
  unfolding user_ok_def user_ptr_range_char keeps_access_def by blast

lemma pending_ok_keeps: "keeps_access k k1 \<Longrightarrow> pending_ok k p \<Longrightarrow> pending_ok k1 p"
  by (auto simp: pending_ok_def intro: user_ok_keeps split: pending.splits pipe_call.splits)

lemma syscall_run_ok:
  assumes "syscall_run env r segs res"
  shows "res_ok (fst (hd segs)) res \<and> (\<forall>(k, k') \<in> set segs. only_user k k')"
  using assms
proof induction
  case (start k res k')
  then show ?case using syscall_handle_ok [OF start] by (simp add: stretch_ok_def)
next
  case (resume k k' segs p k1 res k2)
  have "pending_ok k1 p" using resume.IH resume.hyps(2) by (auto simp: res_ok_def intro: pending_ok_keeps)
  then show ?case using sys_resume_ok [OF resume.hyps(3) _ resume.hyps(4)] resume.IH by (simp add: stretch_ok_def)
qed

text \<open>(C2) System calls write user memory only where the caller may access it. Whatever the call and its
  arguments, and however often it waits and goes on, each byte of memory that differs after a stretch of the call is
  at an address that the page tables of the calling process map for user code.\<close>

theorem syscall_writes_only_user:
  assumes "syscall_run env r segs res" and "(k, k') \<in> set segs"
  shows "\<forall>x. umem k' x \<noteq> umem k x \<longrightarrow> user_page_present (pages k) (kaspace k) x"
  using syscall_run_ok [OF assms(1)] assms(2) by (auto simp: only_user_def)

text \<open>A process whose one page of user memory is at 0x400000 reads a line from the terminal before anything was
  typed. The call waits; it goes on after h, x, backspace, i and return were typed.\<close>

definition demo_env :: "unit kenv" where
  "demo_env = \<lparr>ports = ready_disk, rmem = (\<lambda>_. True), root = 0x200000, launch_entry = 1\<rparr>"

definition demo_ksys :: "unit ksys" where
  "demo_ksys = \<lparr>sch = (sched_zero (hstate_start (vfs_empty (\<lambda>_. []) fat_zero (block_zero ()) (\<lambda>_. True))) (\<lambda>_. True))
       \<lparr>store := [0 \<mapsto> zero_thread\<lparr>state := THREAD_RUNNING, aspace := 0x200000, cwd := ''/bin''\<rparr>],
        threads_head := Some 0, threads_tail := Some 0, thread_count := 1, current_thread := Some 0, sched_ready := True\<rparr>,
     ktty = \<lparr>inq = irq_start, shift_state = False, echo = []\<rparr>, pages = user_demo, umem = (\<lambda>_. 0), launches = (\<lambda>_. None)\<rparr>"

definition read_regs :: syscall_regs where
  "read_regs = \<lparr>rax = 3, rdi = 0, rsi = 0x400010, rdx = 16, r10 = 0\<rparr>"

lemma demo_ksys_access: "kaspace demo_ksys = 0x200000" "pages demo_ksys = user_demo"
  by (simp_all add: kaspace_def demo_ksys_def sched_current_aspace_def th_def)

lemma user_page_writable_page:
  "unat a div 4096 = unat b div 4096 \<Longrightarrow> user_page_writable s r a = user_page_writable s r b"
  by (simp only: user_page_writable_def index_page [of a b])

lemma user_demo_writable:
  assumes "a \<ge> 0x400000" "unat a < 0x401000" shows "user_page_writable user_demo 0x200000 a"
proof -
  have "unat a div 4096 = unat (0x400000 :: u64) div 4096" using assms by (simp add: word_le_nat_alt)
  then have "user_page_writable user_demo 0x200000 a = user_page_writable user_demo 0x200000 0x400000"
    by (rule user_page_writable_page)
  also have "\<dots>"
    by (simp add: user_page_writable_def Let_def pml4_index_def pdpt_index_def pd_index_def
        pt_index_def user_demo_entries page_of_def PTE_PRESENT_def PTE_RW_def PTE_PS_def)
  finally show ?thesis by simp
qed

lemma demo_user_ok: "user_ok demo_ksys 0x400010 16"
  unfolding user_ok_def user_ptr_range_char demo_ksys_access
  using user_demo_present by (auto simp: user_layout word_le_nat_alt)

lemma demo_store:
  assumes "pages k = user_demo" "kaspace k = 0x200000" "length bs \<le> 16"
  shows "user_store 0x400010 bs k = Ret (k\<lparr>umem := wr_bytes (umem k) 0x400010 bs\<rparr>)"
proof -
  have "user_page_writable user_demo 0x200000 (0x400010 + of_nat i)" if "i < 16" for i
  proof -
    have "unat (of_nat i :: u64) = i" using that by (intro unat_of_nat_small) simp
    then have "unat (0x400010 + of_nat i :: u64) = 0x400010 + i" using that by (subst unat_add_no_wrap) simp_all
    then show ?thesis using that by (intro user_demo_writable) (simp_all add: word_le_nat_alt)
  qed
  then have "List.find (\<lambda>i. \<not> user_page_writable (pages k) (kaspace k) (0x400010 + of_nat i)) [0..<length bs] = None"
    using assms by (simp add: find_None_iff)
  then show ?thesis by (simp add: user_store_def)
qed

lemma demo_read: "syscall_handle demo_env read_regs demo_ksys =
    Ret (Waiting (Read_tty 0x400010 16 [] []), with_h handles_init demo_ksys)"
proof -
  let ?k = "with_h handles_init demo_ksys"
  have nr: "\<not> handles_ready (hs demo_ksys)" by (simp add: hs_def demo_ksys_def sched_zero_def hstate_start_def)
  have ok: "user_ok ?k 0x400010 16" using demo_user_ok by (simp add: user_ok_def)
  have fd: "sched_get_fd 0 (sch ?k) = 0"
    by (simp add: with_h_def demo_ksys_def sched_get_fd_def th_def zero_thread_def)
  have ty: "htype (htab (hs ?k) ! 0) = HANDLE_TTY" by (simp add: with_h_def hs_def handles_init_def)
  have rd: "tty_read 16 (ktty ?k) = Ret ([], [], False, ktty ?k)"
    by (simp add: tty_read_def tty_loop.simps demo_ksys_def irq_com_pop_def irq_kb_pop_def ring_pop_def irq_start_def)
  have st: "user_store 0x400010 [] (?k\<lparr>ktty := ktty demo_ksys\<rparr>) = Ret ?k"
    by (simp add: user_store_def with_h_def demo_ksys_def)
  show ?thesis using nr ok fd ty rd st
    by (simp add: syscall_handle_def syscall_switch_def read_regs_def sys_read_def int_of_reg_def Let_def tty_result_def)
qed

theorem syscall_writes_only_user_witness:
  "\<exists>segs k k'. syscall_run demo_env read_regs segs (Value 3) \<and> length segs = 2 \<and> (k, k') \<in> set segs \<and>
     umem k 0x400010 = 0 \<and> umem k' 0x400010 = 104 \<and> user_page_present (pages k) (kaspace k) 0x400010"
proof -
  let ?k0 = "with_h handles_init demo_ksys"
  obtain t where t: "tty_ok t" "typed t = [104, 120, 8, 105, 10]" using tty_typing by blast
  obtain old t' where rd: "tty_resume 16 [] [] t = Ret ([104, 105, 10], old, True, t')" and l: "3 + length old \<le> 16"
    using tty_resume_edits [OF t(1), of "[]" "[]" 16] t(2) by auto
  let ?k1 = "?k0\<lparr>ktty := t\<rparr>"
  let ?k2 = "?k1\<lparr>ktty := t', umem := wr_bytes (\<lambda>_. 0) 0x400010 ([104, 105, 10] @ old)\<rparr>"
  have ka: "kaspace (k\<lparr>ktty := t\<rparr>) = kaspace k" for t and k :: "unit ksys" by (simp add: kaspace_def)
  have acc: "pages (?k0\<lparr>ktty := t\<rparr>) = user_demo" "kaspace (?k0\<lparr>ktty := t\<rparr>) = 0x200000"
    "umem (?k0\<lparr>ktty := t\<rparr>) = (\<lambda>_. 0)" for t
    unfolding ka by (simp_all add: demo_ksys_access) (simp add: demo_ksys_def)
  have "tty_ok (ktty demo_ksys)" by (simp add: tty_ok_def demo_ksys_def irq_start_ok)
  then have run1: "syscall_run demo_env read_regs [(demo_ksys, ?k0)] (Waiting (Read_tty 0x400010 16 [] []))"
    by (rule syscall_run.start [OF _ demo_read])
  have keeps: "keeps_access demo_ksys ?k1" using acc demo_ksys_access by (simp add: keeps_access_def)
  have "sys_resume (Read_tty 0x400010 16 [] []) ?k1 = Ret (Value 3, ?k2)"
    using rd l demo_store [of "?k0\<lparr>ktty := t'\<rparr>" "[104, 105, 10] @ old"] acc
    by (simp add: sys_resume_def tty_result_def)
  then have run2: "syscall_run demo_env read_regs [(?k1, ?k2), (demo_ksys, ?k0)] (Value 3)"
    using syscall_run.resume [OF run1 keeps] t(1) by simp
  have u: "umem ?k2 0x400010 = 104" using l by (simp add: wr_bytes_eval)
  show ?thesis using syscall_writes_only_user [OF run2, of ?k1 ?k2] run2 u acc by fastforce
qed

end
