(* ===== verification/Fat_Inv.thy ===== *)
theory Fat_Inv
  imports Fat
begin

text \<open>
  What the FAT file system guarantees on the RAM disk. A volume is seen as a map of sectors; the allocation table is
  a function on cluster numbers and a file the concatenation of the clusters of its chain. Reads deliver slices of
  that, writes splice into it, and other files keep their clusters.
\<close>

section \<open>The volume as a map of sectors\<close>

type_synonym disk_map = "u64 \<Rightarrow> u8 list option"

definition fat_entry :: "fat_state \<Rightarrow> disk_map \<Rightarrow> u16 \<Rightarrow> u16" where
  "fat_entry F S c = (case S (ucast (entry_sector F c)) of None \<Rightarrow> 0 | Some buf \<Rightarrow> read_u16 buf (entry_offset F c))"

definition nspc :: "fat_state \<Rightarrow> nat" where "nspc F = unat (sectors_per_cluster F)"

definition csz :: "fat_state \<Rightarrow> nat" where "csz F = nspc F * 512"

definition data_sector :: "fat_state \<Rightarrow> u16 \<Rightarrow> nat \<Rightarrow> u64" where
  "data_sector F c i = ucast (cluster_to_sector F c + of_nat i)"

definition cluster_readable :: "fat_state \<Rightarrow> disk_map \<Rightarrow> u16 \<Rightarrow> bool" where
  "cluster_readable F S c \<longleftrightarrow> (\<forall>i<nspc F. S (data_sector F c i) \<noteq> None)"

definition cluster_bytes :: "fat_state \<Rightarrow> disk_map \<Rightarrow> u16 \<Rightarrow> u8 list" where
  "cluster_bytes F S c = concat (map (\<lambda>i. the (S (data_sector F c i))) [0..<nspc F])"

fun clus_chain :: "fat_state \<Rightarrow> disk_map \<Rightarrow> u16 list \<Rightarrow> bool" where
  "clus_chain F S [] = False"
| "clus_chain F S [c] = (2 \<le> c \<and> (fat_entry F S c = 0 \<or> is_end_cluster (fat_entry F S c)))"
| "clus_chain F S (c # c' # cs) = (2 \<le> c \<and> fat_entry F S c = c' \<and> \<not> is_end_cluster c' \<and> clus_chain F S (c' # cs))"

definition file_bytes :: "fat_state \<Rightarrow> disk_map \<Rightarrow> u16 list \<Rightarrow> u8 list" where
  "file_bytes F S cs = concat (map (cluster_bytes F S) cs)"

text \<open>A mounted volume on the RAM disk, and a state of the block layer that shows the sectors \<open>S\<close>.\<close>

definition mounted :: "fat_state \<Rightarrow> bool" where
  "mounted F \<longleftrightarrow> fat_ready F \<and> fat_dev F = Ramdisk \<and> bytes_per_sector F = 512 \<and> sectors_per_cluster F \<noteq> 0"

definition shows_disk :: "'h block \<Rightarrow> disk_map \<Rightarrow> bool" where
  "shows_disk b S \<longleftrightarrow> cache_ok b \<and> ramdisk_sectors b = S"

lemma mountedD:
  assumes "mounted F"
  shows "fat_ready F" "fat_dev F = Ramdisk" "bytes_per_sector F = 512" "0 < nspc F" "nspc F < 256" "unat (cluster_size F) = csz F" "0 < csz F"
proof -
  have n: "nspc F < 256" unfolding nspc_def using unsigned_less [of "sectors_per_cluster F"] by simp
  have u: "unat (ucast (sectors_per_cluster F) :: u64) = nspc F" "unat (ucast (512 :: u16) :: u64) = 512"
    using n by (simp_all add: nspc_def unat_ucast_mod)
  show p: "fat_ready F" "fat_dev F = Ramdisk" "bytes_per_sector F = 512" "0 < nspc F" "nspc F < 256"
    using assms n by (auto simp: mounted_def nspc_def unat_gt_0)
  show "unat (cluster_size F) = csz F"
    unfolding cluster_size_def p(3) csz_def using n u by (subst unat_mult_no_wrap) simp_all
  show "0 < csz F" using p(4) by (simp add: csz_def)
qed

lemma shows_read:
  assumes "mounted F" "shows_disk b S"
  shows "\<exists>b1. read_sector P F lba b = (S (ucast lba), b1) \<and> shows_disk b1 S"
proof -
  have c: "cache_ok b" "ramdisk_sectors b = S" using assms(2) by (simp_all add: shows_disk_def)
  show ?thesis using ramdisk.rd [OF c(1), of P "ucast lba"] c(2) mountedD(2) [OF assms(1)]
    by (cases "block_read P Ramdisk (ucast lba) 1 b") (simp add: read_sector_def shows_disk_def)
qed

lemma shows_write:
  assumes "mounted F" "shows_disk b S" "length bs = 512"
  shows "\<exists>b1. dir_write_sector P F lba bs b = (S (ucast lba) \<noteq> None, b1) \<and>
    shows_disk b1 (if S (ucast lba) = None then S else S(ucast lba \<mapsto> bs))"
proof -
  have c: "cache_ok b" "ramdisk_sectors b = S" using assms(2) by (simp_all add: shows_disk_def)
  show ?thesis using ramdisk.wr [OF c(1) assms(3), of P "ucast lba"] c(2) mountedD(2) [OF assms(1)]
    by (cases "block_write P Ramdisk (ucast lba) 1 bs b") (simp add: dir_write_sector_def shows_disk_def)
qed

lemma shows_length: "shows_disk b S \<Longrightarrow> S lba = Some bs \<Longrightarrow> length bs = 512"
  using ramdisk.sector_length by (auto simp: shows_disk_def)

lemma shows_next:
  assumes "mounted F" "shows_disk b S"
  shows "\<exists>b1. fat_next_cluster P F c b = (fat_entry F S c, b1) \<and> shows_disk b1 S"
  using shows_read [OF assms, of P "entry_sector F c"] by (auto simp: fat_next_cluster_def fat_entry_def split: option.splits)

section \<open>Blocks of equal length\<close>

lemma concat_drop_block:
  assumes "\<forall>x\<in>set xs. length x = n" "q < length xs" "r \<le> n"
  shows "drop (q * n + r) (concat xs) = drop r (xs ! q) @ concat (drop (Suc q) xs)"
  using assms
proof (induction xs arbitrary: q)
  case (Cons x xs)
  then show ?case by (cases q) (simp_all add: add.assoc)
qed simp

lemma concat_length_block: "\<forall>x\<in>set xs. length x = n \<Longrightarrow> length (concat xs) = length xs * n"
  by (induction xs) simp_all

lemma cluster_blocks:
  assumes "shows_disk b S" "cluster_readable F S c"
  shows "\<forall>x\<in>set (map (\<lambda>i. the (S (data_sector F c i))) [0..<nspc F]). length x = 512"
  using assms shows_length by (fastforce simp: cluster_readable_def)

lemma length_cluster_bytes: "shows_disk b S \<Longrightarrow> cluster_readable F S c \<Longrightarrow> length (cluster_bytes F S c) = csz F"
  using concat_length_block [OF cluster_blocks] by (simp add: cluster_bytes_def csz_def)

lemma length_file_bytes:
  "shows_disk b S \<Longrightarrow> \<forall>c\<in>set cs. cluster_readable F S c \<Longrightarrow> length (file_bytes F S cs) = length cs * csz F"
  unfolding file_bytes_def by (subst concat_length_block) (auto simp: length_cluster_bytes)

section \<open>Reading\<close>

lemma at_sector:
  assumes "mounted F" "unat off < csz F"
  shows "ucast (sector_at F (cluster_to_sector F c) off) = data_sector F c (unat off div 512)"
    "unat (offset_at F off) = unat off mod 512" "unat off div 512 < nspc F"
    "unat (chunk_at F off len) = min (512 - unat off mod 512) (unat len)"
proof -
  note M = mountedD [OF assms(1)]
  show q: "unat off div 512 < nspc F" using assms(2) by (simp add: csz_def div_less_iff_less_mult)
  have "ucast (off div 512) = (of_nat (unat off div 512) :: u32)"
    by (simp add: word_eq_unat unat_ucast_mod unat_of_nat_mod unat_div)
  then show "ucast (sector_at F (cluster_to_sector F c) off) = data_sector F c (unat off div 512)"
    by (simp add: sector_at_def data_sector_def M(3))
  show o: "unat (offset_at F off) = unat off mod 512"
    by (simp add: offset_at_def M(3) unat_ucast_mod unat_mod)
  then have s: "unat (512 - offset_at F off) = 512 - unat off mod 512"
    by (subst unat_sub) (simp_all add: word_le_nat_alt less_imp_le)
  then have "unat (ucast (512 - offset_at F off) :: u64) = 512 - unat off mod 512" by (simp add: unat_ucast_mod)
  then show "unat (chunk_at F off len) = min (512 - unat off mod 512) (unat len)"
    by (simp add: chunk_at_def M(3) Let_def word_less_nat_alt min_def)
qed

lemma split_take: "k \<le> n \<Longrightarrow> take n xs = take k xs @ take (n - k) (drop k xs)"
  by (metis add_diff_inverse_nat not_less take_add)

lemma cluster_step:
  assumes M: "mounted F" and r: "cluster_readable F S c" and sh: "shows_disk b S" and lt: "unat (off :: u64) < csz F"
  shows "\<exists>buf. S (data_sector F c (unat off div 512)) = Some buf \<and> length buf = 512 \<and>
    drop (unat off) (cluster_bytes F S c) = drop (unat off mod 512) buf @ drop ((unat off div 512 + 1) * 512) (cluster_bytes F S c)"
proof -
  let ?q = "unat off div 512" and ?bl = "map (\<lambda>i. the (S (data_sector F c i))) [0..<nspc F]"
  have q: "?q < nspc F" by (rule at_sector(3) [OF M lt])
  obtain buf where b: "S (data_sector F c ?q) = Some buf" using r q by (auto simp: cluster_readable_def)
  note B = cluster_blocks [OF sh r]
  have l: "length buf = 512" by (rule shows_length [OF sh b])
  have "drop (?q * 512 + unat off mod 512) (concat ?bl) = drop (unat off mod 512) (?bl ! ?q) @ concat (drop (Suc ?q) ?bl)"
    by (rule concat_drop_block [OF B]) (use q in \<open>simp_all add: less_imp_le\<close>)
  moreover have "drop (?q * 512 + 512) (concat ?bl) = drop 512 (?bl ! ?q) @ concat (drop (Suc ?q) ?bl)"
    by (rule concat_drop_block [OF B]) (use q in simp_all)
  ultimately show ?thesis using b l q by (auto simp: cluster_bytes_def add.commute)
qed

lemma read_cluster_spec:
  assumes M: "mounted F" and r: "cluster_readable F S c"
  shows "shows_disk b S \<Longrightarrow> unat off \<le> csz F \<Longrightarrow>
    \<exists>l' b'. read_cluster P F (cluster_to_sector F c) off len copied b =
        Some (True, copied @ take (unat len) (drop (unat off) (cluster_bytes F S c)), l', b') \<and>
      shows_disk b' S \<and> unat l' = unat len - (csz F - unat off)"
proof (induction "csz F - unat off" arbitrary: off len copied b rule: less_induct)
  case less
  note sh = less.prems(1)
  have cl: "length (cluster_bytes F S c) = csz F" by (rule length_cluster_bytes [OF sh r])
  have c0: "off < cluster_size F \<longleftrightarrow> unat off < csz F" by (simp add: word_less_nat_alt mountedD(6) [OF M])
  show ?case
  proof (cases "off < cluster_size F \<and> len > 0")
    case False
    then have "unat off = csz F \<or> unat len = 0" using less.prems(2) c0 by (auto simp: word_less_nat_alt)
    then show ?thesis using False sh cl by (subst read_cluster.simps) auto
  next
    case True
    then have lt: "unat off < csz F" and ln: "0 < unat len" using c0 by (simp_all add: word_less_nat_alt)
    obtain buf where b: "S (data_sector F c (unat off div 512)) = Some buf" "length buf = 512" and
      d: "drop (unat off) (cluster_bytes F S c) = drop (unat off mod 512) buf @ drop ((unat off div 512 + 1) * 512) (cluster_bytes F S c)"
      using cluster_step [OF M r sh lt] by blast
    obtain b1 where b1: "read_sector P F (sector_at F (cluster_to_sector F c) off) b = (Some buf, b1)" "shows_disk b1 S"
      using shows_read [OF M sh, of P "sector_at F (cluster_to_sector F c) off"] at_sector(1) [OF M lt] b(1) by auto
    let ?k = "chunk_at F off len"
    define k where "k = unat ?k"
    have k: "k = min (512 - unat off mod 512) (unat len)" unfolding k_def by (rule at_sector(4) [OF M lt])
    have qn: "unat off div 512 < nspc F" by (rule at_sector(3) [OF M lt])
    have pos: "0 < k" using k ln by (simp add: min_def)
    have up: "unat off + k \<le> csz F"
    proof -
      define q r where "q = unat off div 512" and "r = unat off mod 512"
      have "unat off = q * 512 + r" "r < 512" by (simp_all add: q_def r_def)
      moreover have "q * 512 + 512 \<le> csz F" using mult_le_mono1 [of "Suc q" "nspc F" 512] qn by (simp add: q_def csz_def)
      moreover have "k + r \<le> 512" using k calculation(2) by (simp add: r_def)
      ultimately show ?thesis by simp
    qed
    have "csz F < 2 ^ 64" using unat_lt_64 [of "cluster_size F"] mountedD(6) [OF M] by simp
    then have o: "unat (off + ?k) = unat off + k" unfolding k_def using up by (intro unat_add_no_wrap) (simp add: k_def)
    have l: "unat (len - ?k) = unat len - k" unfolding k_def using k by (intro unat_sub) (simp add: word_le_nat_alt k_def)
    have dec: "csz F - (unat off + k) < csz F - unat off" using up pos by simp
    from less.hyps [of "off + ?k" b1 "len - ?k" "copied @ take k (drop (unat off mod 512) buf)", unfolded o l, OF dec b1(2) up]
    obtain l' b' where IH: "read_cluster P F (cluster_to_sector F c) (off + ?k) (len - ?k) (copied @ take k (drop (unat off mod 512) buf)) b1 =
        Some (True, (copied @ take k (drop (unat off mod 512) buf)) @ take (unat len - k) (drop (unat off + k) (cluster_bytes F S c)), l', b')"
      "shows_disk b' S" "unat l' = unat len - k - (csz F - (unat off + k))"
      by blast
    have "take (unat len) (drop (unat off) (cluster_bytes F S c)) =
        take k (drop (unat off) (cluster_bytes F S c)) @ take (unat len - k) (drop k (drop (unat off) (cluster_bytes F S c)))"
      using k by (intro split_take) simp
    also have "take k (drop (unat off) (cluster_bytes F S c)) = take k (drop (unat off mod 512) buf)" unfolding d using k b(2) by simp
    finally have e: "take (unat len) (drop (unat off) (cluster_bytes F S c)) =
        take k (drop (unat off mod 512) buf) @ take (unat len - k) (drop (unat off + k) (cluster_bytes F S c))"
      by (simp add: add.commute)
    show ?thesis using True IH b1(1) e up
      by (subst read_cluster.simps) (simp add: Let_def at_sector(2) [OF M lt] k_def [symmetric])
  qed
qed

lemma unat_u16: "unat (c :: u16) < 65536" "unat (ucast c :: u32) = unat c" "unat (ucast c :: u64) = unat c"
proof -
  show "unat c < 65536" using unsigned_less [of c] by simp
  then show "unat (ucast c :: u32) = unat c" "unat (ucast c :: u64) = unat c" by (simp_all add: unat_ucast_mod)
qed

lemma unat_u32: "unat (n :: u32) < 4294967296" "unat (ucast n :: u64) = unat n"
proof -
  show "unat n < 4294967296" using unsigned_less [of n] by simp
  then show "unat (ucast n :: u64) = unat n" by (simp add: unat_ucast_mod)
qed

lemma ucast_cluster [simp]: "(ucast (ucast (c :: u16) :: u32) :: u16) = c"
  using unat_u16(1) [of c] by (simp add: word_eq_unat unat_ucast_mod)

lemma cluster_ge_2: "2 \<le> c \<Longrightarrow> (2 :: u32) \<le> ucast (c :: u16)"
  by (simp add: word_le_nat_alt unat_u16)

lemma chain_hd_2: "clus_chain F S (c # cs) \<Longrightarrow> (2 :: u32) \<le> ucast c"
  by (cases cs) (auto intro: cluster_ge_2)

lemma file_bytes_Cons: "file_bytes F S (c # cs) = cluster_bytes F S c @ file_bytes F S cs"
  by (simp add: file_bytes_def)

lemma chain_next:
  assumes "clus_chain F S (c # c' # cs)"
  shows "fat_entry F S c = c'" "\<not> (c' = 0 \<or> is_end_cluster c')" "clus_chain F S (c' # cs)"
proof -
  show "fat_entry F S c = c'" and r: "clus_chain F S (c' # cs)" using assms by simp_all
  have "2 \<le> c'" using r by (cases cs) simp_all
  then show "\<not> (c' = 0 \<or> is_end_cluster c')" using assms by auto
qed

lemma read_chain_spec:
  assumes M: "mounted F"
  shows "clus_chain F S cs \<Longrightarrow> \<forall>c\<in>set cs. cluster_readable F S c \<Longrightarrow> shows_disk b S \<Longrightarrow> unat skip < csz F \<Longrightarrow> len \<noteq> 0 \<Longrightarrow>
    \<exists>b'. read_chain P F (ucast (hd cs)) skip len copied b =
        Some (True, copied @ take (unat len) (drop (unat skip) (file_bytes F S cs)), b') \<and> shows_disk b' S"
proof (induction cs arbitrary: skip len copied b)
  case (Cons c cs)
  note sh = Cons.prems(3)
  have r: "cluster_readable F S c" using Cons.prems(2) by simp
  have cl: "length (cluster_bytes F S c) = csz F" by (rule length_cluster_bytes [OF sh r])
  obtain l' b1 where rc: "read_cluster P F (cluster_to_sector F c) skip len copied b =
      Some (True, copied @ take (unat len) (drop (unat skip) (cluster_bytes F S c)), l', b1)" "shows_disk b1 S"
    "unat l' = unat len - (csz F - unat skip)"
    using read_cluster_spec [OF M r sh less_imp_le [OF Cons.prems(4)]] by blast
  have g: "len > 0" using Cons.prems(5) by (simp add: word_neq_0_conv)
  have l0: "l' = 0 \<longleftrightarrow> unat len \<le> csz F - unat skip" using rc(3) by (simp add: word_eq_unat)
  note unf = read_chain.simps [of P F "ucast c" skip len copied b]
  show ?case
  proof (cases "l' = 0")
    case True
    have "take (unat len) (drop (unat skip) (file_bytes F S (c # cs))) = take (unat len) (drop (unat skip) (cluster_bytes F S c))"
      using True l0 cl Cons.prems(4) by (simp add: file_bytes_Cons)
    then show ?thesis using unf g chain_hd_2 [OF Cons.prems(1)] rc True by simp
  next
    case False
    then have big: "csz F - unat skip < unat len" using l0 by simp
    then have out: "take (unat len) (drop (unat skip) (cluster_bytes F S c)) = drop (unat skip) (cluster_bytes F S c)" using cl by simp
    obtain b2 where b2: "fat_next_cluster P F c b1 = (fat_entry F S c, b2)" "shows_disk b2 S" using shows_next [OF M rc(2)] by blast
    show ?thesis
    proof (cases cs)
      case Nil
      then have "fat_entry F S c = 0 \<or> is_end_cluster (fat_entry F S c)" using Cons.prems(1) by simp
      then show ?thesis using unf g chain_hd_2 [OF Cons.prems(1)] rc False b2 Nil by (simp add: file_bytes_def)
    next
      case (Cons c' ds)
      note n = chain_next [OF Cons.prems(1) [unfolded Cons]]
      have rs: "\<forall>c\<in>set cs. cluster_readable F S c" using Cons.prems(2) by simp
      have z: "unat (0 :: u64) < csz F" using mountedD(7) [OF M] by simp
      from Cons.IH [OF n(3) [folded Cons] rs b2(2) z False, of "copied @ drop (unat skip) (cluster_bytes F S c)"]
      obtain b3 where "read_chain P F (ucast c') 0 l' (copied @ drop (unat skip) (cluster_bytes F S c)) b2 =
          Some (True, (copied @ drop (unat skip) (cluster_bytes F S c)) @ take (unat l') (file_bytes F S cs), b3)" "shows_disk b3 S"
        by (auto simp: Cons)
      moreover have "take (unat len) (drop (unat skip) (file_bytes F S (c # cs))) =
          drop (unat skip) (cluster_bytes F S c) @ take (unat l') (file_bytes F S cs)"
        using big cl Cons.prems(4) rc(3) by (simp add: file_bytes_Cons)
      ultimately show ?thesis using unf g chain_hd_2 [OF Cons.prems(1)] rc(1,2) False b2 n(1,2) out by simp
    qed
  qed
qed simp

lemma skip_loop_spec:
  assumes M: "mounted F"
  shows "clus_chain F S cs \<Longrightarrow> shows_disk b S \<Longrightarrow> unat off < length cs * csz F \<Longrightarrow>
    \<exists>off' b'. skip_loop P F (ucast (hd cs)) off b = Some (Some (ucast (cs ! (unat off div csz F)), off'), b') \<and>
      unat off' = unat off mod csz F \<and> shows_disk b' S"
proof (induction cs arbitrary: off b)
  case (Cons c cs)
  note unf = skip_loop.simps [of P F "ucast c" off b] and z = mountedD(6,7) [OF M]
  have ge: "off \<ge> cluster_size F \<longleftrightarrow> csz F \<le> unat off" by (simp add: word_le_nat_alt z)
  show ?case
  proof (cases "csz F \<le> unat off")
    case False
    then show ?thesis using unf ge Cons.prems(2) by simp
  next
    case True
    then obtain c' ds where cs: "cs = c' # ds" using Cons.prems(3) by (cases cs) auto
    note n = chain_next [OF Cons.prems(1) [unfolded cs]]
    obtain b1 where b1: "fat_next_cluster P F c b = (c', b1)" "shows_disk b1 S" using shows_next [OF M Cons.prems(2)] n(1) by metis
    have u: "unat (off - cluster_size F) = unat off - csz F" using True by (subst unat_sub) (simp_all add: word_le_nat_alt z)
    have lt: "unat (off - cluster_size F) < length cs * csz F" using Cons.prems(3) True u by simp
    from Cons.IH [OF n(3) [folded cs] b1(2) lt] obtain off' b2 where
      "skip_loop P F (ucast c') (off - cluster_size F) b1 = Some (Some (ucast (cs ! ((unat off - csz F) div csz F)), off'), b2)"
      "unat off' = (unat off - csz F) mod csz F" "shows_disk b2 S" by (auto simp: cs u)
    moreover have "unat off div csz F = Suc ((unat off - csz F) div csz F)" "unat off mod csz F = (unat off - csz F) mod csz F"
      using True z(2) by (simp_all add: le_div_geq le_mod_geq)
    ultimately show ?thesis using unf ge True chain_hd_2 [OF Cons.prems(1)] b1 n(2) by simp
  qed
qed simp

lemma clus_chain_drop: "clus_chain F S cs \<Longrightarrow> q < length cs \<Longrightarrow> clus_chain F S (drop q cs)"
proof (induction q arbitrary: cs)
  case (Suc q)
  then obtain c c' ds where "cs = c # c' # ds" by (cases cs; cases "tl cs") auto
  then show ?case using Suc chain_next(3) [of F S c c' ds] by simp
qed simp

lemma file_bytes_drop:
  assumes "shows_disk b S" "\<forall>c\<in>set cs. cluster_readable F S c" "n < length cs * csz F"
  shows "drop (n mod csz F) (file_bytes F S (drop (n div csz F) cs)) = drop n (file_bytes F S cs)"
proof -
  let ?q = "n div csz F"
  have p: "0 < csz F" using assms(3) by (cases "csz F") simp_all
  have q: "?q < length cs" using assms(3) p by (simp add: div_less_iff_less_mult)
  have B: "\<forall>x\<in>set (map (cluster_bytes F S) cs). length x = csz F" using assms(1,2) by (auto simp: length_cluster_bytes)
  have "drop (?q * csz F + n mod csz F) (concat (map (cluster_bytes F S) cs)) =
      drop (n mod csz F) (map (cluster_bytes F S) cs ! ?q) @ concat (drop (Suc ?q) (map (cluster_bytes F S) cs))"
    by (rule concat_drop_block [OF B]) (use q p in \<open>simp_all add: less_imp_le\<close>)
  moreover have "drop ?q cs = cs ! ?q # drop (Suc ?q) cs" using q by (simp add: Cons_nth_drop_Suc)
  moreover have "n mod csz F \<le> length (cluster_bytes F S (cs ! ?q))"
    using B q p by (simp add: less_imp_le)
  ultimately show ?thesis using q by (simp add: file_bytes_def drop_map)
qed

text \<open>A file whose first cluster is that of a chain.\<close>

definition file_chain :: "fat_state \<Rightarrow> disk_map \<Rightarrow> fat_file \<Rightarrow> u16 list \<Rightarrow> bool" where
  "file_chain F S file cs \<longleftrightarrow> clus_chain F S cs \<and> start_cluster file = ucast (hd cs) \<and> (\<forall>c\<in>set cs. cluster_readable F S c) \<and>
     unat (file_size file) \<le> length cs * csz F"

lemma fat_read_spec:
  assumes M: "mounted F" and sh: "shows_disk b S" and f: "file_chain F S file cs"
  shows "\<exists>b'. fat_read P F file off len b =
      Ret (int (length (take (unat len) (drop (unat off) (take (unat (file_size file)) (file_bytes F S cs))))),
           take (unat len) (drop (unat off) (take (unat (file_size file)) (file_bytes F S cs))),
           off + of_nat (length (take (unat len) (drop (unat off) (take (unat (file_size file)) (file_bytes F S cs))))), b') \<and>
      shows_disk b' S"
proof -
  define bytes where "bytes = file_bytes F S cs"
  define out where "out = take (unat len) (drop (unat off) (take (unat (file_size file)) bytes))"
  have ch: "clus_chain F S cs" "start_cluster file = ucast (hd cs)" "\<forall>c\<in>set cs. cluster_readable F S c"
    "unat (file_size file) \<le> length cs * csz F" using f by (simp_all add: file_chain_def)
  have lb: "length bytes = length cs * csz F" unfolding bytes_def by (rule length_file_bytes [OF sh ch(3)])
  have sz: "unat (ucast (file_size file) :: u64) = unat (file_size file)"
    by (rule unat_u32(2))
  have st: "start_cluster file \<noteq> 0" using ch(1,2) chain_hd_2 [of F S "hd cs" "tl cs"] by (cases cs) auto
  show ?thesis
  proof (cases "off \<ge> ucast (file_size file) \<or> len = 0")
    case True
    then have "out = []" by (auto simp: out_def word_le_nat_alt sz)
    then show ?thesis unfolding bytes_def [symmetric] out_def [symmetric] using True mountedD(1) [OF M] sh by (auto simp: fat_read_def)
  next
    case False
    let ?len = "if len > ucast (file_size file) - off then ucast (file_size file) - off else len"
    have lt: "unat off < unat (file_size file)" using False by (simp add: word_le_nat_alt sz)
    then have r: "unat (ucast (file_size file) - off) = unat (file_size file) - unat off"
      by (subst unat_sub) (simp_all add: word_le_nat_alt sz)
    have ul: "unat ?len = min (unat len) (unat (file_size file) - unat off)" by (simp add: word_less_nat_alt r)
    have nz: "?len \<noteq> 0" using ul lt False by (simp add: word_eq_unat)
    have off: "unat off < length cs * csz F" using lt ch(4) by simp
    obtain off' b1 where sk: "skip_loop P F (ucast (hd cs)) off b = Some (Some (ucast (cs ! (unat off div csz F)), off'), b1)"
      "unat off' = unat off mod csz F" "shows_disk b1 S" using skip_loop_spec [OF M ch(1) sh off] by blast
    have q: "unat off div csz F < length cs" using off mountedD(7) [OF M] by (simp add: div_less_iff_less_mult)
    have m: "unat off' < csz F" using sk(2) mountedD(7) [OF M] by simp
    have rd: "\<forall>c\<in>set (drop (unat off div csz F) cs). cluster_readable F S c" using ch(3) by (auto dest: in_set_dropD)
    from read_chain_spec [OF M clus_chain_drop [OF ch(1) q] rd sk(3) m nz, of P "[]"]
    obtain b2 where b2: "read_chain P F (ucast (cs ! (unat off div csz F))) off' ?len [] b1 =
        Some (True, take (unat ?len) (drop (unat off) bytes), b2)" "shows_disk b2 S"
      using file_bytes_drop [OF sh ch(3) off] sk(2) q by (auto simp: hd_drop_conv_nth bytes_def)
    have "take (unat ?len) (drop (unat off) bytes) = out"
      unfolding out_def ul by (simp add: drop_take min.commute)
    then show ?thesis unfolding bytes_def [symmetric] out_def [symmetric]
      using False st mountedD(1) [OF M] sk(1) b2 ch(2) by (simp add: fat_read_def Let_def)
  qed
qed

text \<open>(C40) Reading a FAT file. For a file on a mounted volume whose chain of clusters is intact, a read
  delivers exactly the bytes of the file from the offset on, as many as asked for and as the file has; it always
  returns, moves the offset by what it delivers, and leaves the volume as it was.\<close>

theorem fat_read_slice:
  assumes "mounted F" "shows_disk b S" "file_chain F S file cs"
    and "out = take (unat len) (drop (unat off) (take (unat (file_size file)) (file_bytes F S cs)))"
  shows "\<exists>b'. fat_read P F file off len b = Ret (int (length out), out, off + of_nat (length out), b') \<and> shows_disk b' S"
  using fat_read_spec [OF assms(1-3)] assms(4) by simp

section \<open>Layout of a volume\<close>

text \<open>The table, the root directory and the clusters follow each other on the disk, and cluster numbers stay below
  the end marks.\<close>

definition nclus :: "fat_state \<Rightarrow> nat" where "nclus F = unat (cluster_count F) + 2"

definition vol_ok :: "fat_state \<Rightarrow> bool" where
  "vol_ok F \<longleftrightarrow> mounted F \<and> nclus F \<le> 0xFFF8 \<and>
     unat (fat_start F) * 512 + 2 * nclus F \<le> unat (root_start F) * 512 \<and> unat (root_start F) \<le> unat (data_start F) \<and>
     unat (data_start F) + unat (cluster_count F) * nspc F \<le> 8192"

definition valid_cluster :: "fat_state \<Rightarrow> u16 \<Rightarrow> bool" where
  "valid_cluster F c \<longleftrightarrow> 2 \<le> unat c \<and> unat c < nclus F"

lemma vol_okD:
  assumes "vol_ok F"
  shows "mounted F" "nclus F \<le> 0xFFF8" "unat (fat_start F) * 512 + 2 * nclus F \<le> unat (root_start F) * 512"
    "unat (root_start F) \<le> unat (data_start F)" "unat (data_start F) + unat (cluster_count F) * nspc F \<le> 8192"
  using assms by (simp_all add: vol_ok_def)

lemma shows_some:
  assumes "shows_disk b S" "unat lba < 8192" shows "\<exists>bs. S lba = Some bs \<and> length bs = 512"
  using assms by (auto simp: shows_disk_def ramdisk_sectors_def RAMDISK_SECTORS_def word_less_nat_alt)

lemma entry_place:
  assumes v: "vol_ok F" and c: "unat c < nclus F"
  shows "unat (ucast (entry_sector F c) :: u64) = unat (fat_start F) + unat c div 256" "entry_offset F c = 2 * (unat c mod 256)"
    "unat (fat_start F) + unat c div 256 < unat (root_start F)"
proof -
  note V = vol_okD [OF v]
  have m: "unat (ucast c * 2 :: u32) = 2 * unat c"
    using unat_u16 [of c] by (subst unat_mult_no_wrap) (simp_all add: mult.commute)
  have b: "ucast (bytes_per_sector F) = (512 :: u32)" using mountedD(3) [OF V(1)] by simp
  have d: "unat ((ucast c * 2) div 512 :: u32) = unat c div 256" by (simp add: unat_div m div_mult2_eq [of _ 2 256, simplified, symmetric])
  show lt: "unat (fat_start F) + unat c div 256 < unat (root_start F)"
  proof -
    have "unat c div 256 * 512 \<le> 2 * unat c" using div_times_less_eq_dividend [of "unat c" 256] by linarith
    then show ?thesis using V(3) c by linarith
  qed
  have "unat (fat_start F + (ucast c * 2) div 512) = unat (fat_start F) + unat c div 256"
    unfolding d [symmetric] using lt d unat_u32(1) [of "root_start F"] by (intro unat_add_no_wrap) simp
  then show "unat (ucast (entry_sector F c) :: u64) = unat (fat_start F) + unat c div 256"
    by (simp only: entry_sector_def b unat_u32(2))
  have "2 * unat c mod 512 = 2 * (unat c mod 256)" using mult_mod_right [of 2 "unat c" 256] by simp
  then show "entry_offset F c = 2 * (unat c mod 256)" by (simp add: entry_offset_def b unat_mod m)
qed

lemma data_place:
  assumes v: "vol_ok F" and c: "valid_cluster F c" and i: "i < nspc F"
  shows "unat (data_sector F c i) = unat (data_start F) + (unat c - 2) * nspc F + i" "unat (data_sector F c i) < 8192"
    "unat (data_start F) \<le> unat (data_sector F c i)"
proof -
  note V = vol_okD [OF v]
  have c2: "2 \<le> unat c" "unat c - 2 < unat (cluster_count F)" using c by (auto simp: valid_cluster_def nclus_def)
  have "(unat c - 2) * nspc F + nspc F \<le> unat (cluster_count F) * nspc F"
    using mult_le_mono1 [of "Suc (unat c - 2)" "unat (cluster_count F)" "nspc F"] c2(2) by simp
  then have lt: "unat (data_start F) + (unat c - 2) * nspc F + i < 8192" using V(5) i by simp
  have s: "unat (ucast c - 2 :: u32) = unat c - 2" using c2(1) unat_u16(2) [of c] by (subst unat_sub) (simp_all add: word_le_nat_alt)
  have n: "unat (ucast (sectors_per_cluster F) :: u32) = nspc F"
    using mountedD(5) [OF V(1)] by (simp add: unat_ucast_mod nspc_def)
  have m: "unat ((ucast c - 2) * ucast (sectors_per_cluster F) :: u32) = (unat c - 2) * nspc F"
    unfolding s [symmetric] n [symmetric] using lt by (intro unat_mult_no_wrap) (simp add: s n)
  have "unat (cluster_to_sector F c) = unat (data_start F) + (unat c - 2) * nspc F"
    unfolding cluster_to_sector_def m [symmetric] using lt by (intro unat_add_no_wrap) (simp add: m)
  moreover have "unat (of_nat i :: u32) = i" using i mountedD(5) [OF V(1)] by (simp add: unat_of_nat_mod)
  ultimately have "unat (cluster_to_sector F c + of_nat i) = unat (data_start F) + (unat c - 2) * nspc F + i"
    using lt by (subst unat_add_no_wrap) simp_all
  then show e: "unat (data_sector F c i) = unat (data_start F) + (unat c - 2) * nspc F + i"
    by (simp only: data_sector_def unat_u32(2))
  show "unat (data_sector F c i) < 8192" "unat (data_start F) \<le> unat (data_sector F c i)" unfolding e using lt by simp_all
qed

lemma data_sector_inj:
  assumes v: "vol_ok F" and c: "valid_cluster F c" "valid_cluster F c'" and i: "i < nspc F" "i' < nspc F"
    and e: "data_sector F c i = data_sector F c' i'"
  shows "c = c' \<and> i = i'"
proof -
  have "(unat c - 2) * nspc F + i = (unat c' - 2) * nspc F + i'"
    using arg_cong [OF e, of unat] data_place(1) [OF v c(1) i(1)] data_place(1) [OF v c(2) i(2)] by simp
  then have "unat c - 2 = unat c' - 2 \<and> i = i'"
    using i by (metis add.commute div_mult_self3 mod_mult_self1 div_less mod_less add_0_right less_nat_zero_code mult.commute not_gr0 div_mult_self1)
  then have "unat c - 2 = unat c' - 2" "i = i'" by blast+
  moreover have "2 \<le> unat c" "2 \<le> unat c'" using c by (simp_all add: valid_cluster_def)
  ultimately show ?thesis by (simp add: word_eq_unat)
qed

lemma readable_valid: "vol_ok F \<Longrightarrow> shows_disk b S \<Longrightarrow> valid_cluster F c \<Longrightarrow> cluster_readable F S c"
  using shows_some data_place(2) by (fastforce simp: cluster_readable_def)

section \<open>Changing parts of a list\<close>

definition patch :: "nat \<Rightarrow> 'a list \<Rightarrow> 'a list \<Rightarrow> 'a list" where
  "patch n ys xs = take n xs @ ys @ drop (n + length ys) xs"

lemma length_patch [simp]: "n + length ys \<le> length xs \<Longrightarrow> length (patch n ys xs) = length xs"
  by (simp add: patch_def)

lemma nth_patch:
  "n + length ys \<le> length xs \<Longrightarrow> i < length xs \<Longrightarrow> patch n ys xs ! i = (if n \<le> i \<and> i < n + length ys then ys ! (i - n) else xs ! i)"
  by (auto simp: patch_def nth_append)

lemma put_bytes_patch: "n + length ys \<le> length xs \<Longrightarrow> put_bytes n ys xs = patch n ys xs"
proof (induction ys arbitrary: n xs)
  case (Cons y ys)
  then have "put_bytes n (y # ys) xs = patch (Suc n) ys (xs[n := y])" by simp
  also have "\<dots> = patch n (y # ys) xs"
    using Cons.prems by (simp add: patch_def take_Suc_conv_app_nth)
  finally show ?case .
qed (simp add: patch_def)

lemma patch_patch:
  assumes "k \<le> length ys" "n + length ys \<le> length xs"
  shows "patch (n + k) (drop k ys) (patch n (take k ys) xs) = patch n ys xs"
  using assms by (intro nth_equalityI) (auto simp: nth_patch)

lemma drop_patch_within: "n + length ys \<le> length xs \<Longrightarrow> take (length ys) (drop n (patch n ys xs)) = ys"
  by (simp add: patch_def)

lemma concat_patch_block:
  assumes "\<forall>x\<in>set xs. length x = n" "q < length xs" "r + length ys \<le> n"
  shows "concat (xs[q := patch r ys (xs ! q)]) = patch (q * n + r) ys (concat xs)"
  using assms
proof (induction xs arbitrary: q)
  case (Cons x xs)
  show ?case
  proof (cases q)
    case 0
    then show ?thesis using Cons.prems by (simp add: patch_def)
  next
    case (Suc p)
    have "concat (xs[p := patch r ys (xs ! p)]) = patch (p * n + r) ys (concat xs)" using Cons Suc by simp
    then show ?thesis using Suc Cons.prems(1) by (simp add: patch_def add.assoc)
  qed
qed simp

section \<open>The allocation table\<close>

lemma read_u16_patch:
  assumes "length buf = 512" "a < 256" "d < 256"
  shows "read_u16 (patch (2 * a) [ucast v, ucast (drop_bit 8 v)] buf) (2 * d) = (if d = a then v else read_u16 buf (2 * d))"
proof -
  have "ucast (ucast v :: u8) OR push_bit 8 (ucast (ucast (drop_bit 8 v) :: u8)) = v"
    by (rule bit_word_eqI) (auto simp: bit_simps)
  moreover have "Suc (2 * d) \<noteq> 2 * a" "2 * d \<noteq> Suc (2 * a)"
    by (rule Suc_double_not_eq_double, rule double_not_eq_Suc_double)
  ultimately show ?thesis using assms by (auto simp: read_u16_def nth_patch)
qed

text \<open>\<open>S'\<close> has the table entries \<open>e\<close> and otherwise the sectors of \<open>S\<close> from the root directory on.\<close>

definition table_to :: "fat_state \<Rightarrow> disk_map \<Rightarrow> disk_map \<Rightarrow> (u16 \<Rightarrow> u16) \<Rightarrow> bool" where
  "table_to F S S' e \<longleftrightarrow> (\<forall>c. unat c < nclus F \<longrightarrow> fat_entry F S' c = e c) \<and>
     (\<forall>lba. unat (root_start F) \<le> unat lba \<longrightarrow> S' lba = S lba)"

lemma set_cluster_spec:
  assumes v: "vol_ok F" and sh: "shows_disk b S" and c: "unat c < nclus F"
  shows "\<exists>S' b'. fat_set_cluster P F c val b = (True, b') \<and> shows_disk b' S' \<and> table_to F S S' ((fat_entry F S)(c := val))"
proof -
  note V = vol_okD [OF v] and E = entry_place [OF v c]
  let ?l = "ucast (entry_sector F c) :: u64"
  have "unat ?l < 8192" using E V(4,5) by simp
  then obtain buf where buf: "S ?l = Some buf" "length buf = 512" using shows_some [OF sh] by blast
  obtain b1 where b1: "read_sector P F (entry_sector F c) b = (Some buf, b1)" "shows_disk b1 S"
    using shows_read [OF V(1) sh, of P "entry_sector F c"] buf(1) by auto
  let ?new = "patch (2 * (unat c mod 256)) [ucast val, ucast (drop_bit 8 val)] buf"
  have m: "unat x mod 256 < 256" "2 * (unat x mod 256) + 2 \<le> 512" for x :: u16
    using mod_less_divisor [of 256 "unat x"] by linarith+
  have p: "put_bytes (entry_offset F c) [ucast val, ucast (drop_bit 8 val)] buf = ?new"
    unfolding E(2) using m(2) [of c] buf(2) by (intro put_bytes_patch) simp
  have l: "length ?new = 512" using m(2) [of c] buf(2) by simp
  obtain b' where b': "dir_write_sector P F (entry_sector F c) ?new b1 = (True, b')" "shows_disk b' (S(?l \<mapsto> ?new))"
    using shows_write [OF V(1) b1(2) l, of P "entry_sector F c"] buf(1) by auto
  have "fat_entry F (S(?l \<mapsto> ?new)) x = ((fat_entry F S)(c := val)) x" if x: "unat x < nclus F" for x
  proof -
    note X = entry_place [OF v x]
    show ?thesis
    proof (cases "unat x div 256 = unat c div 256")
      case True
      then have s: "ucast (entry_sector F x) = ?l" using X(1) E(1) by (simp add: word_eq_unat)
      have "unat x mod 256 = unat c mod 256 \<longleftrightarrow> x = c"
        using True by (metis div_mult_mod_eq word_eq_unat)
      then show ?thesis using read_u16_patch [OF buf(2) m(1) [of c] m(1) [of x], of val] buf(1)
        by (simp add: fat_entry_def s X(2))
    next
      case False
      then have "ucast (entry_sector F x) \<noteq> ?l" using X(1) E(1) by (auto simp: word_eq_unat)
      then show ?thesis using False by (auto simp: fat_entry_def)
    qed
  qed
  moreover have "(S(?l \<mapsto> ?new)) lba = S lba" if "unat (root_start F) \<le> unat lba" for lba
    using that E(1,3) by auto
  ultimately have "table_to F S (S(?l \<mapsto> ?new)) ((fat_entry F S)(c := val))" by (simp add: table_to_def)
  then show ?thesis using b1(1) p b' by (auto simp: fat_set_cluster_def)
qed

definition free_clusters :: "fat_state \<Rightarrow> disk_map \<Rightarrow> u16 set" where
  "free_clusters F S = {c. valid_cluster F c \<and> fat_entry F S c = 0}"

lemma finite_free [simp]: "finite (free_clusters F S)"
  by simp

text \<open>Allocation takes a free cluster when there is one, and marks it as an end.\<close>

lemma alloc_scan_spec:
  assumes v: "vol_ok F"
  shows "shows_disk b S \<Longrightarrow> unat k + n = nclus F \<Longrightarrow> 2 \<le> unat k \<Longrightarrow> \<forall>c\<in>free_clusters F S. unat k \<le> unat c \<Longrightarrow> free_clusters F S \<noteq> {} \<Longrightarrow>
    \<exists>c S' b'. alloc_scan P F n k b = (c, b') \<and> shows_disk b' S' \<and> c \<in> free_clusters F S \<and> table_to F S S' ((fat_entry F S)(c := FAT16_EOC))"
proof (induction n arbitrary: k b)
  case 0
  then show ?case by (auto simp: free_clusters_def valid_cluster_def)
next
  case (Suc n)
  let ?c = "ucast k :: u16"
  have k: "unat k < 0xFFF8" using Suc.prems(2) vol_okD(2) [OF v] by simp
  then have uc: "unat ?c = unat k" by (simp add: unat_ucast_mod)
  have vc: "valid_cluster F ?c" using uc Suc.prems by (simp add: valid_cluster_def)
  obtain b1 where b1: "fat_next_cluster P F ?c b = (fat_entry F S ?c, b1)" "shows_disk b1 S"
    using shows_next [OF vol_okD(1) [OF v] Suc.prems(1)] by blast
  show ?case
  proof (cases "fat_entry F S ?c = 0")
    case True
    have "unat ?c < nclus F" using vc by (simp add: valid_cluster_def)
    from set_cluster_spec [OF v b1(2) this] obtain S' b' where
      "fat_set_cluster P F ?c FAT16_EOC b1 = (True, b')" "shows_disk b' S'" "table_to F S S' ((fat_entry F S)(?c := FAT16_EOC))" by blast
    moreover have "?c \<in> free_clusters F S" using True vc by (simp add: free_clusters_def)
    ultimately show ?thesis using b1(1) True by (intro exI [of _ ?c] exI [of _ S'] exI [of _ b']) (simp add: fun_upd_def)
  next
    case False
    have k1: "unat (k + 1) = unat k + 1" using k by (subst unat_add_no_wrap) simp_all
    have "unat (k + 1) \<le> unat c" if "c \<in> free_clusters F S" for c
    proof -
      have "c \<noteq> ?c" using that False by (auto simp: free_clusters_def)
      then have "unat c \<noteq> unat k" using uc by (simp add: word_eq_unat)
      then show ?thesis using Suc.prems(4) that k1 by force
    qed
    then show ?thesis using Suc.IH [OF b1(2)] Suc.prems k1 b1(1) False by auto
  qed
qed

lemma alloc_cluster_spec:
  assumes v: "vol_ok F" and sh: "shows_disk b S" and f: "free_clusters F S \<noteq> {}"
  shows "\<exists>c S' b'. fat_alloc_cluster P F b = (c, b') \<and> shows_disk b' S' \<and> c \<in> free_clusters F S \<and>
    table_to F S S' ((fat_entry F S)(c := FAT16_EOC))"
proof -
  have n: "unat (cluster_count F + 2) = nclus F"
    unfolding nclus_def using vol_okD(2) [OF v] by (subst unat_add_no_wrap) (simp_all add: nclus_def)
  show ?thesis unfolding fat_alloc_cluster_def n
    by (rule alloc_scan_spec [OF v sh]) (use f in \<open>auto simp: free_clusters_def valid_cluster_def nclus_def\<close>)
qed

section \<open>Chains that grow\<close>

definition sound_chain :: "fat_state \<Rightarrow> disk_map \<Rightarrow> u16 list \<Rightarrow> bool" where
  "sound_chain F S cs \<longleftrightarrow> clus_chain F S cs \<and> distinct cs \<and> (\<forall>c\<in>set cs. valid_cluster F c \<and> fat_entry F S c \<noteq> 0)"

text \<open>\<open>cs\<close> has grown to \<open>cs'\<close> by clusters that were free; no other entry and no data have changed.\<close>

definition grows :: "fat_state \<Rightarrow> disk_map \<Rightarrow> u16 list \<Rightarrow> disk_map \<Rightarrow> u16 list \<Rightarrow> bool" where
  "grows F S cs S' cs' \<longleftrightarrow> (\<exists>ns. cs' = cs @ ns \<and> set ns \<subseteq> free_clusters F S) \<and> sound_chain F S' cs' \<and>
     length cs' + card (free_clusters F S') = length cs + card (free_clusters F S) \<and>
     (\<forall>c. valid_cluster F c \<and> c \<notin> set cs' \<longrightarrow> fat_entry F S' c = fat_entry F S c) \<and>
     (\<forall>lba. unat (root_start F) \<le> unat lba \<longrightarrow> S' lba = S lba)"

lemma clus_chain_cong: "\<forall>c\<in>set cs. fat_entry F S' c = fat_entry F S c \<Longrightarrow> clus_chain F S' cs = clus_chain F S cs"
  by (induction F S cs rule: clus_chain.induct) auto

lemma clus_chain_extend:
  assumes "clus_chain F S cs" "distinct (cs @ [d])" "2 \<le> d" "\<not> is_end_cluster d"
    and "\<forall>c\<in>set (butlast cs). fat_entry F S' c = fat_entry F S c" "fat_entry F S' (last cs) = d"
    and "fat_entry F S' d = 0 \<or> is_end_cluster (fat_entry F S' d)"
  shows "clus_chain F S' (cs @ [d])"
  using assms
proof (induction cs)
  case (Cons c cs)
  show ?case
  proof (cases cs)
    case Nil
    then show ?thesis using Cons.prems by simp
  next
    case (Cons c' ds)
    then show ?thesis using Cons.prems Cons.IH by simp
  qed
qed simp

lemma sound_chainD:
  assumes "sound_chain F S cs"
  shows "clus_chain F S cs" "distinct cs" "c \<in> set cs \<Longrightarrow> valid_cluster F c" "c \<in> set cs \<Longrightarrow> fat_entry F S c \<noteq> 0" "cs \<noteq> []"
    "c \<in> set cs \<Longrightarrow> c \<notin> free_clusters F S"
  using assms by (auto simp: sound_chain_def free_clusters_def)

lemma growsD:
  assumes "grows F S cs S' cs'"
  shows "\<exists>ns. cs' = cs @ ns" "set cs \<subseteq> set cs'" "sound_chain F S' cs'" "length cs' + card (free_clusters F S') = length cs + card (free_clusters F S)"
    "valid_cluster F c \<Longrightarrow> c \<notin> set cs' \<Longrightarrow> fat_entry F S' c = fat_entry F S c"
    "unat (root_start F) \<le> unat lba \<Longrightarrow> S' lba = S lba"
    "c \<in> set cs' \<Longrightarrow> c \<notin> set cs \<Longrightarrow> c \<in> free_clusters F S" "i < length cs \<Longrightarrow> cs' ! i = cs ! i" "length cs \<le> length cs'"
  using assms by (auto simp: grows_def nth_append)

lemma grows_refl: "sound_chain F S cs \<Longrightarrow> grows F S cs S cs"
  by (simp add: grows_def)

lemma grows_trans:
  assumes g: "grows F S cs S1 cs1" "grows F S1 cs1 S2 cs2" shows "grows F S cs S2 cs2"
proof -
  obtain ns1 ns2 where n: "cs1 = cs @ ns1" "set ns1 \<subseteq> free_clusters F S" "cs2 = cs1 @ ns2" "set ns2 \<subseteq> free_clusters F S1"
    using g by (auto simp: grows_def)
  have "c \<in> free_clusters F S" if "c \<in> set ns2" for c
  proof -
    have f: "c \<in> free_clusters F S1" using that n(4) by blast
    then have "c \<notin> set cs1" using sound_chainD(6) [OF growsD(3) [OF g(1)]] by blast
    then show ?thesis using growsD(5) [OF g(1), of c] f by (simp add: free_clusters_def)
  qed
  then show ?thesis using n growsD(3,4,5,6) [OF g(2)] growsD(4,5,6) [OF g(1)] by (auto simp: grows_def)
qed

lemma chain_nth_next:
  assumes "clus_chain F S cs" "Suc q < length cs"
  shows "fat_entry F S (cs ! q) = cs ! Suc q" "\<not> (cs ! Suc q = 0 \<or> is_end_cluster (cs ! Suc q))"
proof -
  have "drop q cs = cs ! q # cs ! Suc q # drop (Suc (Suc q)) cs" using assms(2) by (simp add: Cons_nth_drop_Suc)
  then have "clus_chain F S (cs ! q # cs ! Suc q # drop (Suc (Suc q)) cs)" using clus_chain_drop [OF assms(1), of q] assms(2) by simp
  from chain_next [OF this]
  show "fat_entry F S (cs ! q) = cs ! Suc q" "\<not> (cs ! Suc q = 0 \<or> is_end_cluster (cs ! Suc q))" by simp_all
qed

lemma chain_last: "clus_chain F S cs \<Longrightarrow> fat_entry F S (last cs) = 0 \<or> is_end_cluster (fat_entry F S (last cs))"
  by (induction F S cs rule: clus_chain.induct) auto

lemma valid_not_end:
  assumes "vol_ok F" "valid_cluster F c" shows "2 \<le> c" "\<not> is_end_cluster c" "c \<noteq> 0"
  using assms vol_okD(2) [OF assms(1)]
  by (auto simp: valid_cluster_def is_end_cluster_def FAT16_EOC_def word_le_nat_alt)

lemma append_cluster_spec:
  assumes v: "vol_ok F" and sh: "shows_disk b S" and so: "sound_chain F S cs" and f: "free_clusters F S \<noteq> {}"
  shows "\<exists>c S2 b1 b2. fat_alloc_cluster P F b = (c, b1) \<and> c \<noteq> 0 \<and> fat_set_cluster P F (last cs) c b1 = (True, b2) \<and>
    shows_disk b2 S2 \<and> grows F S cs S2 (cs @ [c])"
proof -
  note D = sound_chainD [OF so]
  let ?l = "last cs"
  have l: "?l \<in> set cs" "valid_cluster F ?l" using D by auto
  obtain c S1 b1 where a: "fat_alloc_cluster P F b = (c, b1)" "shows_disk b1 S1" "c \<in> free_clusters F S"
    and t1: "table_to F S S1 ((fat_entry F S)(c := FAT16_EOC))" using alloc_cluster_spec [OF v sh f] by blast
  have vc: "valid_cluster F c" "fat_entry F S c = 0" using a(3) by (simp_all add: free_clusters_def)
  note C = valid_not_end [OF v vc(1)]
  have nc: "c \<notin> set cs" using a(3) D(6) by blast
  obtain S2 b2 where w: "fat_set_cluster P F ?l c b1 = (True, b2)" "shows_disk b2 S2"
    and t2: "table_to F S1 S2 ((fat_entry F S1)(?l := c))"
    using set_cluster_spec [OF v a(2), of ?l P c] l(2) by (auto simp: valid_cluster_def)
  have e: "fat_entry F S2 x = (if x = ?l then c else if x = c then FAT16_EOC else fat_entry F S x)" if "valid_cluster F x" for x
    using that t1 t2 by (simp add: table_to_def valid_cluster_def)
  have up: "S2 lba = S lba" if "unat (root_start F) \<le> unat lba" for lba using that t1 t2 by (simp add: table_to_def)
  have "clus_chain F S2 (cs @ [c])"
  proof (rule clus_chain_extend [OF D(1)])
    have "x \<noteq> ?l" if "x \<in> set (butlast cs)" for x using that D(2,5) by (metis append_butlast_last_id distinct_append disjoint_insert(1) list.set(2) disjoint_iff list.set_intros(1))
    then show "\<forall>x\<in>set (butlast cs). fat_entry F S2 x = fat_entry F S x" using e D(3) nc by (metis in_set_butlastD)
    show "fat_entry F S2 c = 0 \<or> is_end_cluster (fat_entry F S2 c)" using e [OF vc(1)] nc l(1) by (auto simp: is_end_cluster_def)
  qed (use C D(2) nc e [OF l(2)] in auto)
  moreover have "fat_entry F S2 x \<noteq> 0" if "x \<in> set (cs @ [c])" for x
    using that e [of x] D(3,4) [of x] vc(1) C(3) by (cases "x = c") (auto simp: FAT16_EOC_def split: if_splits)
  ultimately have so2: "sound_chain F S2 (cs @ [c])" using D(2,3) nc vc(1) by (auto simp: sound_chain_def)
  have "free_clusters F S2 = free_clusters F S - {c}"
    using e C(3) l D(4) by (auto simp: free_clusters_def FAT16_EOC_def split: if_splits)
  then have "card (free_clusters F S2) + 1 = card (free_clusters F S)" using card_Suc_Diff1 [OF finite_free a(3)] by simp
  then have "grows F S cs S2 (cs @ [c])" using so2 a(3) e up l(1) by (auto simp: grows_def)
  then show ?thesis using a(1) C(3) w by blast
qed

lemma next_or_new_spec:
  assumes v: "vol_ok F" and sh: "shows_disk b S" and so: "sound_chain F S cs" and q: "q < length cs"
    and f: "Suc q < length cs + card (free_clusters F S)"
  shows "\<exists>S' cs' b'. next_or_new P F (cs ! q) b = (Some (cs' ! Suc q), b') \<and> shows_disk b' S' \<and> grows F S cs S' cs' \<and> Suc q < length cs'"
proof -
  note D = sound_chainD [OF so]
  obtain b1 where b1: "fat_next_cluster P F (cs ! q) b = (fat_entry F S (cs ! q), b1)" "shows_disk b1 S"
    using shows_next [OF vol_okD(1) [OF v] sh] by blast
  show ?thesis
  proof (cases "Suc q < length cs")
    case True
    note n = chain_nth_next [OF D(1) True]
    show ?thesis using b1 n True grows_refl [OF so]
      by (intro exI [of _ S] exI [of _ cs] exI [of _ b1]) (simp add: next_or_new_def)
  next
    case False
    then have lst: "cs ! q = last cs" using q D(5) by (simp add: last_conv_nth not_less_eq less_Suc_eq)
    have "fat_entry F S (last cs) = 0 \<or> is_end_cluster (fat_entry F S (last cs))" by (rule chain_last [OF D(1)])
    moreover have "free_clusters F S \<noteq> {}" using f q False by auto
    from append_cluster_spec [OF v b1(2) so this] obtain c S2 b2 b3 where
      "fat_alloc_cluster P F b1 = (c, b2)" "c \<noteq> 0" "fat_set_cluster P F (last cs) c b2 = (True, b3)" "shows_disk b3 S2" "grows F S cs S2 (cs @ [c])"
      by blast
    moreover have "(cs @ [c]) ! Suc q = c" using q False by (simp add: nth_append not_less_eq less_Suc_eq)
    ultimately show ?thesis using b1(1) lst q
      by (intro exI [of _ S2] exI [of _ "cs @ [c]"] exI [of _ b3]) (auto simp: next_or_new_def)
  qed
qed

section \<open>Writing\<close>

lemma write_skip_spec:
  assumes v: "vol_ok F"
  shows "shows_disk b S \<Longrightarrow> sound_chain F S cs \<Longrightarrow> q < length cs \<Longrightarrow> q + unat skip div csz F < length cs + card (free_clusters F S) \<Longrightarrow>
    \<exists>S' cs' sk' b'. write_skip P F (cs ! q) skip b = Some (Some (cs' ! (q + unat skip div csz F), sk'), b') \<and>
      unat sk' = unat skip mod csz F \<and> shows_disk b' S' \<and> grows F S cs S' cs' \<and> q + unat skip div csz F < length cs'"
proof (induction "unat skip div csz F" arbitrary: skip q b S cs)
  case 0
  note z = mountedD(6,7) [OF vol_okD(1) [OF v]]
  have "unat skip < csz F" using 0(1) z(2) by (simp add: div_eq_0_iff)
  then show ?case using 0 z grows_refl [OF 0(3)]
    by (intro exI [of _ S] exI [of _ cs] exI [of _ skip] exI [of _ b]) (subst write_skip.simps, simp add: word_le_nat_alt)
next
  case (Suc n)
  note z = mountedD(6,7) [OF vol_okD(1) [OF v]]
  have ge: "csz F \<le> unat skip" using Suc.hyps(2) by (metis div_less not_less nat.distinct(1))
  have u: "unat (skip - cluster_size F) = unat skip - csz F" using ge by (subst unat_sub) (simp_all add: word_le_nat_alt z)
  have d: "unat skip div csz F = Suc ((unat skip - csz F) div csz F)" "unat skip mod csz F = (unat skip - csz F) mod csz F"
    using ge z(2) by (simp_all add: le_div_geq le_mod_geq)
  have n: "n = unat (skip - cluster_size F) div csz F" using Suc.hyps(2) d(1) u by simp
  have "Suc q < length cs + card (free_clusters F S)" using Suc.prems(4) d(1) by simp
  from next_or_new_spec [OF v Suc.prems(1,2,3) this] obtain S1 cs1 b1 where
    nn: "next_or_new P F (cs ! q) b = (Some (cs1 ! Suc q), b1)" "shows_disk b1 S1" "grows F S cs S1 cs1" "Suc q < length cs1" by blast
  note G = growsD [OF nn(3)]
  have "Suc q + unat (skip - cluster_size F) div csz F < length cs1 + card (free_clusters F S1)"
    using Suc.prems(4) d(1) G(4) u by simp
  from Suc.hyps(1) [OF n nn(2) G(3) nn(4) this] obtain S' cs' sk' b' where
    "write_skip P F (cs1 ! Suc q) (skip - cluster_size F) b1 = Some (Some (cs' ! (Suc q + (unat skip - csz F) div csz F), sk'), b')"
    "unat sk' = (unat skip - csz F) mod csz F" "shows_disk b' S'" "grows F S1 cs1 S' cs'" "Suc q + (unat skip - csz F) div csz F < length cs'"
    unfolding u by blast
  then show ?case using ge nn(1) grows_trans [OF nn(3)] d z
    by (intro exI [of _ S'] exI [of _ cs'] exI [of _ sk'] exI [of _ b']) (subst write_skip.simps, simp add: word_le_nat_alt)
qed

text \<open>Changing one sector of a cluster.\<close>

lemma cluster_bytes_update:
  assumes v: "vol_ok F" and sh: "shows_disk b S" and c: "valid_cluster F c" and i: "i < nspc F" and r: "r + length ys \<le> 512"
    and buf: "S (data_sector F c i) = Some buf"
  shows "cluster_bytes F (S(data_sector F c i \<mapsto> patch r ys buf)) c = patch (i * 512 + r) ys (cluster_bytes F S c)"
proof -
  let ?bl = "map (\<lambda>j. the (S (data_sector F c j))) [0..<nspc F]"
  have "map (\<lambda>j. the ((S(data_sector F c i \<mapsto> patch r ys buf)) (data_sector F c j))) [0..<nspc F] = ?bl[i := patch r ys (?bl ! i)]"
    using i buf data_sector_inj [OF v c c] by (intro nth_equalityI) (auto simp: nth_list_update)
  then show ?thesis unfolding cluster_bytes_def
    using concat_patch_block [OF cluster_blocks [OF sh readable_valid [OF v sh c]], of i r ys] i r by simp
qed

lemma write_cluster_spec:
  assumes v: "vol_ok F" and c: "valid_cluster F c"
  shows "shows_disk b S \<Longrightarrow> unat off \<le> csz F \<Longrightarrow> length src < 2 ^ 64 \<Longrightarrow>
    \<exists>S' b'. write_cluster P F (cluster_to_sector F c) off src b = Some (True, drop (csz F - unat off) src, b') \<and> shows_disk b' S' \<and>
      cluster_bytes F S' c = patch (unat off) (take (csz F - unat off) src) (cluster_bytes F S c) \<and>
      (\<forall>lba. (\<forall>i<nspc F. lba \<noteq> data_sector F c i) \<longrightarrow> S' lba = S lba)"
proof (induction "csz F - unat off" arbitrary: off src b S rule: less_induct)
  case less
  note M = vol_okD(1) [OF v] and sh = less.prems(1)
  have r: "cluster_readable F S c" by (rule readable_valid [OF v sh c])
  have cl: "length (cluster_bytes F S c) = csz F" by (rule length_cluster_bytes [OF sh r])
  have c0: "off < cluster_size F \<longleftrightarrow> unat off < csz F" by (simp add: word_less_nat_alt mountedD(6) [OF M])
  show ?case
  proof (cases "off < cluster_size F \<and> src \<noteq> []")
    case False
    then have "unat off = csz F \<or> src = []" using less.prems(2) c0 by auto
    then show ?thesis using False sh cl by (subst write_cluster.simps) (auto simp: patch_def)
  next
    case True
    then have lt: "unat off < csz F" and ln: "src \<noteq> []" using c0 by simp_all
    let ?i = "unat off div 512" and ?r = "unat off mod 512" and ?sec = "sector_at F (cluster_to_sector F c) off"
    have us: "unat (of_nat (length src) :: u64) = length src" using less.prems(3) by (intro unat_of_nat_small) simp
    let ?k = "chunk_at F off (of_nat (length src))"
    define k where "k = unat ?k"
    have k: "k = min (512 - ?r) (length src)" unfolding k_def at_sector(4) [OF M lt] us ..
    have r5: "?r < 512" by simp
    have i: "?i < nspc F" by (rule at_sector(3) [OF M lt])
    obtain buf where b: "S (data_sector F c ?i) = Some buf" "length buf = 512" using cluster_step [OF M r sh lt] by blast
    have se: "ucast ?sec = data_sector F c ?i" by (rule at_sector(1) [OF M lt])
    obtain b1 where b1: "dir_read_sector P F ?sec b = (Some buf, b1)" "shows_disk b1 S"
      using shows_read [OF M sh, of P ?sec] b(1) se by (auto simp: dir_read_sector_def)
    let ?new = "patch ?r (take k src) buf"
    have rk: "?r + length (take k src) \<le> 512" using k r5 by simp
    have pb: "put_bytes (unat (offset_at F off)) (take k src) buf = ?new"
      unfolding at_sector(2) [OF M lt] using rk b(2) by (intro put_bytes_patch) simp
    have "length ?new = 512" using rk b(2) by simp
    from shows_write [OF M b1(2) this, of P ?sec] obtain b2 where
      b2: "dir_write_sector P F ?sec ?new b1 = (True, b2)" "shows_disk b2 (S(data_sector F c ?i \<mapsto> ?new))" using b(1) se by auto
    have up: "unat off + k \<le> csz F"
    proof -
      define q r where "q = ?i" and "r = ?r"
      have "unat off = q * 512 + r" by (simp add: q_def r_def)
      moreover have "q * 512 + 512 \<le> csz F" using mult_le_mono1 [of "Suc q" "nspc F" 512] i by (simp add: q_def csz_def)
      moreover have "k + r \<le> 512" using k r5 by (simp add: r_def)
      ultimately show ?thesis by simp
    qed
    have pos: "0 < k" using k ln r5 by (simp add: min_def)
    have "csz F < 2 ^ 64" using unat_lt_64 [of "cluster_size F"] mountedD(6) [OF M] by simp
    then have o: "unat (off + ?k) = unat off + k" unfolding k_def using up by (intro unat_add_no_wrap) (simp add: k_def)
    have dec: "csz F - (unat off + k) < csz F - unat off" using up pos by simp
    have ld: "length (drop k src) < 2 ^ 64" using less.prems(3) by simp
    from less.hyps [of "off + ?k" b2 "S(data_sector F c ?i \<mapsto> ?new)" "drop k src", unfolded o, OF dec b2(2) up ld]
    obtain S' b' where IH: "write_cluster P F (cluster_to_sector F c) (off + ?k) (drop k src) b2 =
        Some (True, drop (csz F - (unat off + k)) (drop k src), b')" "shows_disk b' S'"
      "cluster_bytes F S' c = patch (unat off + k) (take (csz F - (unat off + k)) (drop k src)) (cluster_bytes F (S(data_sector F c ?i \<mapsto> ?new)) c)"
      "\<forall>lba. (\<forall>i<nspc F. lba \<noteq> data_sector F c i) \<longrightarrow> S' lba = (S(data_sector F c ?i \<mapsto> ?new)) lba" by blast
    have "cluster_bytes F (S(data_sector F c ?i \<mapsto> ?new)) c = patch (?i * 512 + ?r) (take k src) (cluster_bytes F S c)"
      by (rule cluster_bytes_update [OF v sh c i rk b(1)])
    then have cb: "cluster_bytes F (S(data_sector F c ?i \<mapsto> ?new)) c = patch (unat off) (take k (take (csz F - unat off) src)) (cluster_bytes F S c)"
      using up by (simp add: min_absorb1)
    have tk: "take (csz F - (unat off + k)) (drop k src) = drop k (take (csz F - unat off) src)" by (simp add: drop_take)
    have "cluster_bytes F S' c = patch (unat off) (take (csz F - unat off) src) (cluster_bytes F S c)"
      unfolding IH(3) cb tk by (rule patch_patch) (use up cl k lt in \<open>simp_all add: le_diff_conv2 add.commute\<close>)
    moreover have "drop (csz F - (unat off + k)) (drop k src) = drop (csz F - unat off) src" using up by simp
    moreover have "S' lba = S lba" if "\<forall>i<nspc F. lba \<noteq> data_sector F c i" for lba using IH(4) that i by auto
    ultimately show ?thesis using True b1(1) pb b2(1) IH(1,2)
      by (intro exI [of _ S'] exI [of _ b'], subst write_cluster.simps) (simp add: Let_def k_def [symmetric])
  qed
qed

text \<open>The effect of a write on the volume: the chain grows by free clusters, only its own clusters change, and the
  directory region stays.\<close>

definition writes :: "fat_state \<Rightarrow> disk_map \<Rightarrow> u16 list \<Rightarrow> disk_map \<Rightarrow> u16 list \<Rightarrow> bool" where
  "writes F S cs S' cs' \<longleftrightarrow> (\<exists>ns. cs' = cs @ ns \<and> set ns \<subseteq> free_clusters F S) \<and> sound_chain F S' cs' \<and>
     length cs' + card (free_clusters F S') = length cs + card (free_clusters F S) \<and>
     (\<forall>c. valid_cluster F c \<and> c \<notin> set cs' \<longrightarrow> fat_entry F S' c = fat_entry F S c \<and> cluster_bytes F S' c = cluster_bytes F S c) \<and>
     (\<forall>lba. unat (root_start F) \<le> unat lba \<and> unat lba < unat (data_start F) \<longrightarrow> S' lba = S lba)"

lemma writesD:
  assumes "writes F S cs S' cs'"
  shows "\<exists>ns. cs' = cs @ ns" "set cs \<subseteq> set cs'" "sound_chain F S' cs'" "length cs' + card (free_clusters F S') = length cs + card (free_clusters F S)"
    "valid_cluster F c \<Longrightarrow> c \<notin> set cs' \<Longrightarrow> fat_entry F S' c = fat_entry F S c"
    "valid_cluster F c \<Longrightarrow> c \<notin> set cs' \<Longrightarrow> cluster_bytes F S' c = cluster_bytes F S c"
    "unat (root_start F) \<le> unat lba \<Longrightarrow> unat lba < unat (data_start F) \<Longrightarrow> S' lba = S lba"
    "c \<in> set cs' \<Longrightarrow> c \<notin> set cs \<Longrightarrow> c \<in> free_clusters F S" "i < length cs \<Longrightarrow> cs' ! i = cs ! i" "length cs \<le> length cs'"
  using assms by (auto simp: writes_def nth_append)

lemma cluster_bytes_cong:
  "(\<And>i. i < nspc F \<Longrightarrow> S' (data_sector F c i) = S (data_sector F c i)) \<Longrightarrow> cluster_bytes F S' c = cluster_bytes F S c"
  unfolding cluster_bytes_def by (intro arg_cong [of _ _ concat] map_cong) simp_all

lemma file_bytes_cong: "(\<And>c. c \<in> set cs \<Longrightarrow> cluster_bytes F S' c = cluster_bytes F S c) \<Longrightarrow> file_bytes F S' cs = file_bytes F S cs"
  unfolding file_bytes_def by (intro arg_cong [of _ _ concat] map_cong) simp_all

lemma grows_data:
  assumes "vol_ok F" "grows F S cs S' cs'" "valid_cluster F c" shows "cluster_bytes F S' c = cluster_bytes F S c"
  by (intro cluster_bytes_cong growsD(6) [OF assms(2)]) (use data_place(3) [OF assms(1,3)] vol_okD(4) [OF assms(1)] in force)

lemma grows_writes: "vol_ok F \<Longrightarrow> grows F S cs S' cs' \<Longrightarrow> writes F S cs S' cs'"
  using grows_data [of F S cs S' cs'] by (simp add: grows_def writes_def)

lemma writes_trans:
  assumes g: "writes F S cs S1 cs1" "writes F S1 cs1 S2 cs2"
  shows "writes F S cs S2 cs2"
proof -
  obtain n1 n2 where n: "cs1 = cs @ n1" "set n1 \<subseteq> free_clusters F S" "cs2 = cs1 @ n2" "set n2 \<subseteq> free_clusters F S1"
    using g by (auto simp: writes_def)
  have "c \<in> free_clusters F S" if "c \<in> set n2" for c
  proof -
    have f: "c \<in> free_clusters F S1" using n(4) that by blast
    then have "c \<notin> set cs1" using sound_chainD(6) [OF writesD(3) [OF g(1)]] by blast
    then show ?thesis using writesD(5) [OF g(1), of c] f by (simp add: free_clusters_def)
  qed
  then show ?thesis using n writesD(3,4,5,6,7) [OF g(2)] writesD(4,5,6,7) [OF g(1)] by (auto simp: writes_def)
qed

lemma fat_entry_cong:
  assumes "vol_ok F" "unat c < nclus F" "\<And>lba. unat lba < unat (root_start F) \<Longrightarrow> S' lba = S lba"
  shows "fat_entry F S' c = fat_entry F S c"
  using entry_place(1,3) [OF assms(1,2)] assms(3) by (simp add: fat_entry_def)

text \<open>A change of the data of one cluster of the chain.\<close>

lemma data_change:
  assumes v: "vol_ok F" and so: "sound_chain F S cs" and q: "q < length cs"
    and ch: "\<And>lba. \<forall>i<nspc F. lba \<noteq> data_sector F (cs ! q) i \<Longrightarrow> S1 lba = S lba"
  shows "writes F S cs S1 cs" "valid_cluster F c \<Longrightarrow> fat_entry F S1 c = fat_entry F S c" "free_clusters F S1 = free_clusters F S"
    "valid_cluster F c \<Longrightarrow> c \<noteq> cs ! q \<Longrightarrow> cluster_bytes F S1 c = cluster_bytes F S c"
proof -
  note D = sound_chainD [OF so] and V = vol_okD [OF v]
  have vc: "valid_cluster F (cs ! q)" using D(3) q by simp
  have low: "S1 lba = S lba" if "unat lba < unat (data_start F)" for lba
    using data_place(3) [OF v vc] that by (intro ch) (metis not_less)
  show e: "fat_entry F S1 c = fat_entry F S c" if "valid_cluster F c" for c
    using that low V(4) by (intro fat_entry_cong [OF v]) (simp_all add: valid_cluster_def)
  then show fr: "free_clusters F S1 = free_clusters F S" by (auto simp: free_clusters_def)
  show d: "cluster_bytes F S1 c = cluster_bytes F S c" if "valid_cluster F c" "c \<noteq> cs ! q" for c
    using that data_sector_inj [OF v that(1) vc] by (intro cluster_bytes_cong ch) metis
  have "clus_chain F S1 cs" using D(1) clus_chain_cong [of cs F S1 S] e D(3) by blast
  then have "sound_chain F S1 cs" using D(2,3,4) e by (auto simp: sound_chain_def)
  moreover have "c \<noteq> cs ! q" if "c \<notin> set cs" for c using that q by auto
  ultimately show "writes F S cs S1 cs" using e d fr low by (simp add: writes_def)
qed

lemma file_bytes_update:
  assumes "\<forall>c\<in>set cs. length (cluster_bytes F S c) = csz F" "distinct cs" "q < length cs" "r + length ys \<le> csz F"
    and "cluster_bytes F S1 (cs ! q) = patch r ys (cluster_bytes F S (cs ! q))"
    and "\<And>c. c \<in> set cs \<Longrightarrow> c \<noteq> cs ! q \<Longrightarrow> cluster_bytes F S1 c = cluster_bytes F S c"
  shows "file_bytes F S1 cs = patch (q * csz F + r) ys (file_bytes F S cs)"
proof -
  let ?bl = "map (cluster_bytes F S) cs"
  have "map (cluster_bytes F S1) cs = ?bl[q := patch r ys (?bl ! q)]"
    using assms(2,3,5,6) by (intro nth_equalityI) (auto simp: nth_list_update nth_eq_iff_index_eq)
  then show ?thesis unfolding file_bytes_def using concat_patch_block [of ?bl "csz F" q r ys] assms(1,3,4) by simp
qed

lemma chain_lengths:
  assumes "vol_ok F" "shows_disk b S" "sound_chain F S' cs" "c \<in> set cs" shows "length (cluster_bytes F S c) = csz F"
  using assms readable_valid sound_chainD(3) by (blast intro: length_cluster_bytes)

lemma write_chain_spec:
  assumes v: "vol_ok F"
  shows "shows_disk b S \<Longrightarrow> sound_chain F S cs \<Longrightarrow> q < length cs \<Longrightarrow> unat skip < csz F \<Longrightarrow> length src < 2 ^ 64 \<Longrightarrow>
    q * csz F + unat skip + length src \<le> (length cs + card (free_clusters F S)) * csz F \<Longrightarrow>
    \<exists>S' cs' b'. write_chain P F (cs ! q) skip src b = Some (Write_done, b') \<and> shows_disk b' S' \<and> writes F S cs S' cs' \<and>
      q * csz F + unat skip + length src \<le> length cs' * csz F \<and>
      file_bytes F S' cs' = patch (q * csz F + unat skip) src (file_bytes F S cs')"
proof (induction "length src" arbitrary: src q skip b S cs rule: less_induct)
  case less
  note sh = less.prems(1) and so = less.prems(2) and q = less.prems(3) and lt = less.prems(4) and room = less.prems(6)
  have qc: "q * csz F + csz F \<le> length cs * csz F" using mult_le_mono1 [of "Suc q" "length cs" "csz F"] q by simp
  show ?case
  proof (cases "src = []")
    case True
    then show ?thesis using sh lt qc grows_writes [OF v grows_refl [OF so]]
      by (intro exI [of _ S] exI [of _ cs] exI [of _ b], subst write_chain.simps) (simp add: patch_def)
  next
    case False
    let ?c = "cs ! q" and ?k = "csz F - unat skip"
    have vc: "valid_cluster F ?c" using sound_chainD(3) [OF so] q by simp
    obtain S1 b1 where w: "write_cluster P F (cluster_to_sector F ?c) skip src b = Some (True, drop ?k src, b1)" "shows_disk b1 S1"
      "cluster_bytes F S1 ?c = patch (unat skip) (take ?k src) (cluster_bytes F S ?c)"
      "\<And>lba. \<forall>i<nspc F. lba \<noteq> data_sector F ?c i \<Longrightarrow> S1 lba = S lba"
      using write_cluster_spec [OF v vc sh less_imp_le [OF lt] less.prems(5), of P] by blast
    note dc = data_change [OF v so q w(4)]
    have so1: "sound_chain F S1 cs" by (rule writesD(3) [OF dc(1)])
    have up: "file_bytes F S1 cs' = patch (q * csz F + unat skip) (take ?k src) (file_bytes F S cs')"
      if "writes F S0 cs S0' cs'" for S0 S0' cs'
    proof -
      have q': "q < length cs'" "cs' ! q = ?c" using q writesD(9,10) [OF that] by (auto simp: less_le_trans)
      have so': "sound_chain F S0' cs'" by (rule writesD(3) [OF that])
      show ?thesis by (rule file_bytes_update) (use chain_lengths [OF v sh so'] sound_chainD(2,3) [OF so'] q' w(3) dc(4) lt in auto)
    qed
    show ?thesis
    proof (cases "drop ?k src = []")
      case True
      then have t: "take ?k src = src" "length src \<le> ?k" by simp_all
      have "q * csz F + unat skip + length src \<le> length cs * csz F" using t(2) qc lt by simp
      then show ?thesis using False True w(1,2) up [OF dc(1)] t(1) dc(1)
        by (intro exI [of _ S1] exI [of _ cs] exI [of _ b1], subst write_chain.simps) simp
    next
      case more: False
      then have kl: "?k < length src" by simp
      have sum: "Suc q * csz F + (length src - ?k) = q * csz F + unat skip + length src" using kl lt by simp
      have "Suc q * csz F < (length cs + card (free_clusters F S1)) * csz F" using room sum kl dc(3) by simp
      then have "Suc q < length cs + card (free_clusters F S1)" using mult_less_cancel2 by blast
      from next_or_new_spec [OF v w(2) so1 q this] obtain S2 cs2 b2 where
        n: "next_or_new P F ?c b1 = (Some (cs2 ! Suc q), b2)" "shows_disk b2 S2" "grows F S1 cs S2 cs2" "Suc q < length cs2" by blast
      note G = growsD [OF n(3)]
      have z: "unat (0 :: u64) < csz F" using lt by simp
      have ls: "length (drop ?k src) < length src" "length (drop ?k src) < 2 ^ 64" using kl lt less.prems(5) by simp_all
      have "Suc q * csz F + unat (0 :: u64) + length (drop ?k src) \<le> (length cs2 + card (free_clusters F S2)) * csz F"
        using room sum G(4) dc(3) by simp
      from less.hyps [OF ls(1) n(2) G(3) n(4) z ls(2) this] obtain S' cs' b' where
        IH: "write_chain P F (cs2 ! Suc q) 0 (drop ?k src) b2 = Some (Write_done, b')" "shows_disk b' S'" "writes F S2 cs2 S' cs'"
        "Suc q * csz F + unat (0 :: u64) + length (drop ?k src) \<le> length cs' * csz F"
        "file_bytes F S' cs' = patch (Suc q * csz F + unat (0 :: u64)) (drop ?k src) (file_bytes F S2 cs')" by blast
      have W: "writes F S cs S' cs'" by (rule writes_trans [OF dc(1) writes_trans [OF grows_writes [OF v n(3)] IH(3)]])
      have le: "q * csz F + unat skip + length src \<le> length cs' * csz F" using IH(4) sum by simp
      have f2: "file_bytes F S2 cs' = patch (q * csz F + unat skip) (take ?k src) (file_bytes F S cs')"
        using up [OF W] file_bytes_cong [of cs' F S2 S1] grows_data [OF v n(3)] sound_chainD(3) [OF writesD(3) [OF W]] by simp
      have lf: "length (file_bytes F S cs') = length cs' * csz F"
        using sh readable_valid [OF v sh] sound_chainD(3) [OF writesD(3) [OF W]] by (intro length_file_bytes) auto
      have at: "Suc q * csz F + unat (0 :: u64) = (q * csz F + unat skip) + ?k" using lt by simp
      have "file_bytes F S' cs' = patch (q * csz F + unat skip) src (file_bytes F S cs')"
        unfolding IH(5) f2 at by (rule patch_patch) (use kl le lf in simp_all)
      then show ?thesis using False more w(1) n(1) IH(1,2) W le
        by (intro exI [of _ S'] exI [of _ cs'] exI [of _ b'], subst write_chain.simps) simp
    qed
  qed
qed

section \<open>Writing a file\<close>

text \<open>Beside \<^const>\<open>writes\<close>, the sector \<open>d\<close> of the directory may change, and the chain may start empty.\<close>

definition saved :: "fat_state \<Rightarrow> u64 \<Rightarrow> disk_map \<Rightarrow> u16 list \<Rightarrow> disk_map \<Rightarrow> u16 list \<Rightarrow> bool" where
  "saved F d S cs S' cs' \<longleftrightarrow> (\<exists>ns. cs' = cs @ ns \<and> set ns \<subseteq> free_clusters F S) \<and> sound_chain F S' cs' \<and>
     (\<forall>c. valid_cluster F c \<and> c \<notin> set cs' \<longrightarrow> fat_entry F S' c = fat_entry F S c \<and> cluster_bytes F S' c = cluster_bytes F S c) \<and>
     (\<forall>lba. unat (root_start F) \<le> unat lba \<and> unat lba < unat (data_start F) \<and> lba \<noteq> d \<longrightarrow> S' lba = S lba)"

definition root_file :: "fat_state \<Rightarrow> fat_file \<Rightarrow> bool" where
  "root_file F file \<longleftrightarrow> unat (root_start F) \<le> unat (dir_sector file) \<and> unat (dir_sector file) < unat (data_start F) \<and>
     unat (dir_offset file) + 32 \<le> 512"

definition own_chain :: "fat_state \<Rightarrow> disk_map \<Rightarrow> fat_file \<Rightarrow> u16 list \<Rightarrow> bool" where
  "own_chain F S file cs \<longleftrightarrow> (if cs = [] then start_cluster file = 0 else sound_chain F S cs \<and> start_cluster file = ucast (hd cs))"

lemma savedD:
  assumes "saved F d S cs S' cs'"
  shows "\<exists>ns. cs' = cs @ ns \<and> set ns \<subseteq> free_clusters F S" "sound_chain F S' cs'"
    "valid_cluster F c \<Longrightarrow> c \<notin> set cs' \<Longrightarrow> fat_entry F S' c = fat_entry F S c"
    "valid_cluster F c \<Longrightarrow> c \<notin> set cs' \<Longrightarrow> cluster_bytes F S' c = cluster_bytes F S c"
    "unat (root_start F) \<le> unat lba \<Longrightarrow> unat lba < unat (data_start F) \<Longrightarrow> lba \<noteq> d \<Longrightarrow> S' lba = S lba"
  using assms by (simp_all add: saved_def)

lemma saved_writes:
  assumes g: "saved F d S cs S1 cs1" "writes F S1 cs1 S2 cs2"
  shows "saved F d S cs S2 cs2"
proof -
  obtain n1 n2 where n: "cs1 = cs @ n1" "set n1 \<subseteq> free_clusters F S" "cs2 = cs1 @ n2" "set n2 \<subseteq> free_clusters F S1"
    using g by (auto simp: saved_def writes_def)
  have so: "sound_chain F S1 cs1" using g(1) by (simp add: saved_def)
  have "c \<in> free_clusters F S" if "c \<in> set n2" for c
  proof -
    have f: "c \<in> free_clusters F S1" using n(4) that by blast
    then have "c \<notin> set cs1" using sound_chainD(6) [OF so] by blast
    then show ?thesis using savedD(3) [OF g(1), of c] f by (simp add: free_clusters_def)
  qed
  then show ?thesis using n savedD(3,4,5) [OF g(1)] writesD(3,5,6,7) [OF g(2)] by (auto simp: saved_def)
qed

lemma dir_change:
  assumes v: "vol_ok F" and d: "unat (root_start F) \<le> unat d" "unat d < unat (data_start F)"
  shows "valid_cluster F c \<Longrightarrow> fat_entry F (S(d \<mapsto> buf)) c = fat_entry F S c"
    "valid_cluster F c \<Longrightarrow> cluster_bytes F (S(d \<mapsto> buf)) c = cluster_bytes F S c"
    "free_clusters F (S(d \<mapsto> buf)) = free_clusters F S" "sound_chain F (S(d \<mapsto> buf)) cs = sound_chain F S cs"
proof -
  show e: "fat_entry F (S(d \<mapsto> buf)) c = fat_entry F S c" if "valid_cluster F c" for c
    using that d by (intro fat_entry_cong [OF v]) (auto simp: valid_cluster_def)
  show "cluster_bytes F (S(d \<mapsto> buf)) c = cluster_bytes F S c" if "valid_cluster F c" for c
  proof (rule cluster_bytes_cong)
    fix i assume "i < nspc F"
    then have "data_sector F c i \<noteq> d" using data_place(3) [OF v that] d(2) leD by blast
    then show "(S(d \<mapsto> buf)) (data_sector F c i) = S (data_sector F c i)" by simp
  qed
  show "free_clusters F (S(d \<mapsto> buf)) = free_clusters F S" using e by (auto simp: free_clusters_def)
  show "sound_chain F (S(d \<mapsto> buf)) cs = sound_chain F S cs"
  proof (cases "\<forall>c\<in>set cs. valid_cluster F c")
    case True
    then have "\<forall>c\<in>set cs. fat_entry F (S(d \<mapsto> buf)) c = fat_entry F S c" using e by blast
    then show ?thesis using clus_chain_cong [of cs F "S(d \<mapsto> buf)" S] by (simp add: sound_chain_def)
  next
    case False
    then show ?thesis unfolding sound_chain_def by blast
  qed
qed

lemma saved_dir:
  assumes "vol_ok F" "unat (root_start F) \<le> unat d" "unat d < unat (data_start F)" "saved F d S cs S1 cs1"
  shows "saved F d S cs (S1(d \<mapsto> buf)) cs1"
  using assms(4) dir_change [OF assms(1-3)] by (simp add: saved_def)

text \<open>The root directory stays as it is, except for the 32 bytes of the entry of \<open>file\<close>.\<close>

definition dir_same :: "fat_state \<Rightarrow> fat_file \<Rightarrow> disk_map \<Rightarrow> disk_map \<Rightarrow> bool" where
  "dir_same F file S S' \<longleftrightarrow>
     (\<forall>lba bs i. unat (root_start F) \<le> unat lba \<and> unat lba < unat (data_start F) \<and> S lba = Some bs \<and> i < length bs \<and>
        \<not> (lba = ucast (dir_sector file) \<and> unat (dir_offset file) \<le> i \<and> i < unat (dir_offset file) + 32) \<longrightarrow>
        (\<exists>bs'. S' lba = Some bs' \<and> i < length bs' \<and> bs' ! i = bs ! i))"

lemma dir_same_eq:
  assumes "\<And>lba. unat (root_start F) \<le> unat lba \<Longrightarrow> unat lba < unat (data_start F) \<Longrightarrow> S' lba = S lba"
  shows "dir_same F file S S'"
  using assms by (simp add: dir_same_def)

lemma dir_same_trans:
  assumes a: "dir_same F file S S1" and b: "dir_same F file S1 S2"
  shows "dir_same F file S S2"
  unfolding dir_same_def
proof (intro allI impI)
  fix lba bs i
  assume p: "unat (root_start F) \<le> unat lba \<and> unat lba < unat (data_start F) \<and> S lba = Some bs \<and> i < length bs \<and>
    \<not> (lba = ucast (dir_sector file) \<and> unat (dir_offset file) \<le> i \<and> i < unat (dir_offset file) + 32)"
  then obtain bs1 where 1: "S1 lba = Some bs1" "i < length bs1" "bs1 ! i = bs ! i" using a [unfolded dir_same_def] by blast
  moreover obtain bs2 where "S2 lba = Some bs2" "i < length bs2" "bs2 ! i = bs1 ! i"
    using p 1 b [unfolded dir_same_def] by blast
  ultimately show "\<exists>bs'. S2 lba = Some bs' \<and> i < length bs' \<and> bs' ! i = bs ! i" by simp
qed

lemma dir_same_patch:
  assumes "S (ucast (dir_sector file)) = Some buf" "unat (dir_offset file) + n + length ys \<le> length buf" "n + length ys \<le> 32"
  shows "dir_same F file S (S(ucast (dir_sector file) \<mapsto> patch (unat (dir_offset file) + n) ys buf))"
  using assms by (auto simp: dir_same_def nth_patch)

lemma dir_patch:
  assumes v: "vol_ok F" and sh: "shows_disk b S" and rf: "root_file F file" and n: "n + length ys \<le> 32"
  shows "\<exists>buf b1 b2 bs. dir_read_sector P F (dir_sector file) b = (Some buf, b1) \<and>
    dir_write_sector P F (dir_sector file) (put_bytes (unat (dir_offset file) + n) ys buf) b1 = (True, b2) \<and>
    shows_disk b2 (S(ucast (dir_sector file) \<mapsto> bs)) \<and> dir_same F file S (S(ucast (dir_sector file) \<mapsto> bs))"
proof -
  note M = vol_okD(1) [OF v]
  have n': "unat (dir_offset file) + n + length ys \<le> 512" using n rf by (simp add: root_file_def)
  have "unat (ucast (dir_sector file) :: u64) < 8192"
    using rf vol_okD(5) [OF v] by (simp add: unat_u32(2) root_file_def)
  then obtain buf where buf: "S (ucast (dir_sector file)) = Some buf" "length buf = 512" using shows_some [OF sh] by blast
  obtain b1 where b1: "dir_read_sector P F (dir_sector file) b = (Some buf, b1)" "shows_disk b1 S"
    using shows_read [OF M sh, of P "dir_sector file"] buf(1) by (auto simp: dir_read_sector_def)
  have pb: "put_bytes (unat (dir_offset file) + n) ys buf = patch (unat (dir_offset file) + n) ys buf"
    using n' buf(2) by (intro put_bytes_patch) simp
  then have "length (put_bytes (unat (dir_offset file) + n) ys buf) = 512" using n' buf(2) by simp
  from shows_write [OF M b1(2) this, of P "dir_sector file"] show ?thesis
    using b1(1) buf dir_same_patch [where F = F and S = S, OF buf(1) _ n] n' by (auto simp: pb)
qed

lemma first_cluster_spec:
  assumes v: "vol_ok F" and sh: "shows_disk b S" and rf: "root_file F file" and oc: "own_chain F S file cs"
    and f: "0 < length cs + card (free_clusters F S)"
  shows "\<exists>cs1 S1 b1. first_cluster P F file b = (True, file\<lparr>start_cluster := ucast (hd cs1)\<rparr>, b1) \<and> shows_disk b1 S1 \<and>
    saved F (ucast (dir_sector file)) S cs S1 cs1 \<and> length cs1 + card (free_clusters F S1) = length cs + card (free_clusters F S) \<and>
    (\<forall>c. valid_cluster F c \<longrightarrow> cluster_bytes F S1 c = cluster_bytes F S c) \<and> dir_same F file S S1"
proof (cases "cs = []")
  case False
  then have so: "sound_chain F S cs" "start_cluster file = ucast (hd cs)" using oc by (simp_all add: own_chain_def)
  have "hd cs \<noteq> 0" using sound_chainD(3,5) [OF so(1)] valid_not_end(3) [OF v] by simp
  then have "start_cluster file \<noteq> 0" using so(2) unat_u16(2) [of "hd cs"] by (metis unat_0 unat_eq_zero)
  then have "first_cluster P F file b = (True, file\<lparr>start_cluster := ucast (hd cs)\<rparr>, b)" unfolding so(2) [symmetric] by (simp add: first_cluster_def)
  moreover have "saved F (ucast (dir_sector file)) S cs S cs" using so(1) by (simp add: saved_def)
  ultimately show ?thesis using sh dir_same_eq [of F S S] by blast
next
  case True
  then have st: "start_cluster file = 0" using oc by (simp add: own_chain_def)
  have "free_clusters F S \<noteq> {}" using f True by auto
  then obtain c S1 b1 where a: "fat_alloc_cluster P F b = (c, b1)" "shows_disk b1 S1" "c \<in> free_clusters F S"
    and t1: "table_to F S S1 ((fat_entry F S)(c := FAT16_EOC))" using alloc_cluster_spec [OF v sh] by blast
  have vc: "valid_cluster F c" using a(3) by (simp add: free_clusters_def)
  note C = valid_not_end [OF v vc]
  let ?d = "ucast (dir_sector file) :: u64"
  have d: "unat (root_start F) \<le> unat ?d" "unat ?d < unat (data_start F)" using rf by (simp_all add: root_file_def unat_u32(2))
  obtain buf b2 b3 bs where w: "dir_read_sector P F (dir_sector file) b1 = (Some buf, b2)"
    "dir_write_sector P F (dir_sector file) (put_bytes (unat (dir_offset file) + 26) [ucast c, ucast (drop_bit 8 c)] buf) b2 = (True, b3)"
    "shows_disk b3 (S1(?d \<mapsto> bs))" "dir_same F file S1 (S1(?d \<mapsto> bs))"
    using dir_patch [OF v a(2) rf, of 26 "[ucast c, ucast (drop_bit 8 c)]" P] by auto
  have e: "fat_entry F S1 x = (if x = c then FAT16_EOC else fat_entry F S x)" if "valid_cluster F x" for x
    using that t1 by (simp add: table_to_def valid_cluster_def)
  have up: "S1 lba = S lba" if "unat (root_start F) \<le> unat lba" for lba using that t1 by (simp add: table_to_def)
  have by1: "cluster_bytes F S1 x = cluster_bytes F S x" if "valid_cluster F x" for x
    using up data_place(3) [OF v that] vol_okD(4) [OF v] by (intro cluster_bytes_cong) force
  have "sound_chain F S1 [c]" using e [OF vc] vc C by (simp add: sound_chain_def is_end_cluster_def FAT16_EOC_def)
  then have sv: "saved F ?d S cs S1 [c]" using True a(3) e up by1 by (simp add: saved_def)
  have "free_clusters F S1 = free_clusters F S - {c}" using e by (auto simp: free_clusters_def FAT16_EOC_def split: if_splits)
  then have "card (free_clusters F S1) + 1 = card (free_clusters F S)" using card_Suc_Diff1 [OF finite_free a(3)] by simp
  then have "length [c] + card (free_clusters F (S1(?d \<mapsto> bs))) = length cs + card (free_clusters F S)"
    unfolding dir_change(3) [OF v d] True by simp
  moreover have "first_cluster P F file b = (True, file\<lparr>start_cluster := ucast (hd [c])\<rparr>, b3)"
    using st a(1) C(3) w(1,2) by (simp add: first_cluster_def)
  moreover have "\<forall>x. valid_cluster F x \<longrightarrow> cluster_bytes F (S1(?d \<mapsto> bs)) x = cluster_bytes F S x"
    using dir_change(2) [OF v d] by1 by simp
  moreover have "dir_same F file S (S1(?d \<mapsto> bs))" using up by (intro dir_same_trans [OF dir_same_eq w(4)]) blast
  ultimately show ?thesis using w(3) saved_dir [OF v d sv, of bs] by blast
qed

lemma update_size_spec:
  assumes v: "vol_ok F" and sh: "shows_disk b S" and rf: "root_file F file" and e: "unat (end_pos :: u64) < 2 ^ 32"
  shows "\<exists>sz S' b'. update_size P F file end_pos b = (file\<lparr>file_size := sz\<rparr>, b') \<and> shows_disk b' S' \<and>
    (S' = S \<or> (\<exists>bs. S' = S(ucast (dir_sector file) \<mapsto> bs))) \<and> unat sz = max (unat (file_size file)) (unat end_pos) \<and>
    dir_same F file S S'"
proof (cases "end_pos > ucast (file_size file)")
  case False
  then show ?thesis using sh by (intro exI [of _ "file_size file"] exI [of _ S] exI [of _ b])
    (simp add: update_size_def word_less_nat_alt unat_u32(2) max_def dir_same_eq)
next
  case True
  obtain buf b1 b2 bs where w: "dir_read_sector P F (dir_sector file) b = (Some buf, b1)"
    "dir_write_sector P F (dir_sector file) (put_bytes (unat (dir_offset file) + 28) (size_bytes (ucast end_pos)) buf) b1 = (True, b2)"
    "shows_disk b2 (S(ucast (dir_sector file) \<mapsto> bs))" "dir_same F file S (S(ucast (dir_sector file) \<mapsto> bs))"
    using dir_patch [OF v sh rf, of 28 "size_bytes (ucast end_pos)" P] by (auto simp: size_bytes_def)
  have "unat (ucast end_pos :: u32) = max (unat (file_size file)) (unat end_pos)"
  proof -
    have "unat (file_size file) < unat end_pos" using True by (simp add: word_less_nat_alt unat_u32(2))
    then show ?thesis using e by (simp add: unat_ucast_mod max_def)
  qed
  then show ?thesis using True w
    by (intro exI [of _ "ucast end_pos"] exI [of _ "S(ucast (dir_sector file) \<mapsto> bs)"] exI [of _ b2]) (auto simp: update_size_def Let_def)
qed

text \<open>The clusters of a volume hold at most the RAM disk.\<close>

lemma room_bound:
  assumes v: "vol_ok F" and so: "cs = [] \<or> sound_chain F S cs"
  shows "(length cs + card (free_clusters F S)) * csz F \<le> 8192 * 512"
proof -
  let ?A = "set cs \<union> free_clusters F S"
  have d: "distinct cs" "set cs \<inter> free_clusters F S = {}" using so sound_chainD(2,6) by auto
  have vc: "valid_cluster F c" if "c \<in> ?A" for c using that so sound_chainD(3) by (auto simp: free_clusters_def)
  have "unat ` ?A \<subseteq> {2..<nclus F}" using vc by (auto simp: valid_cluster_def)
  then have "card (unat ` ?A) \<le> unat (cluster_count F)" using card_mono [of "{2..<nclus F}" "unat ` ?A"] by (simp add: nclus_def)
  moreover have "card (unat ` ?A) = card ?A" by (rule card_image) (simp add: inj_on_def word_unat_eq_iff)
  moreover have "card ?A = length cs + card (free_clusters F S)"
    using d by (subst card_Un_disjoint) (simp_all add: distinct_card)
  ultimately have "(length cs + card (free_clusters F S)) * nspc F \<le> unat (cluster_count F) * nspc F" by simp
  also have "\<dots> \<le> 8192" using vol_okD(5) [OF v] by simp
  finally have "(length cs + card (free_clusters F S)) * nspc F * 512 \<le> 8192 * 512" by (rule mult_le_mono1)
  then show ?thesis by (simp only: csz_def mult.assoc)
qed

text \<open>A write within the room of the volume succeeds: the bytes stand in the file at the offset, around what it held.\<close>

lemma fat_write_spec:
  assumes v: "vol_ok F" and sh: "shows_disk b S" and rf: "root_file F file" and oc: "own_chain F S file cs"
    and pl: "\<not> is_dir file" "attr file AND 0x01 = 0" "src \<noteq> []"
    and room: "unat off + length src \<le> (length cs + card (free_clusters F S)) * csz F"
  shows "\<exists>cs' S' st sz b'. fat_write P F file off src b =
      Ret (int (length src), off + of_nat (length src), file\<lparr>start_cluster := st, file_size := sz\<rparr>, b') \<and>
    shows_disk b' S' \<and> saved F (ucast (dir_sector file)) S cs S' cs' \<and> st = ucast (hd cs') \<and>
    unat sz = max (unat (file_size file)) (unat off + length src) \<and> unat off + length src \<le> length cs' * csz F \<and>
    file_bytes F S' cs' = patch (unat off) src (file_bytes F S cs') \<and> dir_same F file S S'"
proof -
  note M = vol_okD(1) [OF v]
  have cz: "0 < csz F" by (rule mountedD(7) [OF M])
  have "cs = [] \<or> sound_chain F S cs" using oc by (simp add: own_chain_def split: if_splits)
  then have rb: "unat off + length src \<le> 8192 * 512" using room room_bound [OF v, of cs S] by linarith
  have us: "unat (of_nat (length src) :: u64) = length src" using rb by (intro unat_of_nat_small) simp
  have ep: "unat (off + of_nat (length src)) = unat off + length src" using rb us by (subst unat_add_no_wrap) simp_all
  have ls: "length src < 2 ^ 64" using rb by simp
  have l0: "0 < length src" using pl(3) by simp
  then have "0 < (length cs + card (free_clusters F S)) * csz F" using room by linarith
  then have "0 < length cs + card (free_clusters F S)" by (rule contrapos_pp) simp
  from first_cluster_spec [OF v sh rf oc this, of P] obtain cs1 S1 b1 where
    fc: "first_cluster P F file b = (True, file\<lparr>start_cluster := ucast (hd cs1)\<rparr>, b1)" "shows_disk b1 S1"
    "saved F (ucast (dir_sector file)) S cs S1 cs1" "length cs1 + card (free_clusters F S1) = length cs + card (free_clusters F S)"
    "\<And>c. valid_cluster F c \<Longrightarrow> cluster_bytes F S1 c = cluster_bytes F S c" "dir_same F file S S1" by blast
  have so1: "sound_chain F S1 cs1" by (rule savedD(2) [OF fc(3)])
  then have h1: "0 < length cs1" "hd cs1 = cs1 ! 0" using sound_chainD(5) by (auto simp: hd_conv_nth)
  define n where "n = unat off div csz F"
  have dm: "n * csz F + unat off mod csz F = unat off" by (simp add: n_def)
  have "n < length cs1 + card (free_clusters F S1)"
  proof -
    have "unat off < (length cs1 + card (free_clusters F S1)) * csz F" unfolding fc(4) using room l0 by linarith
    then show ?thesis by (simp add: n_def less_mult_imp_div_less)
  qed
  then have "0 + unat off div csz F < length cs1 + card (free_clusters F S1)" by (simp add: n_def)
  from write_skip_spec [OF v fc(2) so1 h1(1) this, of P] obtain S2 cs2 sk b2 where
    ws: "write_skip P F (hd cs1) off b1 = Some (Some (cs2 ! n, sk), b2)" "unat sk = unat off mod csz F" "shows_disk b2 S2"
    "grows F S1 cs1 S2 cs2" "n < length cs2" unfolding n_def h1(2) by auto
  note G = growsD [OF ws(4)]
  have skl: "unat sk < csz F" using ws(2) cz by simp
  have "n * csz F + unat sk + length src \<le> (length cs2 + card (free_clusters F S2)) * csz F"
    unfolding ws(2) dm G(4) fc(4) by (rule room)
  from write_chain_spec [OF v ws(3) G(3) ws(5) skl ls this, of P, unfolded ws(2) dm] obtain S3 cs3 b3 where
    wc: "write_chain P F (cs2 ! n) sk src b2 = Some (Write_done, b3)" "shows_disk b3 S3" "writes F S2 cs2 S3 cs3"
    "unat off + length src \<le> length cs3 * csz F" "file_bytes F S3 cs3 = patch (unat off) src (file_bytes F S2 cs3)" by blast
  have W: "saved F (ucast (dir_sector file)) S cs S3 cs3"
    by (rule saved_writes [OF saved_writes [OF fc(3) grows_writes [OF v ws(4)]] wc(3)])
  have hd3: "hd cs3 = hd cs1" using G(1) writesD(1) [OF wc(3)] h1(1) by auto
  have v3: "valid_cluster F c" if "c \<in> set cs3" for c using sound_chainD(3) [OF savedD(2) [OF W] that] .
  have b3: "file_bytes F S2 cs3 = file_bytes F S cs3"
    using grows_data [OF v ws(4)] fc(5) v3 by (intro file_bytes_cong) simp
  let ?f1 = "file\<lparr>start_cluster := ucast (hd cs1)\<rparr>"
  have rf1: "root_file F ?f1" and e32: "unat (off + of_nat (length src)) < 2 ^ 32"
    using rf rb ep by (simp_all add: root_file_def)
  from update_size_spec [OF v wc(2) rf1 e32, of P] obtain sz S4 b4 where
    us4: "update_size P F ?f1 (off + of_nat (length src)) b3 = (?f1\<lparr>file_size := sz\<rparr>, b4)" "shows_disk b4 S4"
    "S4 = S3 \<or> (\<exists>bs. S4 = S3(ucast (dir_sector file) \<mapsto> bs))" "unat sz = max (unat (file_size file)) (unat off + length src)"
    "dir_same F file S3 S4" unfolding ep by (auto simp: dir_same_def)
  have "dir_same F file S1 S3"
    using writesD(7) [OF grows_writes [OF v ws(4)]] writesD(7) [OF wc(3)] by (intro dir_same_eq) simp
  then have ds: "dir_same F file S S4" using fc(6) us4(5) dir_same_trans by blast
  have d: "unat (root_start F) \<le> unat (ucast (dir_sector file) :: u64)" "unat (ucast (dir_sector file) :: u64) < unat (data_start F)"
    using rf by (simp_all add: root_file_def unat_u32(2))
  have W4: "saved F (ucast (dir_sector file)) S cs S4 cs3" using us4(3) W saved_dir [OF v d W] by auto
  have "cluster_bytes F S4 c = cluster_bytes F S3 c" if "valid_cluster F c" for c using us4(3) dir_change(2) [OF v d that] by auto
  then have b4: "file_bytes F S4 cs3 = patch (unat off) src (file_bytes F S cs3)"
    using wc(5) b3 v3 file_bytes_cong [of cs3 F S4 S3] by simp
  have nw: "\<not> off + of_nat (length src) < off" using ep by (simp add: word_less_nat_alt)
  have "ucast (ucast (hd cs1) :: u32) = hd cs1" by simp
  then have "fat_write P F file off src b = Ret (int (length src), off + of_nat (length src), file\<lparr>start_cluster := ucast (hd cs3), file_size := sz\<rparr>, b4)"
    using pl mountedD(1) [OF M] nw fc(1) ws(1) wc(1) us4(1) hd3 by (simp add: fat_write_def Let_def loop_run_def)
  then show ?thesis using us4(2,4) W4 wc(4) b4 ds by blast
qed

text \<open>(C4) What is written to a file comes back: for a file of the root directory that may be written, on a volume of
  the RAM disk, a write that the free clusters can hold returns the number of its bytes and moves the offset past
  them, and reading the updated file at the old offset gives exactly those bytes and the same offset.\<close>

theorem fat_write_read_back:
  assumes "vol_ok F" "shows_disk b S" "root_file F file" "own_chain F S file cs" "unat (file_size file) \<le> length cs * csz F"
    and "\<not> is_dir file" "attr file AND 0x01 = 0" "src \<noteq> []"
    and "unat off + length src \<le> (length cs + card (free_clusters F S)) * csz F"
  shows "\<exists>file' b' b''. fat_write P F file off src b = Ret (int (length src), off + of_nat (length src), file', b') \<and>
    fat_read P F file' off (of_nat (length src)) b' = Ret (int (length src), src, off + of_nat (length src), b'')"
proof -
  from fat_write_spec [OF assms(1-4,6-9), of P] obtain cs' S' st sz b' where
    w: "fat_write P F file off src b = Ret (int (length src), off + of_nat (length src), file\<lparr>start_cluster := st, file_size := sz\<rparr>, b')"
    "shows_disk b' S'" "saved F (ucast (dir_sector file)) S cs S' cs'" "st = ucast (hd cs')"
    "unat sz = max (unat (file_size file)) (unat off + length src)" "unat off + length src \<le> length cs' * csz F"
    "file_bytes F S' cs' = patch (unat off) src (file_bytes F S cs')" by blast
  note D = sound_chainD [OF savedD(2) [OF w(3)]]
  have r: "\<forall>c\<in>set cs'. cluster_readable F S' c" "\<forall>c\<in>set cs'. cluster_readable F S c"
    using D(3) readable_valid [OF assms(1)] w(2) assms(2) by blast+
  have "length cs \<le> length cs'" using savedD(1) [OF w(3)] by auto
  then have "length cs * csz F \<le> length cs' * csz F" by (rule mult_le_mono1)
  with assms(5) have sc: "unat (file_size file) \<le> length cs' * csz F" by (rule le_trans)
  have fc: "file_chain F S' (file\<lparr>start_cluster := st, file_size := sz\<rparr>) cs'"
    using D(1) w(4,5,6) r(1) sc by (simp add: file_chain_def)
  have lf: "length (file_bytes F S cs') = length cs' * csz F" by (rule length_file_bytes [OF assms(2) r(2)])
  have lb: "unat off + length src \<le> unat sz" using w(5) by simp
  have us: "unat (of_nat (length src) :: u64) = length src" using lb unat_u32(1) [of sz] by (intro unat_of_nat_small) simp
  have "take (length src) (drop (unat off) (take (unat sz) (patch (unat off) src (file_bytes F S cs')))) = src"
    using lb lf w(6) drop_patch_within [of "unat off" src "file_bytes F S cs'"] by (simp add: drop_take min_absorb1 le_diff_conv2)
  with fat_read_spec [OF vol_okD(1) [OF assms(1)] w(2) fc, of P off "of_nat (length src)"] show ?thesis
    unfolding w(1) us w(7) by auto
qed

text \<open>(C6) A write that its own and the free clusters can hold leaves every other file alone: when the chain of \<open>other\<close>
  is disjoint from the one being written, \<open>other\<close> reads after the write exactly as before, at every offset and length.
  Clusters are only ever taken from the free ones. In the root directory no byte changes outside the 32 bytes of the
  entry of the file being written, so the entries of the other files stay as well.\<close>

theorem fat_write_keeps_files:
  assumes "vol_ok F" "shows_disk b S" "root_file F file" "own_chain F S file cs"
    and "\<not> is_dir file" "attr file AND 0x01 = 0" "src \<noteq> []"
    and "unat off + length src \<le> (length cs + card (free_clusters F S)) * csz F"
    and "sound_chain F S ds" "file_chain F S other ds" "set ds \<inter> set cs = {}"
  shows "\<exists>off' file' b' S' n out at' b1 b2. fat_write P F file off src b = Ret (int (length src), off', file', b') \<and>
    fat_read P F other at len b = Ret (n, out, at', b1) \<and> fat_read P F other at len b' = Ret (n, out, at', b2) \<and>
    shows_disk b' S' \<and> dir_same F file S S'"
proof -
  from fat_write_spec [OF assms(1-8), of P] obtain cs' S' file' b' where
    w: "fat_write P F file off src b = Ret (int (length src), off + of_nat (length src), file', b')"
    "shows_disk b' S'" "saved F (ucast (dir_sector file)) S cs S' cs'" "dir_same F file S S'" by blast
  note D = sound_chainD [OF assms(9)] and M = vol_okD(1) [OF assms(1)]
  have no: "c \<notin> set cs'" if "c \<in> set ds" for c using that D(6) [of c] assms(11) savedD(1) [OF w(3)] by auto
  have "clus_chain F S' ds = clus_chain F S ds" using savedD(3) [OF w(3)] D(3) no by (intro clus_chain_cong) blast
  then have fc: "file_chain F S' other ds"
    using assms(10) D(3) readable_valid [OF assms(1) w(2)] by (simp add: file_chain_def)
  have fb: "file_bytes F S' ds = file_bytes F S ds" using savedD(4) [OF w(3)] D(3) no by (intro file_bytes_cong) blast
  show ?thesis using w(1) fat_read_spec [OF M assms(2,10), of P at len] fat_read_spec [OF M w(2) fc, of P at len] w(2,4) unfolding fb by blast
qed

end
