(* ===== verification/Fat_Seed.thy ===== *)
theory Fat_Seed
  imports Fat_Inv
begin

text \<open>
  The volume that the kernel formats in its RAM disk at boot (\<open>ramdisk_seed_fat16\<close> of \<open>kernel/block.c\<close>): it mounts, its
  layout is sound, and its one file reads as its directory entry says. The properties of \<open>Fat_Inv\<close> are applied to it.
\<close>

section \<open>The sectors of the initial volume\<close>

definition seed_table :: "u8 list" where "seed_table = [0xF8, 0xFF, 0xFF, 0xFF, 0xFF, 0xFF]"

definition seed_disk :: disk_map where
  "seed_disk lba =
     (if lba < RAMDISK_SECTORS
      then Some (if lba = 0 then seed_boot 32 else if lba = 1 then seed_table @ replicate 506 0
                 else if lba = 33 then seed_root @ replicate 482 0 else if lba = 41 then seed_message @ replicate 488 0
                 else replicate 512 0)
      else None)"

lemma seed_lengths: "length (seed_boot 32) = 512" "length seed_table = 6" "length seed_root = 30" "length seed_message = 24"
  by (simp_all add: seed_boot_def seed_table_def seed_root_def seed_message_def)

lemma nth_rd_bytes: "i < k \<Longrightarrow> rd_bytes m a k ! i = m (a + of_nat i)"
proof (induction k arbitrary: a i)
  case (Suc k)
  then show ?case by (cases i) (simp_all add: ac_simps)
qed simp

lemma seed_byte:
  "the (ret_val ramdisk_seed_fat16) x =
     (if 20992 \<le> unat x \<and> unat x < 21016 then seed_message ! (unat x - 20992)
      else if 16896 \<le> unat x \<and> unat x < 16926 then seed_root ! (unat x - 16896)
      else if 512 \<le> unat x \<and> unat x < 518 then seed_table ! (unat x - 512)
      else if unat x < 512 then seed_boot 32 ! unat x else 0)"
proof -
  have "the (ret_val ramdisk_seed_fat16) =
     wr_bytes (wr_bytes (wr_bytes (wr_bytes (\<lambda>_. 0) 0 (seed_boot 32)) 512 seed_table) 16896 seed_root) 20992 seed_message"
    by (simp add: ramdisk_seed_fat16_def seed_loop_32 loop_run_def Let_def seed_table_def)
  then show ?thesis by (simp add: wr_bytes_eval seed_lengths)
qed

lemma seed_sectors: "ramdisk_sectors (b\<lparr>ramdisk_data := the (ret_val ramdisk_seed_fat16)\<rparr>) = seed_disk"
proof
  fix lba :: u64
  show "ramdisk_sectors (b\<lparr>ramdisk_data := the (ret_val ramdisk_seed_fat16)\<rparr>) lba = seed_disk lba"
  proof (cases "lba < RAMDISK_SECTORS")
    case True
    define n where "n = unat lba"
    have n: "n < 8192" using True by (simp add: n_def RAMDISK_SECTORS_def word_less_nat_alt)
    have l: "unat (lba * 512) = n * 512" using n by (subst unat_mult_no_wrap) (simp_all add: n_def)
    have u: "unat (lba * 512 + of_nat i) = n * 512 + i" if "i < 512" for i
    proof -
      have "unat (of_nat i :: u64) = i" using that by (intro unat_of_nat_small) simp
      then show ?thesis using that n l by (subst unat_add_no_wrap) simp_all
    qed
    have e: "lba = 0 \<longleftrightarrow> n = 0" "lba = 1 \<longleftrightarrow> n = 1" "lba = 33 \<longleftrightarrow> n = 33" "lba = 41 \<longleftrightarrow> n = 41"
      by (simp_all add: n_def word_unat_eq_iff)
    have "rd_bytes (the (ret_val ramdisk_seed_fat16)) (lba * 512) 512 = the (seed_disk lba)"
    proof (rule nth_equalityI)
      show "length (rd_bytes (the (ret_val ramdisk_seed_fat16)) (lba * 512) 512) = length (the (seed_disk lba))"
        using True by (simp add: seed_disk_def seed_lengths)
      fix i assume "i < length (rd_bytes (the (ret_val ramdisk_seed_fat16)) (lba * 512) 512)"
      then have i: "i < 512" by simp
      have "rd_bytes (the (ret_val ramdisk_seed_fat16)) (lba * 512) 512 ! i = the (ret_val ramdisk_seed_fat16) (lba * 512 + of_nat i)"
        by (rule nth_rd_bytes [OF i])
      also have "\<dots> = the (seed_disk lba) ! i" unfolding seed_byte u [OF i] seed_disk_def e using True i
        by (cases "n = 0") (auto simp: nth_append seed_lengths)
      finally show "rd_bytes (the (ret_val ramdisk_seed_fat16)) (lba * 512) 512 ! i = the (seed_disk lba) ! i" .
    qed
    then show ?thesis using True by (simp add: ramdisk_sectors_def seed_disk_def)
  qed (simp add: ramdisk_sectors_def seed_disk_def)
qed

section \<open>Mounting it\<close>

definition seed_volume :: fat_state where
  "seed_volume = \<lparr>fat_dev = Ramdisk, bytes_per_sector = 512, sectors_per_cluster = 1, reserved_sectors = 1, fat_count = 1,
     root_entries = 128, fat_size = 32, total_sectors = 8192, root_dir_sectors = 8, fat_start = 1, root_start = 33,
     data_start = 41, cluster_count = 8151, fat_ready = True\<rparr>"

definition readme :: fat_file where
  "readme = \<lparr>start_cluster = 2, file_size = 26, dir_sector = 33, dir_offset = 0, is_dir = False, attr = 0x20\<rparr>"

lemma seed_boot_fields:
  "read_u16 (seed_boot 32) 11 = 512" "seed_boot 32 ! 13 = 1" "read_u16 (seed_boot 32) 14 = 1" "seed_boot 32 ! 16 = 1"
  "read_u16 (seed_boot 32) 17 = 128" "read_u16 (seed_boot 32) 19 = 8192" "read_u16 (seed_boot 32) 22 = 32"
  by (simp_all add: seed_boot_def read_u16_def)

lemma seed_init:
  assumes "shows_disk b seed_disk"
  shows "\<exists>b1. fat_init P (Some Ramdisk) fat_zero b = (0, seed_volume, b1) \<and> shows_disk b1 seed_disk"
proof -
  have c: "cache_ok b" "ramdisk_sectors b = seed_disk" using assms by (simp_all add: shows_disk_def)
  have "seed_disk 0 = Some (seed_boot 32)" by (simp add: seed_disk_def RAMDISK_SECTORS_def)
  then obtain b1 where "block_read P Ramdisk 0 1 b = (Some (seed_boot 32), b1)" "shows_disk b1 seed_disk"
    using ramdisk.rd [OF c(1), of P 0] c(2) by (cases "block_read P Ramdisk 0 1 b") (simp add: shows_disk_def)
  then show ?thesis by (simp add: fat_init_def seed_boot_fields fat_zero_def seed_volume_def FAT16_MIN_CLUSTERS_def Let_def)
qed

lemma seed_volume_ok: "vol_ok seed_volume" "csz seed_volume = 512" "nspc seed_volume = 1"
  by (simp_all add: vol_ok_def mounted_def seed_volume_def nclus_def nspc_def csz_def)

lemma seed_entry:
  "fat_entry seed_volume seed_disk 2 = 0xFFFF" "fat_entry seed_volume seed_disk 3 = 0"
  by (simp_all add: fat_entry_def entry_sector_def entry_offset_def seed_volume_def seed_disk_def RAMDISK_SECTORS_def read_u16_def seed_table_def)

lemma seed_bytes: "file_bytes seed_volume seed_disk [2] = seed_message @ replicate 488 0"
proof -
  have "data_sector seed_volume 2 0 = 41" by (simp add: data_sector_def cluster_to_sector_def seed_volume_def)
  then show ?thesis by (simp add: file_bytes_def cluster_bytes_def seed_volume_ok seed_disk_def RAMDISK_SECTORS_def)
qed

lemma readme_chain: "sound_chain seed_volume seed_disk [2]" "file_chain seed_volume seed_disk readme [2]"
proof -
  have v: "valid_cluster seed_volume 2" by (simp add: valid_cluster_def nclus_def seed_volume_def)
  show "sound_chain seed_volume seed_disk [2]" by (simp add: sound_chain_def v seed_entry is_end_cluster_def FAT16_EOC_def)
  have "data_sector seed_volume 2 0 = 41" by (simp add: data_sector_def cluster_to_sector_def seed_volume_def)
  then have "cluster_readable seed_volume seed_disk 2" by (simp add: cluster_readable_def seed_volume_ok seed_disk_def RAMDISK_SECTORS_def)
  then show "file_chain seed_volume seed_disk readme [2]"
    by (simp add: file_chain_def readme_def seed_volume_ok seed_entry is_end_cluster_def FAT16_EOC_def)
qed

lemma seed_start: "\<exists>b. block_init P rn an (block_zero h) = Ret b \<and> shows_disk b seed_disk"
proof -
  have "length (block_cache (block_zero h)) = 16" by (simp add: block_zero_def Let_def)
  from block_init_ready [OF this, of P rn an] show ?thesis unfolding seed_sectors by (auto simp: shows_disk_def)
qed

lemma readme_name: "build_short_name ''README.TXT'' = Some (map of_char ''README  TXT'')"
  by (simp add: build_short_name_def upper_char_def pad_def Let_def numeral_2_eq_2)

lemma readme_open:
  assumes "shows_disk b seed_disk"
  shows "\<exists>b1. fat_open P seed_volume ''/README.TXT'' b = Ret (Some readme, b1) \<and>
    fat_open P seed_volume ''README.TXT'' b = Ret (Some readme, b1) \<and> shows_disk b1 seed_disk"
proof -
  have s: "seed_disk 33 = Some (seed_root @ replicate 482 0)" by (simp add: seed_disk_def RAMDISK_SECTORS_def)
  obtain b1 where b1: "dir_read_sector P seed_volume 33 b = (Some (seed_root @ replicate 482 0), b1)" "shows_disk b1 seed_disk"
    using shows_read [OF vol_okD(1) [OF seed_volume_ok(1)] assms, of P 33] s by (auto simp: dir_read_sector_def)
  have u: "[0..<entries_per_sector seed_volume] = 0 # [1..<16]" by (simp add: entries_per_sector_def seed_volume_def upt_conv_Cons)
  have sc: "scan_entries seed_volume True (map of_char ''README  TXT'') 0 False 33 (seed_root @ replicate 482 0) (0 # [1..<16]) 0 None =
    Stop (Found readme \<lparr>loc_sector = 33, loc_offset = 0\<rparr>)"
    by (simp add: seed_volume_def seed_root_def found_file_def readme_def read_u16_def read_u32_def nth_append nth_Cons' Let_def)
  have n: "unat (root_dir_sectors seed_volume) = Suc 7" "root_start seed_volume = 33" by (simp_all add: seed_volume_def)
  have "scan_sectors P seed_volume True (map of_char ''README  TXT'') 0 False 33 (Suc 7) 0 None b =
    (Stop (Found readme \<lparr>loc_sector = 33, loc_offset = 0\<rparr>), b1)" by (simp only: scan_sectors.simps b1(1) u sc prod.case option.case scan.case)
  then have "dir_find_entry P seed_volume 0 (map of_char ''README  TXT'') 0 False b = Ret (Found readme \<lparr>loc_sector = 33, loc_offset = 0\<rparr>, b1)"
    by (simp only: dir_find_entry_def n refl if_True prod.case scan.case)
  then have "fat_open P seed_volume ''/README.TXT'' b = Ret (Some readme, b1)" "fat_open P seed_volume ''README.TXT'' b = Ret (Some readme, b1)"
    using vol_okD(1) [OF seed_volume_ok(1)] by (simp_all add: mounted_def fat_open_def fat_traverse_path_def path_comp_def readme_name traverse_loop.simps Let_def)
  then show ?thesis using b1(2) by blast
qed

lemma readme_read:
  assumes "shows_disk b seed_disk"
  shows "\<exists>b1. fat_read P seed_volume readme 0 512 b = Ret (26, seed_message @ [0, 0], 26, b1) \<and> shows_disk b1 seed_disk"
proof -
  have "take 512 (drop 0 (take 26 (seed_message @ replicate 488 0))) = seed_message @ [0, 0]"
    by (simp add: seed_message_def numeral_2_eq_2)
  moreover have "unat (512 :: u64) = 512" "unat (0 :: u64) = 0" "unat (file_size readme) = 26" "length seed_message = 24"
    by (simp_all add: readme_def seed_lengths)
  ultimately show ?thesis
    using fat_read_spec [OF vol_okD(1) [OF seed_volume_ok(1)] assms readme_chain(2), of P 0 512] unfolding seed_bytes by auto
qed

section \<open>The properties of files on it\<close>

definition new_file :: fat_file where
  "new_file = \<lparr>start_cluster = 0, file_size = 0, dir_sector = 33, dir_offset = 32, is_dir = False, attr = 0x20\<rparr>"

lemma new_file_ok: "root_file seed_volume new_file" "own_chain seed_volume seed_disk new_file []"
  by (simp_all add: root_file_def own_chain_def new_file_def seed_volume_def)

lemma seed_room: "0 < card (free_clusters seed_volume seed_disk)"
proof -
  have "3 \<in> free_clusters seed_volume seed_disk" by (simp add: free_clusters_def seed_entry valid_cluster_def nclus_def) (simp add: seed_volume_def)
  then show ?thesis using card_gt_0_iff finite_free by blast
qed

theorem fat_read_slice_witness:
  "\<exists>b b'. block_init ready_disk 1 2 (block_zero ()) = Ret b \<and>
     fat_read ready_disk seed_volume readme 10 5 b = Ret (5, map of_char ''FAT16'', 15, b')"
proof -
  obtain b where b: "block_init ready_disk 1 2 (block_zero ()) = Ret b" "shows_disk b seed_disk" using seed_start [of ready_disk 1 2 "()"] by blast
  have "(map of_char ''FAT16'' :: u8 list) = take (unat (5 :: u64)) (drop (unat (10 :: u64)) (take (unat (file_size readme)) (file_bytes seed_volume seed_disk [2])))"
    by (simp add: seed_bytes readme_def seed_message_def)
  from fat_read_slice [OF vol_okD(1) [OF seed_volume_ok(1)] b(2) readme_chain(2) this, of ready_disk] b(1) show ?thesis by auto
qed

theorem fat_write_read_back_witness:
  "\<exists>b file' b' b''. block_init ready_disk 1 2 (block_zero ()) = Ret b \<and>
     fat_write ready_disk seed_volume new_file 100 [1, 2, 3] b = Ret (3, 103, file', b') \<and>
     fat_read ready_disk seed_volume file' 100 3 b' = Ret (3, [1, 2, 3], 103, b'')"
proof -
  obtain b where b: "block_init ready_disk 1 2 (block_zero ()) = Ret b" "shows_disk b seed_disk" using seed_start [of ready_disk 1 2 "()"] by blast
  have "unat (100 :: u64) + length [1, 2, 3 :: u8] \<le> (length ([] :: u16 list) + card (free_clusters seed_volume seed_disk)) * csz seed_volume"
    using seed_room by (simp add: seed_volume_ok)
  from fat_write_read_back [OF seed_volume_ok(1) b(2) new_file_ok, OF _ _ _ _ this, of ready_disk] b(1) show ?thesis
    by (auto simp: new_file_def)
qed

theorem fat_write_keeps_files_witness:
  "\<exists>b off' file' b' S' n out at' b1 b2. block_init ready_disk 1 2 (block_zero ()) = Ret b \<and>
     fat_write ready_disk seed_volume new_file 100 [1, 2, 3] b = Ret (3, off', file', b') \<and>
     fat_read ready_disk seed_volume readme 0 26 b = Ret (n, out, at', b1) \<and>
     fat_read ready_disk seed_volume readme 0 26 b' = Ret (n, out, at', b2) \<and>
     shows_disk b' S' \<and> dir_same seed_volume new_file seed_disk S'"
proof -
  obtain b where b: "block_init ready_disk 1 2 (block_zero ()) = Ret b" "shows_disk b seed_disk" using seed_start [of ready_disk 1 2 "()"] by blast
  have "unat (100 :: u64) + length [1, 2, 3 :: u8] \<le> (length ([] :: u16 list) + card (free_clusters seed_volume seed_disk)) * csz seed_volume"
    using seed_room by (simp add: seed_volume_ok)
  from fat_write_keeps_files [OF seed_volume_ok(1) b(2) new_file_ok, OF _ _ _ this readme_chain, of ready_disk 0 26] b(1) show ?thesis
    by (auto simp: new_file_def)
qed

end
