(* ===== verification/Spec2Isabelle.thy ===== *)
theory Spec2Isabelle
  imports Kheap_Inv Syscall_Inv Fat_Seed
begin

text \<open>
  NeptuneOS is a small kernel for x86-64. This development models its memory management, scheduling, file
  systems, program loading and system calls, as they are written in \<open>src/kernel\<close>, and proves what they guarantee.

  \<^bold>\<open>Conventions.\<close> Machine integers are words of their width, so arithmetic wraps where the C code wraps. Kernel code
  that may panic or never return has the result type \<open>run\<close> of \<open>Neptune_Prelude\<close> (\<open>Ret\<close>, \<open>Panic\<close> with message
  and code, \<open>Hang\<close>), composed with \<open>bind_run\<close>; a loop whose end depends on data is a partial function in the option
  type, and \<open>loop_run\<close> turns its divergence into \<open>Hang\<close>. Loops that end are total functions with a
  termination proof. No fuel is used, except that the polling loops of the disk driver have the bounds of the source.
  State is passed explicitly in records with the fields of the C structures and file-level
  variables; error codes are values. Physical memory and the memory of a process are functions from addresses to bytes.
  An operation that holds a lock from its first to its last access of the state is one step; interleavings are
  sequences of such steps.

  \<^bold>\<open>Theories.\<close>
  \<^item> \<open>Neptune_Prelude\<close>: words, the result type, byte memory with little-endian accesses, alignment, linked lists as
    chains of pointers. \<open>Kernel_Base\<close>: error codes, C strings and bounded output shared by the file systems.
  \<^item> \<open>Pmm\<close> (\<open>mem.c\<close>): page bitmaps in physical memory, allocation and freeing, boot. The locale \<open>page_allocator\<close> is the
    contract of a page allocator; its interpretation on the model gives the theorems on sequences of allocations.
  \<^item> \<open>Mmu\<close> (\<open>arch/x86_64/mmu.c\<close>, \<open>mmu.h\<close>): four-level page tables in pages of \<open>Pmm\<close>. Mapping is proved against
    \<open>hw_walk\<close>, the translation of the processor, with the write, user and execute permissions combined over all levels.
  \<^item> \<open>Kheap\<close>, \<open>Kheap_Inv\<close> (\<open>heap.c\<close>): size classes, the sorted and coalescing large list, growth through \<open>Mmu\<close>. The invariant
    \<open>heap_inv\<close> says which parts of the heap are handed out, free or bookkeeping, and every operation keeps it. What a caller
    owns is the whole extent it asked for (32 bytes of header and the size); where the size class cuts that short, the theorems
    say so (\<open>payload_fits\<close>).
  \<^item> \<open>Pipe\<close> (\<open>pipe.c\<close>): a ring buffer refines a bounded queue, under every interleaving of readers and writers.
  \<^item> \<open>Memfs\<close> (\<open>fs.c\<close>, \<open>ramfs.c\<close>): program images and files in memory. \<open>Paths\<close>: the two copies of \<open>normalize_path\<close>.
  \<^item> \<open>Ata\<close> (\<open>ata.c\<close>), \<open>Block\<close> (\<open>block.c\<close>): the disk driver over a record of port operations, the RAM disk and the sector
    cache. The locale \<open>sector_store\<close> is what the file system relies on: a map of sectors behind reads and writes; the cached RAM
    disk is an interpretation.
  \<^item> \<open>Fat\<close>, \<open>Fat_Inv\<close>, \<open>Fat_Seed\<close> (\<open>fat.c\<close>): the FAT16 file system on the block layer. \<open>Fat_Inv\<close> abstracts a volume to
    a map of sectors, a table of entries and files as chains of clusters, and specifies reading, allocation and writing on
    it; \<open>Fat_Seed\<close> applies this to the volume that \<open>block_init\<close> formats.
  \<^item> \<open>Vfs\<close> (\<open>vfs.c\<close>): open files with reference counts over all backends. Heap objects are numbered and every
    allocation may fail; the invariant \<open>vfs_inv\<close> relates pipes to the files that refer to them.
  \<^item> \<open>Sched\<close> (\<open>sched.c\<close>): threads on a doubly linked list, round robin, sleeping, exit and reaping. The scheduler calls the
    handle table through a record of two functions, which \<open>Syscall\<close> instantiates. Process numbers have 32 bits and wrap;
    they are distinct as long as fewer than \<open>2 ^ 31 - 1\<close> processes were created.
  \<^item> \<open>Tty\<close> (\<open>irq.c\<close>, \<open>tty.c\<close>, \<open>timer.c\<close>): interrupt rings, decoding and line editing. The locale \<open>lossy_queue\<close> is the
    contract of a ring that drops input when full, interpreted for the keyboard and the serial ring.
  \<^item> \<open>User_Mem\<close> (\<open>syscall.c\<close>, \<open>idt.c\<close>): checks of user pointers, stack growth and copy on write. \<open>Elf_User\<close> (\<open>elf.c\<close>,
    \<open>user.c\<close>): the loader, address spaces and the initial stack.
  \<^item> \<open>Syscall\<close>, \<open>Syscall_Inv\<close> (\<open>syscall.c\<close>, \<open>user.c\<close>): the handle table, every system call and the threads that start
    programs, on top of all of the above. A call that sleeps returns \<open>Waiting\<close> with what it keeps on its stack;
    \<open>sys_resume\<close> runs it to its next wait or its end, and \<open>syscall_run\<close> is a whole call with its waits.
  \<^item> this theory: what holds across components, here a file of the disk read through the virtual file system.

  \<^bold>\<open>What is shown.\<close> The page allocator hands out each page once, panics exactly when nothing is left, and its bitmaps
  never overlap allocatable pages. A mapped page is what the processor finds, with exactly the
  permissions that the path to it grants. Blocks of the heap never overlap, whatever the order of
  allocations and releases, and releases return. Pipes neither lose, duplicate nor reorder bytes. RAM files and FAT
  files return what was written to them, and a FAT write leaves other files and their directory entries alone. The sector cache cannot be observed
  by single-sector clients. Paths resolve like a stack of components and fit their buffers. Files and pipes
  agree on the number of open ends. The thread list stays consistent, a yield picks the next runnable thread, and a
  runnable thread runs within a bounded number of yields. Input arrives in order and line editing delivers what was typed. The
  initial stack of a program reads as its arguments. The pointer check is exact, and a system call changes user
  memory only where the caller may access it, before and after each wait. The theorems of kind error show where the code departs from this: requests the
  allocator refuses, blocks of the heap that are too small, conversions that are off, a driver that misreads its device,
  faults that trap the kernel, offsets that wrap.

  \<^bold>\<open>Assumptions.\<close> Parameters stand for what is outside the sources: the memory map at boot, the embedded program images,
  the answers of device ports, and which allocations succeed. Locks give mutual exclusion; memory is sequentially
  consistent. C strings are the characters before the terminating NUL. While a system call waits, the pages that its process
  may access stay mapped (\<open>keeps_access\<close>). The properties of FAT files are stated for volumes on the RAM disk whose table, root directory and clusters
  do not overlap (\<open>vol_ok\<close>) and for files of the root directory; the volume formatted at boot is one. Through a
  transfer of several sectors at once the cache can deliver old contents (\<open>block_write_leaves_stale\<close>); no client in the sources does such transfers.

  \<^bold>\<open>Not modelled.\<close> The boot code and \<open>kernel.c\<close>, which call the initialisers in order (the calls of \<open>fat_init\<close> are
  commented out there, so the shipped kernel has no FAT volume); descriptor tables, interrupt
  controllers and timers as devices (\<open>gdt.c\<close>, \<open>pic.c\<close>, \<open>pit.c\<close>, \<open>syscall_msr.c\<close>, and the gates and register dumps
  of \<open>idt.c\<close>); saved registers and context switches in assembly; output to screen and serial port (\<open>console.c\<close>,
  \<open>terminal.c\<close>, \<open>log.c\<close>, \<open>printf.c\<close>), whose only effect is to print; \<open>panic.c\<close>, whose occurrence is a result; \<open>spinlock.c\<close>, which the
  steps presuppose; the C library helpers of \<open>string.c\<close>; \<open>pci.c\<close> and \<open>acpi.c\<close>, which read and log
  tables; the generated bytes of \<open>user_images.c\<close>; and the user programs, which run outside of the kernel.
\<close>

section \<open>A file of the disk through the virtual file system\<close>

lemma readme_not_image: "memfs_lookup img ''/disk/README.TXT'' = None"
  by (simp add: memfs_lookup_def memfs_init_def memfs_paths_def)

lemma readme_path: "normalize_path ''/disk/README.TXT'' VFS_PATH_MAX = Some (False, ''/disk/README.TXT'')"
  by code_simp

lemma readme_vfs_open:
  assumes "shows_disk b seed_disk"
  shows "\<exists>b1. vfs_open P ''/disk/README.TXT'' (vfs_empty img seed_volume b (\<lambda>_. True)) =
      Ret (open_with VFS_BACKEND_FAT (\<lambda>f. f\<lparr>fat_ref := Some readme\<rparr>)
        ((vfs_empty img seed_volume b1 (\<lambda>_. True))\<lparr>next_obj := 1\<rparr>)) \<and> shows_disk b1 seed_disk"
proof -
  obtain b1 where b1: "fat_open P seed_volume ''README.TXT'' b = Ret (Some readme, b1)" "shows_disk b1 seed_disk"
    using readme_open [OF assms, of P] by blast
  then show ?thesis
    by (intro exI [of _ b1]) (simp add: vfs_open_def readme_path readme_not_image vfs_empty_def new_obj_def open_fat_def)
qed

text \<open>(C23) A file of the disk reads through the virtual file system: on a freshly booted kernel whose RAM disk has
  been formatted by \<open>block_init\<close> and mounted by \<open>fat_init\<close>, opening \<open>/disk/README.TXT\<close> succeeds and a read returns the
  26 bytes that the directory entry announces, with the offset of the file behind them. Two of the bytes are NUL: the
  message has 24, since the source has a backslash and an \<open>n\<close> where a line end is meant.\<close>

theorem disk_file_reads_through_vfs:
  "\<exists>b F b1 n s1 s2. block_init P rn an (block_zero h) = Ret b \<and>
     fat_init P (Some (block_get_ramdisk b)) fat_zero b = (0, F, b1) \<and>
     vfs_open P ''/disk/README.TXT'' (vfs_empty img F b1 (\<lambda>_. True)) = Ret (Inr n, s1) \<and>
     vfs_read P n 512 s1 =
       Ret (Io 26 (map of_char ''NeptuneOS FAT16 volume'' @ [of_char (CHR 0x5C), of_char (CHR ''n''), 0, 0]), s2) \<and>
     map_option offset (files s2 n) = Some 26"
proof -
  obtain b where b: "block_init P rn an (block_zero h) = Ret b" "shows_disk b seed_disk" using seed_start [of P rn an h] by blast
  obtain b1 where b1: "fat_init P (Some Ramdisk) fat_zero b = (0, seed_volume, b1)" "shows_disk b1 seed_disk"
    using seed_init [OF b(2), of P] by blast
  let ?f = "\<lparr>backend = VFS_BACKEND_FAT, offset = 0, mem_file = None, ram_file = None, fat_ref = Some readme, pipe_ref = None,
    is_pipe_writer = False, list_path = [], refcount = 1\<rparr>"
  obtain b2 where b2: "vfs_open P ''/disk/README.TXT'' (vfs_empty img seed_volume b1 (\<lambda>_. True)) =
      Ret (Inr 1, (vfs_empty img seed_volume b2 (\<lambda>_. True))\<lparr>next_obj := 2, files := [1 \<mapsto> ?f]\<rparr>)" "shows_disk b2 seed_disk"
    using readme_vfs_open [OF b1(2), of P img] by (auto simp: open_with_def vfs_alloc_def new_obj_def upd_file_def vfs_empty_def)
  obtain b3 where "fat_read P seed_volume readme 0 512 b2 = Ret (26, seed_message @ [0, 0], 26, b3)" using readme_read [OF b2(2), of P] by blast
  then show ?thesis using b b1 b2(1)
    by (simp add: vfs_read_def vfs_empty_def block_get_ramdisk_def upd_file_def seed_message_def)
qed

end
